(* ===== verification/Bpf_Prelude.thy ===== *)
theory Bpf_Prelude
  imports Complex_Main "HOL-Library.Word"
begin

text \<open>
  The vocabulary every component shares: the widths of the C integers, byte arrays and the
  little-endian reading of them, the network/host byte-order swaps, the C string and memory
  routines the programs call, and the list lemmas the component proofs rest on.

  The programs are compiled for little-endian targets (x86-64 and aarch64, see README.md), so
  the host order of a multi-byte field is little-endian and \<open>bpf_ntohs\<close>, \<open>bpf_ntohl\<close>,
  \<open>ntohs\<close>, \<open>htons\<close> and \<open>htonl\<close> all reverse the bytes.
\<close>

unbundle bit_operations_syntax

type_synonym u8 = "8 word"
type_synonym u16 = "16 word"
type_synonym u32 = "32 word"
type_synonym u64 = "64 word"
type_synonym bytes = "8 word list"

named_theorems helper_defs \<open>definitions of the C library and helper idioms\<close>
named_theorems frame_laws \<open>what an operation leaves unchanged\<close>
named_theorems len_laws \<open>array sizes that operations keep\<close>

section \<open>Bytes and byte order\<close>

definition byte_at :: "nat \<Rightarrow> 'a::len word \<Rightarrow> u8" where
  "byte_at i w = ucast (drop_bit (8 * i) w)"

definition le16 :: "u8 \<Rightarrow> u8 \<Rightarrow> u16" where
  "le16 a b = ucast a OR push_bit 8 (ucast b)"

definition le32 :: "u8 \<Rightarrow> u8 \<Rightarrow> u8 \<Rightarrow> u8 \<Rightarrow> u32" where
  "le32 a b c d =
     ucast a OR push_bit 8 (ucast b) OR push_bit 16 (ucast c) OR push_bit 24 (ucast d)"

definition bswap16 :: "u16 \<Rightarrow> u16" where
  "bswap16 w = le16 (byte_at 1 w) (byte_at 0 w)"

definition bswap32 :: "u32 \<Rightarrow> u32" where
  "bswap32 w = le32 (byte_at 3 w) (byte_at 2 w) (byte_at 1 w) (byte_at 0 w)"

lemma bit_byte_at: "bit (byte_at i w) n \<longleftrightarrow> n < 8 \<and> bit w (8 * i + n)"
  by (auto simp: byte_at_def bit_simps dest: bit_imp_le_length)

lemma bit_le16: "bit (le16 a b) n \<longleftrightarrow> (if n < 8 then bit a n else bit b (n - 8))"
  by (auto simp: le16_def bit_simps dest: bit_imp_le_length)

lemma bit_le32:
  "bit (le32 a b c d) n \<longleftrightarrow>
     (if n < 8 then bit a n else if n < 16 then bit b (n - 8)
      else if n < 24 then bit c (n - 16) else bit d (n - 24))"
  by (auto simp: le32_def bit_simps dest: bit_imp_le_length)

lemma byte_at_le16 [simp]:
  "byte_at 0 (le16 a b) = a"
  "byte_at (Suc 0) (le16 a b) = b"
  by (rule bit_word_eqI; simp add: bit_byte_at bit_le16)+

lemma byte_at_le32 [simp]:
  "byte_at 0 (le32 a b c d) = a"
  "byte_at (Suc 0) (le32 a b c d) = b"
  "byte_at 2 (le32 a b c d) = c"
  "byte_at 3 (le32 a b c d) = d"
  by (rule bit_word_eqI; simp add: bit_byte_at bit_le32)+

lemma le16_bytes [simp]: "le16 (byte_at 0 w) (byte_at (Suc 0) w) = w"
  by (rule bit_word_eqI) (auto simp: bit_byte_at bit_le16)

lemma le32_bytes [simp]:
  "le32 (byte_at 0 w) (byte_at (Suc 0) w) (byte_at 2 w) (byte_at 3 w) = w"
  by (rule bit_word_eqI) (auto simp: bit_byte_at bit_le32)

lemma le16_inject [simp]: "le16 a b = le16 c d \<longleftrightarrow> a = c \<and> b = d"
  by (metis byte_at_le16)

lemma le32_inject [simp]:
  "le32 a b c d = le32 a' b' c' d' \<longleftrightarrow> a = a' \<and> b = b' \<and> c = c' \<and> d = d'"
  by (metis byte_at_le32)

lemma bswap16_le16 [simp]: "bswap16 (le16 a b) = le16 b a"
  by (simp add: bswap16_def)

lemma bswap32_le32 [simp]: "bswap32 (le32 a b c d) = le32 d c b a"
  by (simp add: bswap32_def)

lemma bswap16_bswap16 [simp]: "bswap16 (bswap16 w) = w"
  by (simp add: bswap16_def)

lemma bswap32_bswap32 [simp]: "bswap32 (bswap32 w) = w"
  by (simp add: bswap32_def)

lemma bswap16_eq_iff [simp]: "bswap16 v = bswap16 w \<longleftrightarrow> v = w"
  by (metis bswap16_bswap16)

text \<open>Laying a word out as the bytes of the host's memory.\<close>

definition bytes_of16 :: "u16 \<Rightarrow> bytes" where
  "bytes_of16 w = [byte_at 0 w, byte_at 1 w]"

definition bytes_of32 :: "u32 \<Rightarrow> bytes" where
  "bytes_of32 w = [byte_at 0 w, byte_at 1 w, byte_at 2 w, byte_at 3 w]"

lemma length_bytes_of [simp, len_laws]:
  "length (bytes_of16 w) = 2"
  "length (bytes_of32 v) = 4"
  by (simp_all add: bytes_of16_def bytes_of32_def)

section \<open>Casts\<close>

text \<open>The high half of a \<open>u64\<close> (a tgid) and its low half (a uid).\<close>

definition hi32 :: "u64 \<Rightarrow> u32" where
  "hi32 w = ucast (drop_bit 32 w)"

definition lo32 :: "u64 \<Rightarrow> u32" where
  "lo32 w = ucast (w AND 0xFFFFFFFF)"

text \<open>
  The same low half without the mask, as \<open>__u32 uid = bpf_get_current_uid_gid()\<close> takes it:
  the mask is redundant in front of a narrowing assignment.
\<close>

lemma lo32_ucast: "lo32 w = ucast w"
proof (rule bit_word_eqI)
  fix n :: nat
  assume "n < LENGTH(32)"
  moreover have "lo32 w = ucast (w AND mask 32)"
    by (simp add: lo32_def mask_eq_exp_minus_1)
  ultimately show "bit (lo32 w) n = bit (ucast w :: u32) n"
    by (auto simp: bit_simps)
qed

section \<open>C strings and memory\<close>

definition c_str :: "bytes \<Rightarrow> bytes" where
  "c_str b = takeWhile (\<lambda>x. x \<noteq> 0) b"

text \<open>\<open>memcpy(dst + off, src, sizeof src)\<close> into an array.\<close>

definition mem_write :: "nat \<Rightarrow> bytes \<Rightarrow> bytes \<Rightarrow> bytes" where
  "mem_write off src dst = take off dst @ src @ drop (off + length src) dst"

text \<open>\<open>strncpy(dst, src, n)\<close>: at most \<open>n\<close> bytes, the rest of the \<open>n\<close> filled with NULs.\<close>

definition c_strncpy :: "nat \<Rightarrow> bytes \<Rightarrow> bytes \<Rightarrow> bytes" where
  "c_strncpy n src dst =
     mem_write 0 (let s = c_str (take n src) in s @ replicate (n - length s) 0) dst"

text \<open>
  The bytes \<open>snprintf(buf, n, "%s", s)\<close> leaves before its NUL: \<open>n - 1\<close> of them at most.
\<close>

definition snprintf_str :: "nat \<Rightarrow> 'a list \<Rightarrow> 'a list" where
  "snprintf_str n s = take (n - 1) s"

text \<open>\<open>atoi\<close>: skip blanks, an optional sign, then decimal digits up to the first other character.\<close>

definition is_digit :: "char \<Rightarrow> bool" where
  "is_digit c \<longleftrightarrow> 48 \<le> (of_char c :: nat) \<and> (of_char c :: nat) \<le> 57"

definition c_digits :: "string \<Rightarrow> int" where
  "c_digits s = foldl (\<lambda>n c. 10 * n + (of_char c - 48)) 0 (takeWhile is_digit s)"

definition c_atoi :: "string \<Rightarrow> int" where
  "c_atoi s =
     (case dropWhile (\<lambda>c. of_char c = (32 :: nat) \<or> 9 \<le> (of_char c :: nat) \<and> (of_char c :: nat) \<le> 13) s of
        [] \<Rightarrow> 0
      | c # r \<Rightarrow> if c = CHR ''-'' then - c_digits r
                 else if c = CHR ''+'' then c_digits r else c_digits (c # r))"

text \<open>\<open>%u\<close>: the decimal digits of a number.\<close>

fun c_dec :: "nat \<Rightarrow> string" where
  "c_dec n = (if n < 10 then [char_of (48 + n)] else c_dec (n div 10) @ [char_of (48 + n mod 10)])"

declare c_dec.simps [simp del]

lemma length_mem_write [simp, len_laws]:
  "off + length src \<le> length dst \<Longrightarrow> length (mem_write off src dst) = length dst"
  by (simp add: mem_write_def)

lemma take_mem_write [simp]: "take (length src) (mem_write 0 src dst) = src"
  by (simp add: mem_write_def)

lemma mem_write_all [simp]: "length src = length dst \<Longrightarrow> mem_write 0 src dst = src"
  by (simp add: mem_write_def)

lemma c_str_append_NUL [simp]: "0 \<notin> set s \<Longrightarrow> c_str (s @ 0 # r) = s"
  unfolding c_str_def by (rule takeWhile_tail [THEN trans]) (auto simp: takeWhile_eq_all_conv)

lemma zero_notin_c_str [simp]: "0 \<notin> set (c_str b)"
  by (auto simp: c_str_def dest: set_takeWhileD)

lemma c_str_id [simp]: "0 \<notin> set s \<Longrightarrow> c_str s = s"
  by (auto simp: c_str_def takeWhile_eq_all_conv)

lemma length_c_strncpy [simp, len_laws]:
  "n \<le> length dst \<Longrightarrow> length (c_strncpy n src dst) = length dst"
  using length_takeWhile_le [of "\<lambda>x. x \<noteq> 0" "take n src"]
  by (simp add: c_strncpy_def c_str_def Let_def)

lemma length_c_dec: "n < 10 ^ k \<Longrightarrow> 0 < k \<Longrightarrow> length (c_dec n) \<le> k"
proof (induction k arbitrary: n)
  case (Suc k)
  show ?case
  proof (cases "n < 10")
    case False
    with Suc.prems have "n div 10 < 10 ^ k" "0 < k"
      by (auto simp: less_mult_imp_div_less mult.commute intro: gr0I)
    with Suc.IH [of "n div 10"] False show ?thesis
      by (simp add: c_dec.simps [of n])
  qed (simp add: c_dec.simps [of n])
qed simp

section \<open>Lists\<close>

text \<open>The first index a scan loop stops at.\<close>

fun first_index :: "('a \<Rightarrow> bool) \<Rightarrow> 'a list \<Rightarrow> nat option" where
  "first_index P [] = None"
| "first_index P (x # xs) = (if P x then Some 0 else map_option Suc (first_index P xs))"

lemma first_index_None_iff: "first_index P xs = None \<longleftrightarrow> (\<forall>x \<in> set xs. \<not> P x)"
  by (induction xs) auto

lemma first_index_SomeD:
  "first_index P xs = Some i \<Longrightarrow> i < length xs \<and> P (xs ! i) \<and> (\<forall>j < i. \<not> P (xs ! j))"
proof (induction xs arbitrary: i)
  case (Cons x xs)
  show ?case
  proof (cases "P x")
    case False
    with Cons.prems obtain k where k: "first_index P xs = Some k" "i = Suc k" by auto
    from Cons.IH [OF k(1)] k(2) False show ?thesis by (auto simp: nth_Cons')
  qed (use Cons.prems in auto)
qed simp

lemma first_index_eqI:
  "i < length xs \<Longrightarrow> P (xs ! i) \<Longrightarrow> (\<And>j. j < i \<Longrightarrow> \<not> P (xs ! j)) \<Longrightarrow> first_index P xs = Some i"
proof (induction xs arbitrary: i)
  case (Cons x xs)
  show ?case
  proof (cases i)
    case (Suc k)
    have "first_index P xs = Some k"
    proof (rule Cons.IH)
      show "\<not> P (xs ! j)" if "j < k" for j
        using Cons.prems(3) [of "Suc j"] that Suc by simp
    qed (use Cons.prems Suc in auto)
    with Cons.prems(3) [of 0] Suc show ?thesis by simp
  qed (use Cons.prems in auto)
qed simp

lemma first_index_cong:
  "(\<And>x. x \<in> set xs \<Longrightarrow> P x = Q x) \<Longrightarrow> first_index P xs = first_index Q xs"
  by (induction xs) auto

lemma first_index_snoc:
  "first_index P (xs @ [x]) =
     (case first_index P xs of
        Some i \<Rightarrow> Some i
      | None \<Rightarrow> if P x then Some (length xs) else None)"
  by (induction xs) (auto split: option.splits)

text \<open>The element at a place of a filtered list, found in the list itself.\<close>

lemma filter_nth_ex:
  "j < length (filter P xs) \<Longrightarrow>
   \<exists>i < length xs. P (xs ! i) \<and> xs ! i = filter P xs ! j \<and> filter P (take i xs) = take j (filter P xs)"
proof (induction xs rule: rev_induct)
  case (snoc x xs)
  show ?case
  proof (cases "j < length (filter P xs)")
    case True
    with snoc.IH obtain i where "i < length xs" "P (xs ! i)" "xs ! i = filter P xs ! j"
      "filter P (take i xs) = take j (filter P xs)" by blast
    with True show ?thesis by (intro exI [of _ i]) (simp add: nth_append)
  next
    case False
    with snoc.prems have "P x" "j = length (filter P xs)" by (auto split: if_splits)
    then show ?thesis by (intro exI [of _ "length xs"]) simp
  qed
qed simp

lemma sorted_filter_le:
  assumes "sorted (map f xs)" "j < length xs"
  shows "sorted (map f (filter P (take j xs))) \<and> (\<forall>x \<in> set (filter P (take j xs)). f x \<le> f (xs ! j))"
proof -
  have "sorted (map f (take j xs @ xs ! j # drop (Suc j) xs))"
    using assms id_take_nth_drop [of j xs] by simp
  then show ?thesis
    by (auto simp: sorted_append intro: sorted_filter)
qed

lemma concat_map_singleton: "(\<And>x. x \<in> set xs \<Longrightarrow> f x = [g x]) \<Longrightarrow> concat (map f xs) = map g xs"
  by (induction xs) auto

lemma sum_list_indicator:
  "(\<Sum>x\<leftarrow>xs. if P x then 1 else 0) = (of_nat (length (filter P xs)) :: 'a::semiring_1)"
  by (induction xs) auto

lemma foldl_plus_sum_list:
  fixes xs :: "'a::comm_monoid_add list"
  shows "foldl (+) a xs = a + sum_list xs"
  by (induction xs arbitrary: a) (simp_all add: add.assoc)

lemma distinct_map_list_update:
  "distinct (map f xs) \<Longrightarrow> i < length xs \<Longrightarrow> f y = f (xs ! i) \<Longrightarrow> distinct (map f (xs[i := y]))"
  by (metis list_update_id map_update)

lemma sum_list_update_word:
  fixes f :: "'b \<Rightarrow> 'a::len word"
  shows "i < length xs \<Longrightarrow>
    (\<Sum>x\<leftarrow>xs[i := y]. f x) = (\<Sum>x\<leftarrow>xs. f x) - f (xs ! i) + f y"
  by (induction xs arbitrary: i) (auto simp: nth_Cons' less_Suc_eq_0_disj algebra_simps split: nat.splits)

end
