(* ===== verification/Bpf_Maps.thy ===== *)
theory Bpf_Maps
  imports Bpf_Prelude "HOL-Library.AList"
begin

text \<open>
  BPF maps as the programs see them. The kernel's map implementation is not part of the
  repository, so a program takes the map operations as an argument, a record of the four
  things it can do with a map: \<open>bpf_map_lookup_elem\<close>, \<open>bpf_map_update_elem\<close>,
  \<open>bpf_map_delete_elem\<close>, and a store through the value pointer a lookup returned
  (\<open>*val += 1\<close>, \<open>__sync_fetch_and_add(val, 1)\<close>). What the programs rely on is stated as
  locales, one per map type the sources declare:
  \<^item> \<open>bpf_map\<close>: the laws of every keyed map. An update may evict other entries, and never
    invents one;
  \<^item> \<open>bpf_hash\<close>: \<open>BPF_MAP_TYPE_HASH\<close>. An update changes its own key only, a failed update
    (\<open>-E2BIG\<close>, \<open>-EEXIST\<close>) changes nothing, and a present key can be overwritten in a full map;
  \<^item> \<open>bpf_bounded\<close>: a hash map with its \<open>max_entries\<close>. A new key is refused only when it is full;
  \<^item> \<open>bpf_lru\<close>: \<open>BPF_MAP_TYPE_LRU_HASH\<close>. An unconditional update always finds room.
    \<open>bpf_lru_insert\<close>: so does the insertion of a new key, and one of a present key changes nothing of it;
  \<^item> \<open>bpf_array\<close>: \<open>BPF_MAP_TYPE_ARRAY\<close> and one CPU's copy of a \<open>PERCPU_ARRAY\<close>. The slots
    below \<open>max_entries\<close> always exist.
  Each is interpreted on an executable map below, which the witnesses run.
\<close>

datatype map_flag = BPF_ANY | BPF_NOEXIST

record ('m, 'k, 'v) map_ops =
  map_lookup :: "'m \<Rightarrow> 'k \<Rightarrow> 'v option"
  map_update :: "'m \<Rightarrow> 'k \<Rightarrow> 'v \<Rightarrow> map_flag \<Rightarrow> int \<times> 'm"
  map_delete :: "'m \<Rightarrow> 'k \<Rightarrow> 'm"
  map_poke :: "'m \<Rightarrow> 'k \<Rightarrow> 'v \<Rightarrow> 'm"

section \<open>The interfaces\<close>

locale bpf_map =
  fixes ops :: "('m, 'k, 'v) map_ops"
  assumes lookup_update:
      "map_update ops m k v f = (0, m') \<Longrightarrow> map_lookup ops m' k = Some v"
    and update_shrinks:
      "map_update ops m k v f = (r, m') \<Longrightarrow> k' \<noteq> k \<or> r \<noteq> 0 \<Longrightarrow>
       map_lookup ops m' k' = Some w \<Longrightarrow> map_lookup ops m k' = Some w"
    and update_noexist:
      "map_lookup ops m k = Some w \<Longrightarrow> fst (map_update ops m k v BPF_NOEXIST) \<noteq> 0"
    and lookup_delete:
      "map_lookup ops (map_delete ops m k) = (map_lookup ops m)(k := None)"
    and lookup_poke:
      "map_lookup ops m k = Some w \<Longrightarrow>
       map_lookup ops (map_poke ops m k v) = (map_lookup ops m)(k \<mapsto> v)"
begin

text \<open>After an update, the key holds the new value, or what it held before, or nothing.\<close>

lemma lookup_after_update:
  "map_lookup ops (snd (map_update ops m k v f)) k = Some w \<Longrightarrow> w = v \<or> map_lookup ops m k = Some w"
  using lookup_update [of m k v f] update_shrinks [of m k v f]
  by (cases "map_update ops m k v f") force

lemma other_after_update:
  "k' \<noteq> k \<Longrightarrow> map_lookup ops (snd (map_update ops m k v f)) k' = Some w \<Longrightarrow>
   map_lookup ops m k' = Some w"
  using update_shrinks [of m k v f] by (cases "map_update ops m k v f") force

text \<open>The first writer wins: with \<open>BPF_NOEXIST\<close> a present key is never overwritten.\<close>

lemma noexist_keeps:
  "map_lookup ops m k = Some w \<Longrightarrow>
   map_lookup ops (snd (map_update ops m k v BPF_NOEXIST)) k = Some w' \<Longrightarrow> w' = w"
  using update_noexist [of m k w v] update_shrinks [of m k v BPF_NOEXIST]
  by (cases "map_update ops m k v BPF_NOEXIST") force

lemma lookup_delete_same [simp]: "map_lookup ops (map_delete ops m k) k = None"
  by (simp add: lookup_delete)

lemma lookup_delete_other:
  "k' \<noteq> k \<Longrightarrow> map_lookup ops (map_delete ops m k) k' = map_lookup ops m k'"
  by (simp add: lookup_delete)

end

locale bpf_hash =
  fixes ops :: "('m, 'k, 'v) map_ops"
  assumes hash_update:
      "map_update ops m k v f = (0, m') \<Longrightarrow> map_lookup ops m' = (map_lookup ops m)(k \<mapsto> v)"
    and hash_update_fail:
      "map_update ops m k v f = (r, m') \<Longrightarrow> r \<noteq> 0 \<Longrightarrow> map_lookup ops m' = map_lookup ops m"
    and hash_update_noexist:
      "map_lookup ops m k = Some w \<Longrightarrow> fst (map_update ops m k v BPF_NOEXIST) \<noteq> 0"
    and hash_overwrite:
      "map_lookup ops m k = Some w \<Longrightarrow> fst (map_update ops m k v BPF_ANY) = 0"
    and hash_delete:
      "map_lookup ops (map_delete ops m k) = (map_lookup ops m)(k := None)"
    and hash_poke:
      "map_lookup ops m k = Some w \<Longrightarrow>
       map_lookup ops (map_poke ops m k v) = (map_lookup ops m)(k \<mapsto> v)"

text \<open>A hash map keeps every promise of the general interface.\<close>

sublocale bpf_hash \<subseteq> bpf_map ops
proof
  show "map_lookup ops m' k = Some v" if "map_update ops m k v f = (0, m')" for m k v f m'
    using hash_update [OF that] by simp
  show "map_lookup ops m k' = Some w"
    if "map_update ops m k v f = (r, m')" "k' \<noteq> k \<or> r \<noteq> 0" "map_lookup ops m' k' = Some w"
    for m k v f r m' k' w
    using that hash_update [of m k v f m'] hash_update_fail [of m k v f r m']
    by (cases "r = 0") auto
qed (fact hash_update_noexist hash_delete hash_poke)+

context bpf_hash
begin

text \<open>The map after an update is the old one or the old one with the key set.\<close>

lemma hash_update_cases:
  "map_lookup ops (snd (map_update ops m k v f)) =
     (if fst (map_update ops m k v f) = 0 then (map_lookup ops m)(k \<mapsto> v) else map_lookup ops m)"
  using hash_update [of m k v f] hash_update_fail [of m k v f]
  by (cases "map_update ops m k v f") auto

lemma hash_update_other [frame_laws]:
  "k' \<noteq> k \<Longrightarrow> map_lookup ops (snd (map_update ops m k v f)) k' = map_lookup ops m k'"
  by (simp add: hash_update_cases)

end

text \<open>
  A hash map of \<open>cap\<close> entries: a new key is refused only when \<open>cap\<close> others are there
  (\<open>max_entries\<close> of \<open>bpf(2)\<close>). \<open>wf_map\<close> is the map's own representation invariant.
\<close>

locale bpf_bounded = bpf_hash ops for ops :: "('m, 'k, 'v) map_ops" +
  fixes cap :: nat and wf_map :: "'m \<Rightarrow> bool"
  assumes bounded_finite: "wf_map m \<Longrightarrow> finite (dom (map_lookup ops m))"
    and bounded_room:
      "wf_map m \<Longrightarrow> map_lookup ops m k = None \<Longrightarrow> card (dom (map_lookup ops m)) < cap \<Longrightarrow>
       fst (map_update ops m k v f) = 0"
    and bounded_update_wf: "wf_map m \<Longrightarrow> wf_map (snd (map_update ops m k v f))"
    and bounded_delete_wf: "wf_map m \<Longrightarrow> wf_map (map_delete ops m k)"
    and bounded_poke_wf: "wf_map m \<Longrightarrow> map_lookup ops m k = Some w \<Longrightarrow> wf_map (map_poke ops m k v)"
begin

text \<open>A key out of a set that fits the map always finds room.\<close>

lemma bounded_fits:
  assumes "wf_map m" "dom (map_lookup ops m) \<subseteq> K" "finite K" "card K \<le> cap" "k \<in> K"
    and "map_lookup ops m k = None"
  shows "fst (map_update ops m k v f) = 0"
proof (rule bounded_room [OF assms(1,6)])
  have "dom (map_lookup ops m) \<subset> K"
    using assms(2,5,6) by (auto simp: domIff)
  from psubset_card_mono [OF assms(3) this] assms(4)
  show "card (dom (map_lookup ops m)) < cap" by linarith
qed

lemma bounded_any:
  "wf_map m \<Longrightarrow> dom (map_lookup ops m) \<subseteq> K \<Longrightarrow> finite K \<Longrightarrow> card K \<le> cap \<Longrightarrow> k \<in> K \<Longrightarrow>
   map_lookup ops (snd (map_update ops m k v BPF_ANY)) = (map_lookup ops m)(k \<mapsto> v)"
  using bounded_fits [of m K k v BPF_ANY] hash_overwrite [of m k _ v]
  by (cases "map_lookup ops m k") (auto simp: hash_update_cases)

end

locale bpf_lru = bpf_map ops for ops :: "('m, 'k, 'v) map_ops" +
  assumes lru_update: "fst (map_update ops m k v BPF_ANY) = 0"
begin

lemma lru_lookup_update [simp]: "map_lookup ops (snd (map_update ops m k v BPF_ANY)) k = Some v"
  using lru_update [of m k v] lookup_update [of m k v BPF_ANY]
  by (cases "map_update ops m k v BPF_ANY") auto

end

text \<open>An insertion of a key that is not there finds room as well.\<close>

locale bpf_lru_insert = bpf_lru ops for ops :: "('m, 'k, 'v) map_ops" +
  assumes lru_insert: "map_lookup ops m k = None \<Longrightarrow> fst (map_update ops m k v BPF_NOEXIST) = 0"
    and lru_exists: "map_lookup ops m k = Some w \<Longrightarrow>
      map_lookup ops (snd (map_update ops m k v BPF_NOEXIST)) k = Some w"
begin

lemma insert_lookup:
  "map_lookup ops (snd (map_update ops m k v BPF_NOEXIST)) k =
     (case map_lookup ops m k of None \<Rightarrow> Some v | Some w \<Rightarrow> Some w)"
proof (cases "map_lookup ops m k")
  case None
  with lru_insert [of m k v] lookup_update [of m k v BPF_NOEXIST] show ?thesis
    by (cases "map_update ops m k v BPF_NOEXIST") auto
qed (simp add: lru_exists)

end

locale bpf_array =
  fixes ops :: "('m, u32, 'v) map_ops" and slots :: nat
  assumes array_present: "unat k < slots \<Longrightarrow> \<exists>v. map_lookup ops m k = Some v"
    and array_absent: "slots \<le> unat k \<Longrightarrow> map_lookup ops m k = None"
    and array_poke:
      "map_lookup ops m k = Some w \<Longrightarrow>
       map_lookup ops (map_poke ops m k v) = (map_lookup ops m)(k \<mapsto> v)"
begin

lemma array_lookup_None_iff: "map_lookup ops m k = None \<longleftrightarrow> slots \<le> unat k"
  using array_present [of k m] array_absent [of k m] by (cases "unat k < slots") auto

end

text \<open>
  Walking a hash map from user space. \<open>bpf_map_get_next_key\<close> gives the key after the given one
  in the map's own order, and the first key when the given one is not in the map (\<open>bpf(2)\<close>).
\<close>

definition next_in :: "'k list \<Rightarrow> 'k \<Rightarrow> 'k option" where
  "next_in ks k =
     (case dropWhile (\<lambda>x. x \<noteq> k) ks of
        [] \<Rightarrow> (case ks of [] \<Rightarrow> None | x # _ \<Rightarrow> Some x)
      | _ # ys \<Rightarrow> (case ys of [] \<Rightarrow> None | y # _ \<Rightarrow> Some y))"

locale bpf_iter = bpf_hash ops for ops :: "('m, 'k, 'v) map_ops" +
  fixes next_key :: "'m \<Rightarrow> 'k \<Rightarrow> 'k option" and keys :: "'m \<Rightarrow> 'k list" and wf_map :: "'m \<Rightarrow> bool"
  assumes iter_distinct: "wf_map m \<Longrightarrow> distinct (keys m)"
    and iter_keys: "wf_map m \<Longrightarrow> k \<in> set (keys m) \<longleftrightarrow> map_lookup ops m k \<noteq> None"
    and iter_next: "wf_map m \<Longrightarrow> next_key m k = next_in (keys m) k"
    and iter_delete_wf: "wf_map m \<Longrightarrow> wf_map (map_delete ops m k)"
    and iter_delete: "wf_map m \<Longrightarrow> keys (map_delete ops m k) = removeAll k (keys m)"

text \<open>The position of a walk: nothing visited yet, or the last visited key.\<close>

definition at_pos :: "'k list \<Rightarrow> 'k list \<Rightarrow> 'k \<Rightarrow> bool" where
  "at_pos ks1 ks2 key \<longleftrightarrow> (if ks1 = [] then key \<notin> set ks2 else key = last ks1)"

lemma next_at_pos:
  assumes "distinct (ks1 @ ks2)" "at_pos ks1 ks2 key"
  shows "next_in (ks1 @ ks2) key = (case ks2 of [] \<Rightarrow> None | x # _ \<Rightarrow> Some x)"
proof (cases ks1 rule: rev_cases)
  case Nil
  with assms(2) have "dropWhile (\<lambda>x. x \<noteq> key) ks2 = []"
    by (auto simp: at_pos_def dropWhile_eq_Nil_conv)
  then show ?thesis unfolding Nil next_in_def append_Nil by (simp only: list.case)
next
  case (snoc us u)
  with assms have u: "u = key" "key \<notin> set us" by (auto simp: at_pos_def)
  then have "dropWhile (\<lambda>x. x \<noteq> key) (us @ [u] @ ks2) = key # ks2"
    by (subst dropWhile_append2) auto
  with snoc show ?thesis by (simp add: next_in_def)
qed

section \<open>An executable hash map and an executable LRU map\<close>

text \<open>
  Bounded association lists. A full hash map refuses a new key with \<open>-E2BIG\<close>; a full LRU map
  drops its oldest entry.
\<close>

record ('k, 'v) amap =
  am_max :: nat
  am_entries :: "('k \<times> 'v) list"

definition am_lookup :: "('k, 'v) amap \<Rightarrow> 'k \<Rightarrow> 'v option" where
  "am_lookup m k = map_of (am_entries m) k"

definition am_delete :: "('k, 'v) amap \<Rightarrow> 'k \<Rightarrow> ('k, 'v) amap" where
  "am_delete m k = m\<lparr>am_entries := AList.delete k (am_entries m)\<rparr>"

definition am_poke :: "('k, 'v) amap \<Rightarrow> 'k \<Rightarrow> 'v \<Rightarrow> ('k, 'v) amap" where
  "am_poke m k v = m\<lparr>am_entries := AList.update k v (am_entries m)\<rparr>"

definition am_hash_update :: "('k, 'v) amap \<Rightarrow> 'k \<Rightarrow> 'v \<Rightarrow> map_flag \<Rightarrow> int \<times> ('k, 'v) amap" where
  "am_hash_update m k v f =
     (case am_lookup m k of
        Some _ \<Rightarrow> if f = BPF_NOEXIST then (-17, m) else (0, am_poke m k v)
      | None \<Rightarrow> if am_max m \<le> length (am_entries m) then (-7, m)
                else (0, m\<lparr>am_entries := (k, v) # am_entries m\<rparr>))"

definition am_lru_update :: "('k, 'v) amap \<Rightarrow> 'k \<Rightarrow> 'v \<Rightarrow> map_flag \<Rightarrow> int \<times> ('k, 'v) amap" where
  "am_lru_update m k v f =
     (case am_lookup m k of
        Some _ \<Rightarrow> if f = BPF_NOEXIST then (-17, m) else (0, am_poke m k v)
      | None \<Rightarrow>
          (0, m\<lparr>am_entries := (k, v) #
                 (if am_max m \<le> length (am_entries m) then butlast (am_entries m)
                  else am_entries m)\<rparr>))"

definition hash_ops :: "(('k, 'v) amap, 'k, 'v) map_ops" where
  "hash_ops = \<lparr>map_lookup = am_lookup, map_update = am_hash_update,
               map_delete = am_delete, map_poke = am_poke\<rparr>"

definition lru_ops :: "(('k, 'v) amap, 'k, 'v) map_ops" where
  "lru_ops = \<lparr>map_lookup = am_lookup, map_update = am_lru_update,
              map_delete = am_delete, map_poke = am_poke\<rparr>"

definition amap_empty :: "nat \<Rightarrow> ('k, 'v) amap" where
  "amap_empty n = \<lparr>am_max = n, am_entries = []\<rparr>"

lemma am_lookup_poke: "am_lookup (am_poke m k v) = (am_lookup m)(k \<mapsto> v)"
  by (rule ext) (simp add: am_lookup_def am_poke_def update_conv)

lemma am_lookup_delete: "am_lookup (am_delete m k) = (am_lookup m)(k := None)"
  by (rule ext) (simp add: am_lookup_def am_delete_def delete_conv)

lemma map_of_butlast: "map_of (butlast es) k = Some w \<Longrightarrow> map_of es k = Some w"
  by (induction es) (auto split: if_splits)

lemmas amap_defs [helper_defs] =
  am_lookup_def am_delete_def am_poke_def am_hash_update_def am_lru_update_def amap_empty_def

interpretation hash_model: bpf_hash "hash_ops :: (('k, 'v) amap, 'k, 'v) map_ops"
proof
  fix m m' :: "('k, 'v) amap" and k v w f r
  show "map_lookup hash_ops m' = (map_lookup hash_ops m)(k \<mapsto> v)"
    if "map_update hash_ops m k v f = (0, m')"
    using that
    by (auto simp: hash_ops_def am_hash_update_def am_lookup_poke split: option.splits if_splits)
       (auto simp: am_lookup_def fun_eq_iff)
  show "map_lookup hash_ops m' = map_lookup hash_ops m"
    if "map_update hash_ops m k v f = (r, m')" "r \<noteq> 0"
    using that by (auto simp: hash_ops_def am_hash_update_def split: option.splits if_splits)
  show "fst (map_update hash_ops m k v BPF_NOEXIST) \<noteq> 0" if "map_lookup hash_ops m k = Some w"
    using that by (simp add: hash_ops_def am_hash_update_def)
  show "fst (map_update hash_ops m k v BPF_ANY) = 0" if "map_lookup hash_ops m k = Some w"
    using that by (simp add: hash_ops_def am_hash_update_def)
qed (simp_all add: hash_ops_def am_lookup_delete am_lookup_poke)

interpretation iter_model: bpf_iter "hash_ops :: (('k, 'v) amap, 'k, 'v) map_ops"
  "\<lambda>m. next_in (map fst (am_entries m))" "\<lambda>m. map fst (am_entries m)"
  "\<lambda>m. distinct (map fst (am_entries m))"
  by unfold_locales
     (auto simp: hash_ops_def am_lookup_def am_delete_def delete_keys distinct_removeAll map_of_eq_None_iff)

text \<open>The executable hash map with \<open>n\<close> as its size is bounded by \<open>n\<close>.\<close>

definition amap_wf :: "nat \<Rightarrow> ('k, 'v) amap \<Rightarrow> bool" where
  "amap_wf n m \<longleftrightarrow> am_max m = n \<and> distinct (map fst (am_entries m))"

lemma amap_wf_empty [simp]: "amap_wf n (amap_empty n)"
  by (simp add: amap_wf_def amap_empty_def)

lemma am_lookup_empty [simp]: "am_lookup (amap_empty n) k = None"
  by (simp add: am_lookup_def amap_empty_def)

interpretation bounded_model: bpf_bounded "hash_ops :: (('k, 'v) amap, 'k, 'v) map_ops" n "amap_wf n"
proof
  fix m :: "('k, 'v) amap" and k v w f
  assume wf: "amap_wf n m"
  have dom: "dom (am_lookup m) = set (map fst (am_entries m))"
    by (simp add: am_lookup_def [abs_def] dom_map_of_conv_image_fst)
  then show "finite (dom (map_lookup hash_ops m))"
    by (simp add: hash_ops_def)
  show "fst (map_update hash_ops m k v f) = 0"
    if "map_lookup hash_ops m k = None" "card (dom (map_lookup hash_ops m)) < n"
    using that wf distinct_card [of "map fst (am_entries m)"] dom
    by (auto simp: hash_ops_def am_hash_update_def amap_wf_def)
  show "amap_wf n (snd (map_update hash_ops m k v f))"
    using wf by (auto simp: hash_ops_def am_hash_update_def amap_wf_def am_poke_def distinct_update
        am_lookup_def map_of_eq_None_iff split: option.split)
  show "amap_wf n (map_delete hash_ops m k)"
    using wf by (simp add: hash_ops_def am_delete_def amap_wf_def delete_keys distinct_removeAll)
  show "amap_wf n (map_poke hash_ops m k v)"
    using wf by (simp add: hash_ops_def am_poke_def amap_wf_def distinct_update)
qed

interpretation lru_model: bpf_lru "lru_ops :: (('k, 'v) amap, 'k, 'v) map_ops"
proof
  fix m m' :: "('k, 'v) amap" and k k' v w f r
  show "map_lookup lru_ops m' k = Some v" if "map_update lru_ops m k v f = (0, m')"
    using that
    by (auto simp: lru_ops_def am_lru_update_def am_lookup_poke split: option.splits if_splits)
       (auto simp: am_lookup_def)
  show "map_lookup lru_ops m k' = Some w"
    if "map_update lru_ops m k v f = (r, m')" "k' \<noteq> k \<or> r \<noteq> 0" "map_lookup lru_ops m' k' = Some w"
    using that
    by (auto simp: lru_ops_def am_lru_update_def am_lookup_poke split: option.splits if_splits)
       (auto simp: am_lookup_def dest: map_of_butlast split: if_splits)
  show "fst (map_update lru_ops m k v BPF_NOEXIST) \<noteq> 0" if "map_lookup lru_ops m k = Some w"
    using that by (simp add: lru_ops_def am_lru_update_def)
  show "fst (map_update lru_ops m k v BPF_ANY) = 0"
    by (simp add: lru_ops_def am_lru_update_def split: option.splits)
qed (simp_all add: lru_ops_def am_lookup_delete am_lookup_poke)

interpretation lru_insert_model: bpf_lru_insert "lru_ops :: (('k, 'v) amap, 'k, 'v) map_ops"
  by unfold_locales (auto simp: lru_ops_def am_lru_update_def split: option.splits)

section \<open>An executable array map\<close>

definition arr_lookup :: "nat \<Rightarrow> (u32 \<Rightarrow> 'v) \<Rightarrow> u32 \<Rightarrow> 'v option" where
  "arr_lookup n a k = (if unat k < n then Some (a k) else None)"

definition arr_poke :: "nat \<Rightarrow> (u32 \<Rightarrow> 'v) \<Rightarrow> u32 \<Rightarrow> 'v \<Rightarrow> (u32 \<Rightarrow> 'v)" where
  "arr_poke n a k v = (if unat k < n then a(k := v) else a)"

definition arr_update :: "nat \<Rightarrow> (u32 \<Rightarrow> 'v) \<Rightarrow> u32 \<Rightarrow> 'v \<Rightarrow> map_flag \<Rightarrow> int \<times> (u32 \<Rightarrow> 'v)" where
  "arr_update n a k v f =
     (if f = BPF_NOEXIST then (-17, a)
      else if unat k < n then (0, a(k := v)) else (-7, a))"

definition array_ops :: "nat \<Rightarrow> (u32 \<Rightarrow> 'v, u32, 'v) map_ops" where
  "array_ops n = \<lparr>map_lookup = arr_lookup n, map_update = arr_update n,
                  map_delete = (\<lambda>a k. a), map_poke = arr_poke n\<rparr>"

interpretation array_model: bpf_array "array_ops n :: (u32 \<Rightarrow> 'v, u32, 'v) map_ops" n
  by unfold_locales
     (auto simp: array_ops_def arr_lookup_def arr_poke_def fun_eq_iff split: if_splits)

end
