(* ===== verification/Bpf_Helpers.thy ===== *)
theory Bpf_Helpers
  imports Bpf_Prelude
begin

text \<open>
  The kernel helpers a program calls besides the map operations: the identity of the current
  task, the clock, the ring buffer and the reads of user memory.

  The identity and clock helpers return values the kernel chooses, so a program takes them as
  a record \<open>task_ctx\<close>. The ring buffer and the user-memory reads are records of operations,
  with what \<open>bpf-helpers(7)\<close> documents of them as the locales \<open>bpf_ringbuf\<close> and
  \<open>bpf_probe\<close>. A reserved slot comes with whatever bytes the ring held there before:
  \<open>bpf_ringbuf_reserve\<close> does not clear it, so a field a program does not write keeps stale
  contents in the record the consumer reads.
\<close>

section \<open>The current task\<close>

record task_ctx =
  t_pid_tgid :: u64
  t_uid_gid :: u64
  t_comm :: bytes
  t_ktime :: u64

text \<open>\<open>bpf_get_current_pid_tgid() >> 32\<close> and \<open>bpf_get_current_uid_gid() & 0xFFFFFFFF\<close>.\<close>

definition cur_pid :: "task_ctx \<Rightarrow> u32" where
  "cur_pid t = hi32 (t_pid_tgid t)"

definition cur_uid :: "task_ctx \<Rightarrow> u32" where
  "cur_uid t = lo32 (t_uid_gid t)"

definition mk_task :: "u32 \<Rightarrow> u32 \<Rightarrow> bytes \<Rightarrow> u64 \<Rightarrow> task_ctx" where
  "mk_task pid uid comm now =
     \<lparr>t_pid_tgid = push_bit 32 (ucast pid), t_uid_gid = ucast uid, t_comm = comm, t_ktime = now\<rparr>"

lemma hi32_push [simp]: "hi32 (push_bit 32 (ucast p)) = p"
  by (rule bit_word_eqI) (simp add: hi32_def bit_simps)

lemma lo32_ucast_ucast [simp]: "lo32 (ucast u) = u"
  by (rule bit_word_eqI) (simp add: lo32_ucast bit_simps)

lemma mk_task_simps [simp]:
  "cur_pid (mk_task p u c n) = p"
  "cur_uid (mk_task p u c n) = u"
  "t_comm (mk_task p u c n) = c"
  "t_ktime (mk_task p u c n) = n"
  by (simp_all add: cur_pid_def cur_uid_def mk_task_def)

section \<open>The ring buffer\<close>

record ('r, 'e) ring_ops =
  rb_reserve :: "'r \<Rightarrow> ('r \<times> 'e) option"
  rb_submit :: "'r \<Rightarrow> 'e \<Rightarrow> 'r"
  rb_discard :: "'r \<Rightarrow> 'r"
  rb_records :: "'r \<Rightarrow> 'e list"

text \<open>
  \<open>rb_records\<close> is what the consumer will be handed, oldest first. Reserving makes nothing
  visible, submitting appends the record, discarding appends nothing.
\<close>

locale bpf_ringbuf =
  fixes ring :: "('r, 'e) ring_ops"
  assumes reserve_records: "rb_reserve ring r = Some (r', e) \<Longrightarrow> rb_records ring r' = rb_records ring r"
    and submit_records: "rb_records ring (rb_submit ring r e) = rb_records ring r @ [e]"
    and discard_records: "rb_records ring (rb_discard ring r) = rb_records ring r"
begin

lemma reserve_submit [simp]:
  "rb_reserve ring r = Some (r', slot) \<Longrightarrow>
   rb_records ring (rb_submit ring r' e) = rb_records ring r @ [e]"
  by (simp add: submit_records reserve_records)

lemma reserve_discard [simp]:
  "rb_reserve ring r = Some (r', slot) \<Longrightarrow>
   rb_records ring (rb_discard ring r') = rb_records ring r"
  by (simp add: discard_records reserve_records)

end

text \<open>A ring that will take \<open>n\<close> more records, whatever they are.\<close>

fun rb_takes :: "('r, 'e) ring_ops \<Rightarrow> nat \<Rightarrow> 'r \<Rightarrow> bool" where
  "rb_takes ring 0 r \<longleftrightarrow> True"
| "rb_takes ring (Suc n) r \<longleftrightarrow>
     (case rb_reserve ring r of
        None \<Rightarrow> False
      | Some (r', slot) \<Rightarrow> (\<forall>e. rb_takes ring n (rb_submit ring r' e)))"

lemma rb_takes_le: "rb_takes ring n r \<Longrightarrow> k \<le> n \<Longrightarrow> rb_takes ring k r"
proof (induction n arbitrary: k r)
  case (Suc n)
  then show ?case by (cases k) (auto split: option.splits)
qed simp

text \<open>An executable ring: room for a number of records, and the bytes a fresh slot holds.\<close>

record 'e ring =
  rg_room :: nat
  rg_stale :: 'e
  rg_log :: "'e list"

definition rg_reserve :: "'e ring \<Rightarrow> ('e ring \<times> 'e) option" where
  "rg_reserve r = (if rg_room r = 0 then None else Some (r\<lparr>rg_room := rg_room r - 1\<rparr>, rg_stale r))"

definition rg_submit :: "'e ring \<Rightarrow> 'e \<Rightarrow> 'e ring" where
  "rg_submit r e = r\<lparr>rg_log := rg_log r @ [e]\<rparr>"

definition list_ring :: "('e ring, 'e) ring_ops" where
  "list_ring = \<lparr>rb_reserve = rg_reserve, rb_submit = rg_submit, rb_discard = id, rb_records = rg_log\<rparr>"

lemmas list_ring_defs [helper_defs] = list_ring_def rg_reserve_def rg_submit_def

interpretation ring_model: bpf_ringbuf "list_ring :: ('e ring, 'e) ring_ops"
  by unfold_locales (auto simp: list_ring_defs split: if_splits)

lemma list_ring_takes: "n \<le> rg_room r \<Longrightarrow> rb_takes list_ring n r"
proof (induction n arbitrary: r)
  case (Suc n)
  then show ?case by (auto simp: list_ring_defs)
qed simp

section \<open>Reads of user memory\<close>

record probe_ops =
  probe_read_user :: "u64 \<Rightarrow> bytes \<Rightarrow> int \<times> bytes"
  probe_read_user_str :: "u64 \<Rightarrow> bytes \<Rightarrow> int \<times> bytes"

text \<open>The \<open>n\<close> bytes of an address space from an address on, if all of them are mapped.\<close>

fun mem_bytes :: "(u64 \<Rightarrow> u8 option) \<Rightarrow> u64 \<Rightarrow> nat \<Rightarrow> bytes option" where
  "mem_bytes mem p 0 = Some []"
| "mem_bytes mem p (Suc n) =
     (case mem p of None \<Rightarrow> None | Some b \<Rightarrow> map_option ((#) b) (mem_bytes mem (p + 1) n))"

lemma mem_bytes_take: "mem_bytes mem p n = Some bs \<Longrightarrow> k \<le> n \<Longrightarrow> mem_bytes mem p k = Some (take k bs)"
proof (induction n arbitrary: p bs k)
  case (Suc n)
  then show ?case by (cases k) (auto split: option.splits)
qed simp

text \<open>
  The second argument of a read is the destination array before the call, whose length is the
  \<open>size\<close> argument. A string read stops at the NUL, counts it, and leaves the rest of the
  destination alone; a longer string is cut to \<open>size - 1\<close> bytes and a NUL.
\<close>

locale bpf_probe =
  fixes probe :: probe_ops and mem :: "u64 \<Rightarrow> u8 option"
  assumes read_length: "length (snd (probe_read_user probe p dst)) = length dst"
    and read_str_length: "length (snd (probe_read_user_str probe p dst)) = length dst"
    and read_ok: "mem_bytes mem p (length dst) = Some bs \<Longrightarrow> probe_read_user probe p dst = (0, bs)"
    and read_str_ok:
      "mem_bytes mem p (Suc (length s)) = Some (s @ [0]) \<Longrightarrow> 0 \<notin> set s \<Longrightarrow> length s < length dst \<Longrightarrow>
       probe_read_user_str probe p dst = (int (Suc (length s)), mem_write 0 (s @ [0]) dst)"
    and read_str_cut:
      "mem_bytes mem p (length dst) = Some (s @ t) \<Longrightarrow> 0 \<notin> set s \<Longrightarrow> Suc (length s) = length dst \<Longrightarrow>
       probe_read_user_str probe p dst = (int (length dst), s @ [0])"
begin

text \<open>Whatever the string, what lands in the array reads back as its first bytes.\<close>

lemma read_str_c_str:
  assumes "mem_bytes mem p (Suc (length s)) = Some (s @ [0])" "0 \<notin> set s" "length s < length dst"
  shows "c_str (snd (probe_read_user_str probe p dst)) = s"
  using read_str_ok [OF assms] assms(2) by (simp add: mem_write_def)

lemma read_str_prefix:
  assumes mem: "mem_bytes mem p (Suc (length s)) = Some (s @ [0])" and s: "0 \<notin> set s" and dst: "dst \<noteq> []"
  shows "probe_read_user_str probe p dst =
      (int (min (Suc (length s)) (length dst)), mem_write 0 (take (length dst - 1) s @ [0]) dst) \<and>
    c_str (snd (probe_read_user_str probe p dst)) = take (length dst - 1) s"
proof (cases "length s < length dst")
  case True
  with read_str_ok [OF mem s] read_str_c_str [OF mem s] show ?thesis by simp
next
  case False
  let ?k = "length dst - 1"
  have k: "Suc (length (take ?k s)) = length dst" and "length dst \<le> length s"
    using False dst by (cases dst; simp)+
  then have "mem_bytes mem p (length dst) = Some (take ?k s @ [s ! ?k])"
    using mem_bytes_take [OF mem, of "length dst"] dst
    by (cases dst) (simp_all add: take_Suc_conv_app_nth)
  moreover have z: "0 \<notin> set (take ?k s)"
    using s by (meson in_set_takeD)
  ultimately have read: "probe_read_user_str probe p dst = (int (length dst), take ?k s @ [0])"
    using read_str_cut [OF _ _ k] by blast
  have "length (take ?k s @ [0]) = length dst"
    using k by simp
  with read z False show ?thesis
    by (simp add: min_def)
qed

end

text \<open>
  A read that meets a byte which is not mapped fails as a whole: the result is negative and the
  destination is cleared.
\<close>

locale bpf_probe_faults = bpf_probe probe mem for probe mem +
  assumes read_fault: "mem_bytes mem p (length dst) = None \<Longrightarrow>
    fst (probe_read_user probe p dst) < 0 \<and> snd (probe_read_user probe p dst) = replicate (length dst) 0"

text \<open>An executable reader over an address space.\<close>

fun user_str :: "(u64 \<Rightarrow> u8 option) \<Rightarrow> u64 \<Rightarrow> nat \<Rightarrow> bytes option" where
  "user_str mem p 0 = Some []"
| "user_str mem p (Suc n) =
     (case mem p of
        None \<Rightarrow> None
      | Some b \<Rightarrow> if b = 0 then Some [0] else map_option ((#) b) (user_str mem (p + 1) n))"

definition mem_read :: "(u64 \<Rightarrow> u8 option) \<Rightarrow> u64 \<Rightarrow> bytes \<Rightarrow> int \<times> bytes" where
  "mem_read mem p dst =
     (case mem_bytes mem p (length dst) of
        None \<Rightarrow> (-14, replicate (length dst) 0)
      | Some bs \<Rightarrow> (0, bs))"

definition mem_read_str :: "(u64 \<Rightarrow> u8 option) \<Rightarrow> u64 \<Rightarrow> bytes \<Rightarrow> int \<times> bytes" where
  "mem_read_str mem p dst =
     (case user_str mem p (length dst) of
        None \<Rightarrow> (-14, replicate (length dst) 0)
      | Some bs \<Rightarrow>
          (int (length bs),
           mem_write 0 (if bs \<noteq> [] \<and> last bs \<noteq> 0 then butlast bs @ [0] else bs) dst))"

definition mem_probe :: "(u64 \<Rightarrow> u8 option) \<Rightarrow> probe_ops" where
  "mem_probe mem = \<lparr>probe_read_user = mem_read mem, probe_read_user_str = mem_read_str mem\<rparr>"

lemma length_mem_bytes: "mem_bytes mem p n = Some bs \<Longrightarrow> length bs = n"
  by (induction n arbitrary: p bs) (auto split: option.splits)

lemma length_user_str: "user_str mem p n = Some bs \<Longrightarrow> length bs \<le> n"
  by (induction n arbitrary: p bs) (auto split: option.splits if_splits)

lemma user_str_short:
  "mem_bytes mem p (Suc (length s)) = Some (s @ [0]) \<Longrightarrow> 0 \<notin> set s \<Longrightarrow> length s < n \<Longrightarrow>
   user_str mem p n = Some (s @ [0])"
proof (induction s arbitrary: p n)
  case Nil
  then show ?case by (cases n) (auto split: option.splits)
next
  case (Cons b s)
  then obtain k where k: "n = Suc k" by (cases n) auto
  from Cons.prems have "mem p = Some b" "mem_bytes mem (p + 1) (Suc (length s)) = Some (s @ [0])"
    by (auto split: option.splits)
  with Cons.IH [of "p + 1" k] Cons.prems k show ?case by simp
qed

lemma user_str_cut:
  "mem_bytes mem p (Suc (length s)) = Some (s @ t) \<Longrightarrow> 0 \<notin> set s \<Longrightarrow>
   user_str mem p (Suc (length s)) = Some (s @ t)"
proof (induction s arbitrary: p)
  case Nil
  then show ?case by (auto split: option.splits)
next
  case (Cons b s)
  from Cons.prems have "mem p = Some b" "mem_bytes mem (p + 1) (Suc (length s)) = Some (s @ t)"
    by (auto split: option.splits)
  with Cons.IH [of "p + 1"] Cons.prems(2) show ?case by simp
qed

lemma length_mem_read: "length (snd (mem_read mem p dst)) = length dst"
  by (auto simp: mem_read_def length_mem_bytes split: option.splits)

lemma length_mem_read_str: "length (snd (mem_read_str mem p dst)) = length dst"
proof (cases "user_str mem p (length dst)")
  case None
  then show ?thesis by (simp add: mem_read_str_def)
next
  case (Some bs)
  define x where "x = (if bs \<noteq> [] \<and> last bs \<noteq> 0 then butlast bs @ [0] else bs)"
  have "length x = length bs"
    by (cases bs) (auto simp: x_def)
  with length_user_str [OF Some] have "length (mem_write 0 x dst) = length dst"
    by simp
  with Some show ?thesis by (simp add: mem_read_str_def x_def)
qed

interpretation probe_model: bpf_probe "mem_probe mem" mem
proof
  fix p :: u64 and dst s t bs :: bytes
  show "length (snd (probe_read_user (mem_probe mem) p dst)) = length dst"
    by (simp add: mem_probe_def length_mem_read)
  show "length (snd (probe_read_user_str (mem_probe mem) p dst)) = length dst"
    by (simp add: mem_probe_def length_mem_read_str)
  show "probe_read_user (mem_probe mem) p dst = (0, bs)" if "mem_bytes mem p (length dst) = Some bs"
    using that by (simp add: mem_probe_def mem_read_def)
  show "probe_read_user_str (mem_probe mem) p dst = (int (Suc (length s)), mem_write 0 (s @ [0]) dst)"
    if "mem_bytes mem p (Suc (length s)) = Some (s @ [0])" "0 \<notin> set s" "length s < length dst"
    using user_str_short [OF that] by (simp add: mem_probe_def mem_read_str_def)
  show "probe_read_user_str (mem_probe mem) p dst = (int (length dst), s @ [0])"
    if prems: "mem_bytes mem p (length dst) = Some (s @ t)" "0 \<notin> set s" "Suc (length s) = length dst"
  proof -
    have "length (s @ t) = length dst"
      using prems(1) by (rule length_mem_bytes)
    then have "length t = Suc 0"
      using prems(3) by simp
    then obtain b where t: "t = [b]"
      by (auto simp: length_Suc_conv)
    have "user_str mem p (length dst) = Some (s @ t)"
      using prems user_str_cut [of mem p s t] by simp
    with prems(3) t show ?thesis
      by (simp add: mem_probe_def mem_read_str_def)
  qed
qed

interpretation probe_fault_model: bpf_probe_faults "mem_probe mem" mem
  by unfold_locales (simp add: mem_probe_def mem_read_def)

end
