(* ===== verification/Bcc_Counts.thy ===== *)
theory Bcc_Counts
  imports Bpf_Maps Bpf_Helpers "HOL-Library.Multiset" "HOL-Library.Product_Lexorder"
begin

text \<open>
  01-hello-world, 02-maps and 24-pythonbpf: the first program, and the two that count execve
  calls in a hash map. Both counters look the key up, add one to what they read and write the sum
  back with an unconditional update. \<open>rmw_step\<close> cuts that at the two accesses to the map, the
  read and the write-back, so that other CPUs can come between; the read through the pointer is
  taken together with the lookup that returned it.

  For every interleaving the counter of a key never exceeds the number of its calls, and it is equal to
  it exactly when no two calls of the key overlapped. How much an overlap costs is
  not bounded by the number of CPUs, unlike in 16-bpftool: a CPU that stalls between its
  read and its write undoes all the calls made in the meantime.

  \<open>bpf_trace_printk\<close>, the walk over a map from Python and the password database are parameters.
\<close>

section \<open>01-hello-world\<close>

definition hello1 :: "('b \<Rightarrow> string \<Rightarrow> 'b) \<Rightarrow> 'b \<Rightarrow> int \<times> 'b" where
  "hello1 trace_printk buf = (0, trace_printk buf ''Hello World!'')"

section \<open>02-maps\<close>

text \<open>The value written back: one more than what the pointer shows, or one when it is null.\<close>

definition bump_uid :: "u64 option \<Rightarrow> u64" where
  "bump_uid p = (let counter = 0; counter = (case p of None \<Rightarrow> counter | Some n \<Rightarrow> n) in counter + 1)"

definition uid_key :: "task_ctx \<Rightarrow> u64" where
  "uid_key t = t_uid_gid t AND 0xFFFFFFFF"

definition hello2 :: "('m, u64, u64) map_ops \<Rightarrow> task_ctx \<Rightarrow> 'm \<Rightarrow> int \<times> 'm" where
  "hello2 ops t m =
     (let uid = uid_key t; p = map_lookup ops m uid; counter = bump_uid p
      in (0, snd (map_update ops m uid counter BPF_ANY)))"

text \<open>\<open>BPF_HASH\<close> without a size declares 10240 entries.\<close>

definition counter_table :: "(u64, u64) amap" where
  "counter_table = amap_empty 10240"

definition uid_name :: "(u64 \<Rightarrow> string option) \<Rightarrow> u64 \<Rightarrow> string" where
  "uid_name getpwuid uid = (case getpwuid uid of Some name \<Rightarrow> name | None \<Rightarrow> ''?'')"

fun py_join :: "string \<Rightarrow> string list \<Rightarrow> string" where
  "py_join sep [] = ''''"
| "py_join sep [s] = s"
| "py_join sep (s # ss) = s @ sep @ py_join sep ss"

definition uid_line :: "(u64 \<Rightarrow> string option) \<Rightarrow> (u64 \<times> u64) list \<Rightarrow> string" where
  "uid_line getpwuid items =
     (let line = py_join ''  ''
            (map (\<lambda>(k, v). ''uid '' @ c_dec (unat k) @ '' ('' @ uid_name getpwuid k @ ''): '' @ c_dec (unat v)) items)
      in if line \<noteq> '''' then line else ''(no execve calls seen yet)'')"

section \<open>24-pythonbpf\<close>

definition bump_pid :: "u64 option \<Rightarrow> u64" where
  "bump_pid prev = (case prev of Some n \<Rightarrow> n + 1 | None \<Rightarrow> 1)"

definition count_exec :: "('m, u32, u64) map_ops \<Rightarrow> task_ctx \<Rightarrow> 'm \<Rightarrow> int \<times> 'm" where
  "count_exec ops t m =
     (let process_id = cur_pid t; prev = map_lookup ops m process_id
      in (0, snd (map_update ops m process_id (bump_pid prev) BPF_ANY)))"

definition counts_map :: "(u32, u64) amap" where
  "counts_map = amap_empty 4096"

text \<open>Keys are of type \<open>c_int32\<close>, so the table is sorted by the signed reading of them.\<close>

definition pid_report :: "(u32 \<times> u64) list \<Rightarrow> (int \<times> int) list" where
  "pid_report items = sort (map (\<lambda>(k, v). (sint k, uint v)) items)"

section \<open>The two accesses to the map\<close>

text \<open>A CPU is between calls, or has read and is about to write a value for its key.\<close>

datatype 'k rmw_cpu = Between | Holding 'k u64

record ('m, 'k) rmw_state =
  rw_map :: 'm
  rw_cpus :: "'k rmw_cpu list"

datatype 'k rmw_label = Read nat 'k | Write nat 'k

inductive rmw_step ::
  "('m, 'k, u64) map_ops \<Rightarrow> (u64 option \<Rightarrow> u64) \<Rightarrow> ('m, 'k) rmw_state \<Rightarrow> 'k rmw_label \<Rightarrow> ('m, 'k) rmw_state \<Rightarrow> bool"
  for ops bump where
  fetch: "i < length (rw_cpus s) \<Longrightarrow> rw_cpus s ! i = Between \<Longrightarrow>
    rmw_step ops bump s (Read i k)
      (s\<lparr>rw_cpus := (rw_cpus s)[i := Holding k (bump (map_lookup ops (rw_map s) k))]\<rparr>)"
| store: "i < length (rw_cpus s) \<Longrightarrow> rw_cpus s ! i = Holding k v \<Longrightarrow>
    rmw_step ops bump s (Write i k)
      (s\<lparr>rw_map := snd (map_update ops (rw_map s) k v BPF_ANY), rw_cpus := (rw_cpus s)[i := Between]\<rparr>)"

inductive rmw_trace ::
  "('m, 'k, u64) map_ops \<Rightarrow> (u64 option \<Rightarrow> u64) \<Rightarrow> ('m, 'k) rmw_state \<Rightarrow> 'k rmw_label list \<Rightarrow> ('m, 'k) rmw_state \<Rightarrow> bool"
  for ops bump s where
  nil: "rmw_trace ops bump s [] s"
| snoc: "rmw_trace ops bump s tr s1 \<Longrightarrow> rmw_step ops bump s1 l s2 \<Longrightarrow> rmw_trace ops bump s (tr @ [l]) s2"

definition reads :: "'k rmw_label list \<Rightarrow> 'k \<Rightarrow> nat" where
  "reads tr k = length (filter (\<lambda>l. case l of Read i k' \<Rightarrow> k' = k | _ \<Rightarrow> False) tr)"

definition writes :: "'k rmw_label list \<Rightarrow> 'k \<Rightarrow> nat" where
  "writes tr k = length (filter (\<lambda>l. case l of Write i k' \<Rightarrow> k' = k | _ \<Rightarrow> False) tr)"

text \<open>Two calls of a key overlap when at some moment two more have read than written.\<close>

definition overlaps :: "'k rmw_label list \<Rightarrow> 'k \<Rightarrow> bool" where
  "overlaps tr k \<longleftrightarrow> (\<exists>j \<le> length tr. writes (take j tr) k + 2 \<le> reads (take j tr) k)"

definition read_keys :: "'k rmw_label list \<Rightarrow> 'k set" where
  "read_keys tr = {k. 0 < reads tr k}"

definition count_of :: "('m, 'k, u64) map_ops \<Rightarrow> 'm \<Rightarrow> 'k \<Rightarrow> nat" where
  "count_of ops m k = (case map_lookup ops m k of None \<Rightarrow> 0 | Some n \<Rightarrow> unat n)"

lemma label_counts_snoc [simp]:
  "reads (tr @ [Read i k']) k = reads tr k + (if k' = k then 1 else 0)"
  "reads (tr @ [Write i k']) k = reads tr k"
  "writes (tr @ [Read i k']) k = writes tr k"
  "writes (tr @ [Write i k']) k = writes tr k + (if k' = k then 1 else 0)"
  by (simp_all add: reads_def writes_def)

lemma label_counts_Nil [simp]: "reads [] k = 0" "writes [] k = 0" "\<not> overlaps [] k"
  by (simp_all add: reads_def writes_def overlaps_def)

lemma overlaps_snoc:
  "overlaps (tr @ [l]) k \<longleftrightarrow> overlaps tr k \<or> writes (tr @ [l]) k + 2 \<le> reads (tr @ [l]) k"
  by (auto simp: overlaps_def le_Suc_eq)

lemma reads_mono: "reads tr k \<le> reads (tr @ [l]) k"
  by (cases l) simp_all

lemma read_keys_snoc: "read_keys tr \<subseteq> read_keys (tr @ [l])"
  using reads_mono [of tr _ l] by (auto simp: read_keys_def intro: less_le_trans)

section \<open>The arithmetic of lost updates\<close>

text \<open>
  \<open>c\<close> is the counter, \<open>w\<close> the number of writes so far, \<open>H\<close> the values about to be written, and
  \<open>ov\<close> whether calls have overlapped. Without overlap, the value held is the next number. After
  one, either an update is already lost, or one that will be is still held.
\<close>

definition rmw_tally :: "bool \<Rightarrow> nat \<Rightarrow> nat \<Rightarrow> nat multiset \<Rightarrow> bool" where
  "rmw_tally ov c w H \<longleftrightarrow>
     c \<le> w \<and> (0 < w \<longrightarrow> 0 < c) \<and> (\<forall>v \<in># H. 0 < v \<and> v \<le> Suc w) \<and>
     (if ov then (c < w \<or> H \<noteq> {#}) \<and> (\<forall>v \<in># H. v \<le> w) \<or> 2 \<le> size H
      else c = w \<and> (H = {#} \<or> H = {#Suc w#}))"

lemma rmw_tally_init: "rmw_tally False 0 0 {#}"
  by (simp add: rmw_tally_def)

lemma rmw_tally_read: "rmw_tally ov c w H \<Longrightarrow> rmw_tally (ov \<or> H \<noteq> {#}) c w (add_mset (Suc c) H)"
  by (auto simp: rmw_tally_def Suc_le_eq nonempty_has_size split: if_splits)

lemma rmw_tally_write: "rmw_tally ov c w (add_mset v H) \<Longrightarrow> rmw_tally ov v (Suc w) H"
  by (auto simp: rmw_tally_def nonempty_has_size split: if_splits)

lemma rmw_tally_keep: "rmw_tally ov c w H \<Longrightarrow> rmw_tally (ov \<or> Suc 0 < size H) c w H"
  by (auto simp: rmw_tally_def split: if_splits)

lemma rmw_tally_done: "rmw_tally ov c w {#} \<Longrightarrow> c \<le> w \<and> (0 < w \<longrightarrow> 0 < c) \<and> (c = w \<longleftrightarrow> \<not> ov)"
  by (auto simp: rmw_tally_def split: if_splits)

text \<open>The values the CPUs hold for a key.\<close>

definition holdings :: "'k rmw_cpu list \<Rightarrow> 'k \<Rightarrow> nat multiset" where
  "holdings cpus k = (\<Sum>c \<leftarrow> cpus. case c of Holding k' v \<Rightarrow> if k' = k then {#unat v#} else {#} | Between \<Rightarrow> {#})"

lemma update_split:
  assumes "i < length cpus"
  obtains as bs where "cpus = as @ cpus ! i # bs" "\<And>c. cpus[i := c] = as @ c # bs"
  using assms id_take_nth_drop upd_conv_take_nth_drop by metis

lemma holdings_read:
  assumes "i < length cpus" "cpus ! i = Between"
  shows "holdings (cpus[i := Holding k' v]) k = (if k' = k then add_mset (unat v) (holdings cpus k) else holdings cpus k)"
  using assms by (elim update_split) (auto simp: holdings_def)

lemma holdings_write:
  assumes "i < length cpus" "cpus ! i = Holding k' v"
  shows "holdings cpus k =
    (if k' = k then add_mset (unat v) (holdings (cpus[i := Between]) k) else holdings (cpus[i := Between]) k)"
  using assms by (elim update_split) (auto simp: holdings_def)

lemma holdings_idle [simp]: "holdings (replicate n Between) k = {#}"
  by (induction n) (simp_all add: holdings_def)

section \<open>The counter of a read-modify-write program\<close>

text \<open>What the two programs have in common: one more than the value read, on a bounded hash map.\<close>

locale rmw_counter = bounded: bpf_bounded ops cap wf_map
  for ops :: "('m, 'k, u64) map_ops" and cap wf_map +
  fixes bump :: "u64 option \<Rightarrow> u64"
  assumes bump_None: "bump None = 1" and bump_Some: "bump (Some n) = n + 1"
begin

lemma unat_bump:
  assumes "Suc (count_of ops m k) < 2 ^ 64"
  shows "unat (bump (map_lookup ops m k)) = Suc (count_of ops m k)"
proof (cases "map_lookup ops m k")
  case (Some n)
  with assms have "Suc (unat n) < 2 ^ LENGTH(64)"
    by (simp add: count_of_def)
  with Some show ?thesis
    by (simp add: count_of_def bump_Some unat_word_ariths)
qed (simp add: count_of_def bump_None)

definition room :: "'k set \<Rightarrow> ('m, 'k) rmw_state \<Rightarrow> bool" where
  "room K s \<longleftrightarrow> wf_map (rw_map s) \<and> dom (map_lookup ops (rw_map s)) \<subseteq> K \<and>
     (\<forall>k v. Holding k v \<in> set (rw_cpus s) \<longrightarrow> k \<in> K)"

lemma store_lookup:
  assumes "room K s" "finite K" "card K \<le> cap" "Holding k v \<in> set (rw_cpus s)"
  shows "map_lookup ops (snd (map_update ops (rw_map s) k v BPF_ANY)) = (map_lookup ops (rw_map s))(k \<mapsto> v)"
  using assms bounded.bounded_any [of "rw_map s" K k v] by (auto simp: room_def)

lemma room_step:
  assumes "rmw_step ops bump s l s'" "room K s" "finite K" "card K \<le> cap" "\<And>i k. l = Read i k \<Longrightarrow> k \<in> K"
  shows "room K s'"
  using assms(1)
proof (cases rule: rmw_step.cases)
  case (fetch i k)
  with assms(2,5) show ?thesis
    by (auto simp: room_def dest!: set_update_subset_insert [THEN subsetD])
next
  case (store i k v)
  then have k: "Holding k v \<in> set (rw_cpus s)"
    by (metis nth_mem)
  with store assms(2) store_lookup [OF assms(2-4) k] show ?thesis
    by (auto simp: room_def bounded.bounded_update_wf dest!: set_update_subset_insert [THEN subsetD])
qed

definition tallied :: "'k \<Rightarrow> 'k rmw_label list \<Rightarrow> ('m, 'k) rmw_state \<Rightarrow> bool" where
  "tallied k tr s \<longleftrightarrow>
     reads tr k = writes tr k + size (holdings (rw_cpus s) k) \<and>
     rmw_tally (overlaps tr k) (count_of ops (rw_map s) k) (writes tr k) (holdings (rw_cpus s) k)"

lemma tallied_step:
  assumes "rmw_step ops bump s l s'" "room K s" "finite K" "card K \<le> cap" "tallied k tr s"
    and "reads (tr @ [l]) k < 2 ^ 64"
  shows "tallied k (tr @ [l]) s'"
  using assms(1)
proof (cases rule: rmw_step.cases)
  case (fetch i k')
  note H = holdings_read [OF fetch(3,4), of k' _ k]
  have "count_of ops (rw_map s) k \<le> writes tr k"
    using assms(5) by (simp add: tallied_def rmw_tally_def)
  then have "unat (bump (map_lookup ops (rw_map s) k)) = Suc (count_of ops (rw_map s) k)" if "k' = k"
    using assms(5,6) that fetch(1) by (intro unat_bump) (simp add: tallied_def)
  with assms(5) fetch(1,2) rmw_tally_read rmw_tally_keep show ?thesis
    by (auto simp: tallied_def H overlaps_snoc nonempty_has_size Suc_le_eq)
next
  case (store i k' v)
  note H = holdings_write [OF store(3,4), of k]
  have "Holding k' v \<in> set (rw_cpus s)"
    using store(3,4) by (metis nth_mem)
  then have "count_of ops (rw_map s') k = (if k' = k then unat v else count_of ops (rw_map s) k)"
    using store_lookup [OF assms(2-4)] store(2) by (simp add: count_of_def)
  with assms(5) store(1,2) rmw_tally_keep [OF rmw_tally_write] rmw_tally_keep show ?thesis
    by (auto simp: tallied_def H overlaps_snoc Suc_le_eq)
qed

lemma trace_tallied:
  assumes "rmw_trace ops bump \<lparr>rw_map = m, rw_cpus = replicate n Between\<rparr> tr s"
    and "wf_map m" "\<And>k. map_lookup ops m k = None" "finite K" "card K \<le> cap"
  shows "read_keys tr \<subseteq> K \<Longrightarrow> reads tr k < 2 ^ 64 \<Longrightarrow> room K s \<and> tallied k tr s"
  using assms(1)
proof (induction rule: rmw_trace.induct)
  case nil
  show ?case using assms(2,3) rmw_tally_init by (auto simp: room_def tallied_def count_of_def domIff)
next
  case (snoc tr s1 l s2)
  have "k' \<in> K" if "l = Read i k'" for i k'
    using snoc.prems(1) that by (auto simp: read_keys_def)
  moreover have "room K s1 \<and> tallied k tr s1"
    using snoc.prems read_keys_snoc [of tr l] reads_mono [of tr k l] by (intro snoc.IH) auto
  ultimately show ?case
    using room_step [OF snoc.hyps(2) _ assms(4,5)] tallied_step [OF snoc.hyps(2) _ assms(4,5) _ snoc.prems(2)] by blast
qed

lemma finite_read_keys: "finite (read_keys tr)"
proof (rule finite_subset)
  show "read_keys tr \<subseteq> (\<lambda>l. case l of Read i k \<Rightarrow> k | Write i k \<Rightarrow> k) ` set tr"
  proof
    fix k assume "k \<in> read_keys tr"
    then obtain l where "l \<in> set tr" "case l of Read i k' \<Rightarrow> k' = k | _ \<Rightarrow> False"
      by (auto simp: read_keys_def reads_def filter_empty_conv)
    then show "k \<in> (\<lambda>l. case l of Read i k \<Rightarrow> k | Write i k \<Rightarrow> k) ` set tr"
      by (auto split: rmw_label.splits intro!: rev_image_eqI)
  qed
qed simp

lemma counter_exact_iff:
  assumes "wf_map m" "\<And>k. map_lookup ops m k = None"
    and "rmw_trace ops bump \<lparr>rw_map = m, rw_cpus = replicate n Between\<rparr> tr s" "rw_cpus s = replicate n Between"
    and "card (read_keys tr) \<le> cap" "reads tr k < 2 ^ 64"
  shows "count_of ops (rw_map s) k \<le> reads tr k \<and> (0 < reads tr k \<longrightarrow> 0 < count_of ops (rw_map s) k) \<and>
    (count_of ops (rw_map s) k = reads tr k \<longleftrightarrow> \<not> overlaps tr k)"
  using trace_tallied [OF assms(3,1,2) finite_read_keys assms(5) order_refl assms(6)] assms(4) rmw_tally_done
  by (auto simp: tallied_def)

text \<open>A call with nothing in between: the update of the program with the value it read.\<close>

lemma solo_call:
  assumes "i < length (rw_cpus s)" "rw_cpus s ! i = Between"
  shows "rmw_trace ops bump s [Read i k, Write i k]
    (s\<lparr>rw_map := snd (map_update ops (rw_map s) k (bump (map_lookup ops (rw_map s) k)) BPF_ANY)\<rparr>)"
proof -
  let ?s1 = "s\<lparr>rw_cpus := (rw_cpus s)[i := Holding k (bump (map_lookup ops (rw_map s) k))]\<rparr>"
  have "rmw_trace ops bump s [Read i k] ?s1"
    using rmw_trace.snoc [OF rmw_trace.nil rmw_step.fetch [OF assms]] by simp
  moreover have "(rw_cpus s)[i := Between] = rw_cpus s"
    using assms by (metis list_update_id)
  ultimately show ?thesis
    using assms rmw_trace.snoc [OF _ rmw_step.store [of i ?s1 k]] by fastforce
qed

end

lemma rmw_trace_append:
  assumes "rmw_trace ops bump s1 tr2 s2" "rmw_trace ops bump s tr1 s1"
  shows "rmw_trace ops bump s (tr1 @ tr2) s2"
  using assms by (induction rule: rmw_trace.induct) (auto intro: rmw_trace.snoc simp flip: append_assoc)

text \<open>CPU \<open>i\<close> reads, CPU \<open>j\<close> makes \<open>n\<close> calls, and CPU \<open>i\<close> writes.\<close>

definition solo_calls :: "nat \<Rightarrow> nat \<Rightarrow> 'k \<Rightarrow> 'k rmw_label list" where
  "solo_calls n j k = concat (replicate n [Read j k, Write j k])"

definition stall :: "nat \<Rightarrow> nat \<Rightarrow> nat \<Rightarrow> 'k \<Rightarrow> 'k rmw_label list" where
  "stall n i j k = Read i k # solo_calls n j k @ [Write i k]"

lemma reads_solo: "reads (solo_calls n j k) k = n"
  by (induction n) (simp_all add: reads_def solo_calls_def)

lemma reads_stall [simp]: "reads (stall n i j k) k = Suc n"
  using reads_solo [of n j k] by (simp add: reads_def stall_def)

context rmw_counter
begin

lemma solo_calls_trace:
  assumes "room K s" "finite K" "card K \<le> cap" "k \<in> K" "j < length (rw_cpus s)" "rw_cpus s ! j = Between"
  shows "\<exists>s'. rmw_trace ops bump s (solo_calls n j k) s' \<and> room K s' \<and> rw_cpus s' = rw_cpus s"
proof (induction n)
  case 0
  show ?case using assms(1) rmw_trace.nil by (auto simp: solo_calls_def)
next
  case (Suc n)
  then obtain s1 where s1: "rmw_trace ops bump s (solo_calls n j k) s1" "room K s1" "rw_cpus s1 = rw_cpus s"
    by blast
  let ?s2 = "s1\<lparr>rw_map := snd (map_update ops (rw_map s1) k (bump (map_lookup ops (rw_map s1) k)) BPF_ANY)\<rparr>"
  have "rmw_trace ops bump s1 [Read j k, Write j k] ?s2"
    using solo_call assms(5,6) s1(3) by simp
  then have "rmw_trace ops bump s (solo_calls (Suc n) j k) ?s2"
    using rmw_trace_append s1(1) by (fastforce simp: solo_calls_def simp flip: replicate_append_same)
  moreover have "room K ?s2"
    using s1(2) assms(2-4) bounded.bounded_any [of "rw_map s1" K k]
    by (auto simp: room_def bounded.bounded_update_wf)
  ultimately show ?case using s1(3) by auto
qed

lemma stall_trace:
  assumes "wf_map m" "\<And>k. map_lookup ops m k = None" "0 < cap"
  shows "\<exists>s. rmw_trace ops bump \<lparr>rw_map = m, rw_cpus = replicate 2 Between\<rparr> (stall n 0 1 k) s \<and>
    rw_cpus s = replicate 2 Between \<and> count_of ops (rw_map s) k = 1"
proof -
  let ?s0 = "\<lparr>rw_map = m, rw_cpus = replicate 2 Between\<rparr>"
  let ?s1 = "\<lparr>rw_map = m, rw_cpus = [Holding k 1, Between]\<rparr>"
  have "rmw_step ops bump ?s0 (Read 0 k) ?s1"
    using rmw_step.fetch [of 0 ?s0 ops bump k] assms(2) by (simp add: bump_None numeral_2_eq_2)
  then have 1: "rmw_trace ops bump ?s0 [Read 0 k] ?s1"
    using rmw_trace.snoc [OF rmw_trace.nil] by force
  have "room {k} ?s1"
    using assms(1,2) by (auto simp: room_def)
  then obtain s where s: "rmw_trace ops bump ?s1 (solo_calls n 1 k) s" "room {k} s" "rw_cpus s = [Holding k 1, Between]"
    using solo_calls_trace [of "{k}" ?s1 k 1 n] assms(3) by auto
  let ?s2 = "s\<lparr>rw_map := snd (map_update ops (rw_map s) k 1 BPF_ANY), rw_cpus := [Between, Between]\<rparr>"
  have "rmw_step ops bump s (Write 0 k) ?s2"
    using rmw_step.store [of 0 s k 1 ops bump] s(3) by simp
  then have "rmw_trace ops bump ?s0 (stall n 0 1 k) ?s2"
    using rmw_trace.snoc [OF rmw_trace_append [OF s(1) 1]] by (simp add: stall_def)
  moreover have "count_of ops (rw_map ?s2) k = 1"
    using store_lookup [OF s(2)] s(3) assms(3) by (simp add: count_of_def)
  ultimately show ?thesis
    by (intro exI [of _ ?s2]) (simp add: numeral_2_eq_2)
qed

text \<open>Calls one after the other.\<close>

lemma serial_counts:
  assumes "wf_map m" "\<And>k. map_lookup ops m k = None" "card (set ks) \<le> cap"
    and "\<And>k m. run k m = snd (map_update ops m k (bump (map_lookup ops m k)) BPF_ANY)"
  shows "wf_map (fold run ks m) \<and>
    map_lookup ops (fold run ks m) = (\<lambda>k. if k \<in> set ks then Some (of_nat (count_list ks k)) else None)"
  using assms(3)
proof (induction ks rule: rev_induct)
  case Nil
  show ?case using assms(1,2) by auto
next
  case (snoc k ks)
  have "card (set ks) \<le> cap"
    using snoc.prems card_mono [of "set (ks @ [k])" "set ks"] by fastforce
  with snoc.IH have IH: "wf_map (fold run ks m)"
    "map_lookup ops (fold run ks m) = (\<lambda>k. if k \<in> set ks then Some (of_nat (count_list ks k)) else None)"
    by auto
  have "map_lookup ops (run k (fold run ks m)) =
      (map_lookup ops (fold run ks m))(k \<mapsto> bump (map_lookup ops (fold run ks m) k))"
    unfolding assms(4) [of k "fold run ks m"]
    using snoc.prems by (intro bounded.bounded_any [of _ "set (ks @ [k])"]) (auto simp: IH split: if_splits)
  with IH show ?case
    by (auto simp: assms(4) [of k "fold run ks m"] bounded.bounded_update_wf bump_None bump_Some fun_eq_iff count_list_0_iff)
qed

end

section \<open>The programs as counters\<close>

interpretation uid_counter: rmw_counter "hash_ops :: ((u64, u64) amap, u64, u64) map_ops" n "amap_wf n" bump_uid
  by (intro rmw_counter.intro bounded_model.bpf_bounded_axioms rmw_counter_axioms.intro) (simp_all add: bump_uid_def)

interpretation pid_counter: rmw_counter "hash_ops :: ((u32, u64) amap, u32, u64) map_ops" n "amap_wf n" bump_pid
  by (intro rmw_counter.intro bounded_model.bpf_bounded_axioms rmw_counter_axioms.intro) (simp_all add: bump_pid_def)

lemma uid_rmw: "bpf_bounded ops cap wf_map \<Longrightarrow> rmw_counter ops cap wf_map bump_uid"
  by (intro rmw_counter.intro rmw_counter_axioms.intro) (simp_all add: bump_uid_def)

lemma pid_rmw: "bpf_bounded ops cap wf_map \<Longrightarrow> rmw_counter ops cap wf_map bump_pid"
  by (intro rmw_counter.intro rmw_counter_axioms.intro) (simp_all add: bump_pid_def)

text \<open>A call of either program that nothing interrupts is one read and one write.\<close>

lemma hello2_steps:
  assumes "bpf_bounded ops cap wf_map" "i < length (rw_cpus s)" "rw_cpus s ! i = Between"
  shows "rmw_trace ops bump_uid s [Read i (uid_key t), Write i (uid_key t)] (s\<lparr>rw_map := snd (hello2 ops t (rw_map s))\<rparr>)"
  using rmw_counter.solo_call [OF uid_rmw [OF assms(1)] assms(2,3), of "uid_key t"] by (simp add: hello2_def Let_def)

lemma count_exec_steps:
  assumes "bpf_bounded ops cap wf_map" "i < length (rw_cpus s)" "rw_cpus s ! i = Between"
  shows "rmw_trace ops bump_pid s [Read i (cur_pid t), Write i (cur_pid t)] (s\<lparr>rw_map := snd (count_exec ops t (rw_map s))\<rparr>)"
  using rmw_counter.solo_call [OF pid_rmw [OF assms(1)] assms(2,3), of "cur_pid t"] by (simp add: count_exec_def Let_def)

text \<open>
  C22. 02-maps on several CPUs, with no more users than the table has entries for: for every
  interleaving the counter of a user is at most the number of its execve calls, at least one if there
  was any, and it is exact if and only if no two calls of that user overlapped.
\<close>

theorem uid_count_exact_iff:
  assumes "bpf_bounded ops cap wf_map" "wf_map m" "\<And>k. map_lookup ops m k = None"
    and "rmw_trace ops bump_uid \<lparr>rw_map = m, rw_cpus = replicate n Between\<rparr> tr s" "rw_cpus s = replicate n Between"
    and "card (read_keys tr) \<le> cap" "reads tr uid < 2 ^ 64"
  shows "count_of ops (rw_map s) uid \<le> reads tr uid \<and> (0 < reads tr uid \<longrightarrow> 0 < count_of ops (rw_map s) uid) \<and>
    (count_of ops (rw_map s) uid = reads tr uid \<longleftrightarrow> \<not> overlaps tr uid)"
  using rmw_counter.counter_exact_iff [OF uid_rmw [OF assms(1)] assms(2-)] .

lemma read_keys_stall: "read_keys (stall n i j k) = {k}"
proof -
  have "reads (solo_calls n j k) k' = 0" if "k' \<noteq> k" for k'
    using that by (induction n) (simp_all add: reads_def solo_calls_def)
  then have "reads (stall n i j k) k' = 0" if "k' \<noteq> k" for k'
    using that by (simp add: reads_def stall_def)
  then show ?thesis by (metis (mono_tags, lifting) Collect_cong less_irrefl_nat reads_stall read_keys_def singleton_conv zero_less_Suc)
qed

theorem uid_count_exact_iff_witness:
  "\<exists>s. rmw_trace hash_ops bump_uid \<lparr>rw_map = counter_table, rw_cpus = replicate 2 Between\<rparr> (stall 2 0 1 7) s \<and>
     overlaps (stall 2 0 1 7) (7 :: u64) \<and> reads (stall 2 0 1 7) (7 :: u64) = 3 \<and>
     0 < count_of hash_ops (rw_map s) 7 \<and> count_of hash_ops (rw_map s) 7 < 3"
proof -
  have empty: "map_lookup hash_ops counter_table k = None" for k
    by (simp add: hash_ops_def counter_table_def)
  have wf: "amap_wf 10240 counter_table"
    by (simp add: counter_table_def)
  obtain s where s: "rmw_trace hash_ops bump_uid \<lparr>rw_map = counter_table, rw_cpus = replicate 2 Between\<rparr> (stall 2 0 1 7) s"
    "rw_cpus s = replicate 2 Between"
    using uid_counter.stall_trace [OF wf empty, of 2 7] by auto
  have over: "overlaps (stall 2 0 1 7) (7 :: u64)"
    by (simp add: overlaps_def stall_def solo_calls_def reads_def writes_def numeral_2_eq_2 exI [of _ "Suc (Suc 0)"])
  moreover have "0 < count_of hash_ops (rw_map s) 7 \<and> count_of hash_ops (rw_map s) 7 < 3"
    using uid_count_exact_iff [OF bounded_model.bpf_bounded_axioms wf empty s, of 7] over
    by (simp add: read_keys_stall)
  ultimately show ?thesis
    using s(1) by (intro exI [of _ s]) simp
qed

text \<open>
  What an overlap costs in 02-maps has no bound: for every \<open>n\<close> there is an interleaving on
  two CPUs of \<open>n + 1\<close> complete calls of a user after which its counter is 1.
\<close>

theorem uid_count_stall:
  assumes "bpf_bounded ops cap wf_map" "wf_map m" "\<And>k. map_lookup ops m k = None" "0 < cap"
  shows "\<exists>tr s. rmw_trace ops bump_uid \<lparr>rw_map = m, rw_cpus = replicate 2 Between\<rparr> tr s \<and>
    rw_cpus s = replicate 2 Between \<and> reads tr uid = n + 1 \<and> count_of ops (rw_map s) uid = 1"
proof -
  obtain s where s: "rmw_trace ops bump_uid \<lparr>rw_map = m, rw_cpus = replicate 2 Between\<rparr> (stall n 0 1 uid) s"
    "rw_cpus s = replicate 2 Between" "count_of ops (rw_map s) uid = 1"
    using rmw_counter.stall_trace [OF uid_rmw [OF assms(1)] assms(2-4)] by blast
  show ?thesis
    by (rule exI [of _ "stall n 0 1 uid"], rule exI [of _ s]) (use s in simp)
qed

theorem uid_count_stall_witness:
  "\<exists>tr s. rmw_trace hash_ops bump_uid \<lparr>rw_map = counter_table, rw_cpus = replicate 2 Between\<rparr> tr s \<and>
     rw_cpus s = replicate 2 Between \<and> reads tr 7 = 1000 + 1 \<and> count_of hash_ops (rw_map s) 7 = 1"
proof -
  have "amap_wf 10240 counter_table" "map_lookup hash_ops counter_table k = None" for k
    by (simp_all add: counter_table_def hash_ops_def)
  then show ?thesis
    using uid_count_stall [OF bounded_model.bpf_bounded_axioms, of 10240 counter_table 7 1000] by simp
qed

section \<open>The report of 24-pythonbpf\<close>

text \<open>A snapshot of a map: each entry once.\<close>

locale map_items = bpf_bounded ops cap wf_map
  for ops :: "('m, 'k, 'v) map_ops" and cap wf_map +
  fixes items :: "'m \<Rightarrow> ('k \<times> 'v) list"
  assumes items_distinct: "wf_map m \<Longrightarrow> distinct (map fst (items m))"
    and items_lookup: "wf_map m \<Longrightarrow> map_of (items m) = map_lookup ops m"
begin

lemma items_set: "wf_map m \<Longrightarrow> set (items m) = {(k, v). map_lookup ops m k = Some v}"
  using items_distinct [of m] items_lookup [of m] map_of_eq_Some_iff [of "items m"] by auto

end

interpretation items_model: map_items "hash_ops :: (('k, 'v) amap, 'k, 'v) map_ops" n "amap_wf n" am_entries
  by (intro map_items.intro bounded_model.bpf_bounded_axioms map_items_axioms.intro)
     (auto simp: amap_wf_def hash_ops_def am_lookup_def)

lemma uid_line_empty: "uid_line getpwuid items = ''(no execve calls seen yet)'' \<longleftrightarrow> items = []"
proof (cases items)
  case (Cons kv rest)
  have "\<exists>r. py_join ''  '' ((c # s) # ss) = c # r" for c s ss
    by (cases ss) auto
  then obtain r where "py_join ''  '' (map (\<lambda>(k, v). ''uid '' @ c_dec (unat k) @ '' ('' @ uid_name getpwuid k @ ''): '' @
      c_dec (unat v)) items) = CHR ''u'' # r"
    using Cons by (cases kv) fastforce
  with Cons show ?thesis
    by (simp add: uid_line_def)
qed (simp add: uid_line_def)

lemma sint_word_eq_iff: "sint (a :: 'a::len word) = sint b \<longleftrightarrow> a = b"
  by (metis signed_word_eqI)

text \<open>
  C35. The table that 24-pythonbpf prints after any history of execve calls, one after the
  other, of no more processes than the map has entries for: every process that made a call
  once, in ascending order of the signed process id, with its number of calls.
\<close>

theorem pid_report_counts:
  assumes items: "map_items ops cap wf_map items" and m: "wf_map m" "\<And>k. map_lookup ops m k = None"
    and room: "card (cur_pid ` set ts) \<le> cap" and len: "length ts < 2 ^ 64"
  shows "pid_report (items (fold (\<lambda>t m. snd (count_exec ops t m)) ts m)) =
    map (\<lambda>p. (p, int (count_list (map (\<lambda>t. sint (cur_pid t)) ts) p)))
      (sorted_list_of_set ((\<lambda>t. sint (cur_pid t)) ` set ts))"
    (is "pid_report (items ?m) = ?rows")
proof (rule sorted_distinct_set_unique)
  let ?run = "\<lambda>k m. snd (map_update ops m k (bump_pid (map_lookup ops m k)) BPF_ANY)"
  let ?ks = "map cur_pid ts"
  have "?m = fold ?run ?ks m"
    by (simp add: fold_map count_exec_def Let_def comp_def)
  with rmw_counter.serial_counts [OF pid_rmw [OF map_items.axioms(1) [OF items]] m, of ?ks ?run] room
  have wf: "wf_map ?m" and look: "map_lookup ops ?m = (\<lambda>k. if k \<in> set ?ks then Some (of_nat (count_list ?ks k)) else None)"
    by simp_all
  note entries = map_items.items_set [OF items wf] and keys = map_items.items_distinct [OF items wf]
  have "inj_on (\<lambda>(k, v). (sint k, uint v)) (set (items ?m))"
    by (auto simp: inj_on_def sint_word_eq_iff unsigned_word_eqI)
  then show "distinct (pid_report (items ?m))"
    using keys by (simp add: pid_report_def distinct_map)
  show "sorted (pid_report (items ?m))"
    by (simp add: pid_report_def)
  show "sorted ?rows" "distinct ?rows"
    by (auto simp: distinct_map inj_on_def sorted_map less_eq_prod_def
        intro!: sorted_wrt_mono_rel [OF _ strict_sorted_list_of_set])
  have count: "uint (of_nat (count_list ?ks k) :: u64) = int (count_list (map (\<lambda>t. sint (cur_pid t)) ts) (sint k))" for k
  proof -
    have "count_list (map sint ?ks) (sint k) = count_list ?ks k"
      by (rule count_list_map_conv) (simp add: inj_def sint_word_eq_iff)
    moreover have "count_list ?ks k < 2 ^ 64"
      using count_le_length [of ?ks k] len by simp
    ultimately show ?thesis
      by (simp add: comp_def unsigned_of_nat take_bit_nat_eq_self)
  qed
  have "set (items ?m) = (\<lambda>k. (k, of_nat (count_list ?ks k))) ` set ?ks"
    by (auto simp: entries look split: if_splits)
  then show "set (pid_report (items ?m)) = set ?rows"
    by (simp add: pid_report_def image_image count)
qed

theorem pid_report_counts_witness:
  "pid_report (am_entries (fold (\<lambda>t m. snd (count_exec hash_ops t m))
     [mk_task 30 0 [] 1, mk_task 9 0 [] 2, mk_task 30 0 [] 3] counts_map)) = [(9, 1), (30, 2)]"
proof -
  let ?ts = "[mk_task 30 0 [] 1, mk_task 9 0 [] 2, mk_task 30 0 [] 3]"
  have "amap_wf 4096 counts_map" "map_lookup hash_ops counts_map k = None" for k :: u32
    by (simp_all add: counts_map_def hash_ops_def)
  moreover have "card (cur_pid ` set ?ts) \<le> 4096"
    by (simp add: card_insert_if)
  moreover have "(\<lambda>t. sint (cur_pid t)) ` set ?ts = {9, 30}"
    by auto
  moreover have "sorted_list_of_set {9, 30} = [9, 30 :: int]"
    by code_simp
  ultimately show ?thesis
    using pid_report_counts [OF items_model.map_items_axioms, of 4096 counts_map ?ts] by (simp only: list.map) simp
qed

end
