(* ===== verification/Loader.thy ===== *)
theory Loader
  imports Bpf_Prelude
begin

text \<open>
  What the user-space \<open>main\<close> functions have in common. What libbpf and the kernel answer is the
  environment of a run: whether the skeleton loads, the results of attaching, and one entry per
  call of \<open>ring_buffer__poll\<close> with the records it delivers and its result. The list of polls
  ends where the program sees \<open>stop\<close>, which a signal sets; a run that is never stopped is not
  a value here. The result of a run is what the program does, in order, and its exit status.
  Freeing a null pointer does nothing and is not in the list. A message (\<open>Err\<close> on standard error,
  \<open>Say\<close> on standard output) is its fixed text, without the interface or error number printed
  into it; \<open>Header\<close> is the row of column titles, with the line under it where there is one.

  \<open>ring_main\<close> is the text that chapters 7 to 13 and 20 share; its first two arguments are the
  message for a failed attach and what is printed before the column titles. The theorem shows that whatever
  fails it frees exactly what it acquired, each thing once and the skeleton last, and for which
  failures it exits with status 1.
\<close>

datatype 'l act =
  Print_off | Open_load | Attach | Ring_new | Signals | Header "string list" | Poll int | Line 'l
  | Err string | Say string | Bye | Ring_free | Link_destroy | Detach | Hook_create | Hook_destroy
  | Socket_open | Socket_close | Mkdir | Pin_map | Pin_prog | Unpin_map | Unpin_prog | Rmdir
  | Iter_create | Iter_close | Destroy

definition EINTR :: int where "EINTR = 4"

definition EEXIST :: int where "EEXIST = 17"

record 'e loader_env =
  ld_loaded :: bool
  ld_attach :: int
  ld_ring :: bool
  ld_polls :: "('e list \<times> int) list"

text \<open>The callback on the records of one poll; the state is the loader's own tables.\<close>

fun consume :: "('e \<Rightarrow> 's \<Rightarrow> 's \<times> 'l list) \<Rightarrow> 'e list \<Rightarrow> 's \<Rightarrow> 's \<times> 'l list" where
  "consume h [] s = (s, [])"
| "consume h (e # es) s =
     (let (s, out) = h e s; (s, outs) = consume h es s in (s, out @ outs))"

fun poll_loop ::
  "('e \<Rightarrow> 's \<Rightarrow> 's \<times> 'l list) \<Rightarrow> ('e list \<times> int) list \<Rightarrow> int \<Rightarrow> 's \<Rightarrow> 'l act list \<times> int" where
  "poll_loop h [] err s = ([], err)"
| "poll_loop h ((es, n) # ps) err s =
     (let (s, out) = consume h es s; tr = map Line out @ [Poll n] in
      if n = - EINTR then (tr, 0)
      else if n < 0 then (tr @ [Err ''ring_buffer__poll''], n)
      else let (tr', err) = poll_loop h ps n s in (tr @ tr', err))"

definition exit_code :: "int \<Rightarrow> int" where
  "exit_code err = (if err < 0 then 1 else 0)"

definition ring_main ::
  "string \<Rightarrow> string list \<Rightarrow> string list \<Rightarrow> ('e \<Rightarrow> 's \<Rightarrow> 's \<times> 'l list) \<Rightarrow> 's \<Rightarrow>
   'e loader_env \<Rightarrow> 'l act list \<times> int" where
  "ring_main attach_msg banner header h s env =
     (if \<not> ld_loaded env then ([Print_off, Open_load, Err ''Failed to open/load BPF skeleton''], 1)
      else
        let err = ld_attach env in
        if err \<noteq> 0
        then ([Print_off, Open_load, Attach, Err attach_msg, Destroy], exit_code err)
        else if \<not> ld_ring env
        then ([Print_off, Open_load, Attach, Ring_new, Err ''Failed to create ring buffer'', Destroy], exit_code 1)
        else
          let (tr, err) = poll_loop h (ld_polls env) 0 s
          in ([Print_off, Open_load, Attach, Ring_new, Signals] @ map Say banner @ [Header header] @ tr @
                [Bye, Ring_free, Destroy],
              exit_code err))"

text \<open>A callback that keeps no state and prints one line per record.\<close>

definition line_of :: "('e \<Rightarrow> 'l) \<Rightarrow> 'e \<Rightarrow> unit \<Rightarrow> unit \<times> 'l list" where
  "line_of f e s = (s, [f e])"

section \<open>What the runs do\<close>

text \<open>The lines a run prints, the records it was handed, and whether a poll failed.\<close>

fun lines_of :: "'l act list \<Rightarrow> 'l list" where
  "lines_of [] = []"
| "lines_of (Line l # tr) = l # lines_of tr"
| "lines_of (_ # tr) = lines_of tr"

fun polled :: "('e list \<times> int) list \<Rightarrow> 'e list" where
  "polled [] = []"
| "polled ((es, n) # ps) = es @ (if n < 0 then [] else polled ps)"

fun poll_failed :: "('e list \<times> int) list \<Rightarrow> bool" where
  "poll_failed [] = False"
| "poll_failed ((es, n) # ps) = (if n < 0 then n \<noteq> - EINTR else poll_failed ps)"

lemma lines_of_append [simp]: "lines_of (tr @ tr') = lines_of tr @ lines_of tr'"
  by (induction tr rule: lines_of.induct) auto

lemma lines_of_map_Line [simp]: "lines_of (map Line ls) = ls"
  by (induction ls) auto

lemma lines_of_map_Say [simp]: "lines_of (map Say ss) = []"
  by (induction ss) auto

lemma count_map_Say [simp]:
  "count_list (map Say ss) Destroy = 0" "count_list (map Say ss) Ring_free = 0"
  by (induction ss) auto

lemma consume_append:
  "consume h (es @ es') s = (let (s, out) = consume h es s; (s, outs) = consume h es' s in (s, out @ outs))"
  by (induction es arbitrary: s) (auto simp: split_beta Let_def)

lemma consume_line_of [simp]: "consume (line_of f) es u = (u, map f es)"
  by (induction es) (auto simp: line_of_def)

lemma poll_loop_lines: "lines_of (fst (poll_loop h ps err s)) = snd (consume h (polled ps) s)"
  by (induction ps arbitrary: err s) (auto simp: consume_append split_beta Let_def EINTR_def)

lemma poll_loop_err: "0 \<le> err \<Longrightarrow> (snd (poll_loop h ps err s) < 0) = poll_failed ps"
  by (induction ps arbitrary: err s) (auto simp: split_beta Let_def EINTR_def)

text \<open>A poll loop acquires and releases nothing.\<close>

lemma poll_loop_acts:
  "Destroy \<notin> set (fst (poll_loop h ps err s)) \<and> Ring_free \<notin> set (fst (poll_loop h ps err s)) \<and>
   Ring_new \<notin> set (fst (poll_loop h ps err s)) \<and> Link_destroy \<notin> set (fst (poll_loop h ps err s))"
  by (induction ps arbitrary: err s) (auto simp: split_beta Let_def split: if_splits)

lemma count_poll_loop [simp]:
  "count_list (fst (poll_loop h ps err s)) Destroy = 0"
  "count_list (fst (poll_loop h ps err s)) Ring_free = 0"
  "count_list (fst (poll_loop h ps err s)) Link_destroy = 0"
  using poll_loop_acts [of h ps err s] by (simp_all add: count_list_0_iff)

lemma ring_main_prints:
  assumes "ld_loaded env" "ld_attach env = 0" "ld_ring env"
  shows "lines_of (fst (ring_main attach_msg banner header h s env)) = snd (consume h (polled (ld_polls env)) s)"
  using assms poll_loop_lines [of h "ld_polls env" 0 s] by (simp add: ring_main_def split_beta Let_def)

text \<open>
  C27. Every run of a ring-buffer tool, whatever fails: once the skeleton is loaded it is
  destroyed exactly once, as the last thing the program does; the ring is freed exactly once if
  it was created; and the exit status is 1 exactly if loading failed, attaching returned a
  negative error, or a poll failed with something else than an interruption. A ring that could
  not be created is reported on standard error but exits with status 0.
\<close>

theorem loader_lifecycle:
  "count_list (fst (ring_main attach_msg banner header h s env)) Destroy = (if ld_loaded env then 1 else 0) \<and>
   (last (fst (ring_main attach_msg banner header h s env)) = Destroy) = ld_loaded env \<and>
   count_list (fst (ring_main attach_msg banner header h s env)) Ring_free =
     (if ld_loaded env \<and> ld_attach env = 0 \<and> ld_ring env then 1 else 0) \<and>
   snd (ring_main attach_msg banner header h s env) =
     (if ld_loaded env
      then if 0 < ld_attach env then 0
           else if ld_attach env < 0 then 1
           else if ld_ring env \<and> poll_failed (ld_polls env) then 1 else 0
      else 1)"
  using poll_loop_err [of 0 h "ld_polls env" s]
  by (auto simp: ring_main_def exit_code_def split_beta Let_def)

end
