(* ===== verification/Exec_Snoop.thy ===== *)
theory Exec_Snoop
  imports Bpf_Helpers
begin

text \<open>
  07-libbpf and 08-argv-libbpf: the tracepoint on execve. Chapter 7 sends one record per call.
  Chapter 8 sends one record per argument and an end marker, and the loader puts the command
  line together in a table of 4096 slots indexed by \<open>pid % 4096\<close>.

  The table stands for the dictionary keyed by process of the Python tool it is ported from
  (the comment at the top of \<open>execsnoop.c\<close>). The theorems show that it refines that dictionary
  for every interleaving of processes whose ids fall into different slots, that the arguments
  of a call come out of the whole pipeline as they went in, and what happens after a lost end
  marker.
\<close>

section \<open>07-libbpf\<close>

definition FNAME_LEN :: nat where "FNAME_LEN = 256"

record exec_event =
  ex_pid :: u32
  ex_uid :: u32
  ex_comm :: bytes
  ex_filename :: bytes

definition trace_execve7 ::
  "('r, exec_event) ring_ops \<Rightarrow> probe_ops \<Rightarrow> task_ctx \<Rightarrow> u64 list \<Rightarrow> 'r \<Rightarrow> 'r" where
  "trace_execve7 ring probe t args r =
     (case rb_reserve ring r of
        None \<Rightarrow> r
      | Some (r, e) \<Rightarrow>
          let e = e\<lparr>ex_pid := cur_pid t, ex_uid := cur_uid t, ex_comm := t_comm t\<rparr>;
              e = e\<lparr>ex_filename := snd (probe_read_user_str probe (args ! 0) (ex_filename e))\<rparr>
          in rb_submit ring r e)"

definition handle_event7 :: "exec_event \<Rightarrow> nat \<times> nat \<times> bytes \<times> bytes" where
  "handle_event7 e = (unat (ex_pid e), unat (ex_uid e), c_str (ex_comm e), c_str (ex_filename e))"

section \<open>08-argv-libbpf: the kernel side\<close>

definition MAXARGS :: nat where "MAXARGS = 20"

definition ARGSIZE :: nat where "ARGSIZE = 128"

definition EVENT_ARG :: int where "EVENT_ARG = 0"

definition EVENT_RET :: int where "EVENT_RET = 1"

record arg_event =
  ae_pid :: u32
  ae_uid :: u32
  ae_comm :: bytes
  ae_type :: int
  ae_arg :: bytes

text \<open>Eight bytes of user memory as a pointer.\<close>

definition le64 :: "bytes \<Rightarrow> u64" where
  "le64 bs = horner_sum (\<lambda>b. ucast b) 256 bs"

text \<open>
  The unrolled loop over the argument vector, from index \<open>i\<close> on. The result says whether the
  loop ended by itself; a full ring returns from the whole program instead.
\<close>

fun arg_loop ::
  "('r, arg_event) ring_ops \<Rightarrow> probe_ops \<Rightarrow> task_ctx \<Rightarrow> u64 \<Rightarrow> nat list \<Rightarrow> 'r \<Rightarrow> bool \<times> 'r" where
  "arg_loop ring probe t argv [] r = (True, r)"
| "arg_loop ring probe t argv (i # is) r =
     (let argp = le64 (snd (probe_read_user probe (argv + 8 * of_nat i) (replicate 8 0))) in
      if argp = 0 then (True, r)
      else
        (case rb_reserve ring r of
           None \<Rightarrow> (False, r)
         | Some (r, e) \<Rightarrow>
             let e = e\<lparr>ae_pid := cur_pid t, ae_uid := cur_uid t, ae_comm := t_comm t, ae_type := EVENT_ARG\<rparr>;
                 e = e\<lparr>ae_arg := snd (probe_read_user_str probe argp (ae_arg e))\<rparr>
             in arg_loop ring probe t argv is (rb_submit ring r e)))"

definition trace_execve ::
  "('r, arg_event) ring_ops \<Rightarrow> probe_ops \<Rightarrow> task_ctx \<Rightarrow> u64 list \<Rightarrow> 'r \<Rightarrow> 'r" where
  "trace_execve ring probe t args r =
     (case arg_loop ring probe t (args ! 1) [0..<MAXARGS] r of
        (False, r) \<Rightarrow> r
      | (True, r) \<Rightarrow>
          (case rb_reserve ring r of
             None \<Rightarrow> r
           | Some (r, e) \<Rightarrow>
               let e = e\<lparr>ae_pid := cur_pid t, ae_uid := cur_uid t, ae_comm := t_comm t, ae_type := EVENT_RET,
                         ae_arg := (ae_arg e)[0 := 0]\<rparr>
               in rb_submit ring r e))"

section \<open>08-argv-libbpf: the pending table\<close>

definition TABLE_SIZE :: nat where "TABLE_SIZE = 4096"

record pending =
  p_active :: int
  p_pid :: u32
  p_uid :: u32
  p_comm :: bytes
  p_argv :: "bytes list"
  p_argc :: nat

definition pending_zero :: pending where
  "pending_zero =
     \<lparr>p_active = 0, p_pid = 0, p_uid = 0, p_comm = replicate 16 0,
      p_argv = replicate MAXARGS (replicate ARGSIZE 0), p_argc = 0\<rparr>"

definition table_init :: "pending list" where
  "table_init = replicate TABLE_SIZE pending_zero"

definition slot_of :: "u32 \<Rightarrow> nat" where
  "slot_of pid = unat pid mod TABLE_SIZE"

text \<open>A printed command line: pid, uid, name, arguments.\<close>

type_synonym cmd_line = "u32 \<times> u32 \<times> bytes \<times> bytes list"

definition pending_open :: "arg_event \<Rightarrow> pending \<Rightarrow> pending" where
  "pending_open e p =
     (if p_active p = 0 \<or> p_pid p \<noteq> ae_pid e
      then pending_zero\<lparr>p_active := 1, p_pid := ae_pid e, p_uid := ae_uid e, p_comm := ae_comm e\<rparr>
      else p)"

definition pending_push :: "arg_event \<Rightarrow> pending \<Rightarrow> pending" where
  "pending_push e p =
     (if p_argc p < MAXARGS
      then p\<lparr>p_argv := (p_argv p)[p_argc p :=
                (c_strncpy (ARGSIZE - 1) (ae_arg e) (p_argv p ! p_argc p))[ARGSIZE - 1 := 0]],
             p_argc := p_argc p + 1\<rparr>
      else p)"

definition handle_event :: "arg_event \<Rightarrow> pending list \<Rightarrow> pending list \<times> cmd_line list" where
  "handle_event e table =
     (let i = slot_of (ae_pid e); p = table ! i in
      if ae_type e = EVENT_ARG then (table[i := pending_push e (pending_open e p)], [])
      else if p_active p = 0 \<or> p_pid p \<noteq> ae_pid e then (table, [])
      else (table[i := p\<lparr>p_active := 0\<rparr>],
            [(p_pid p, p_uid p, c_str (p_comm p), map c_str (take (p_argc p) (p_argv p)))]))"

fun exec_run :: "arg_event list \<Rightarrow> pending list \<Rightarrow> pending list \<times> cmd_line list" where
  "exec_run [] table = (table, [])"
| "exec_run (e # es) table =
     (let (table, out) = handle_event e table; (table, outs) = exec_run es table in (table, out @ outs))"

section \<open>The table refines a dictionary\<close>

text \<open>
  The dictionary of the Python tool: \<open>setdefault\<close> and append on an argument, \<open>pop\<close> and print
  on the end marker. An argument is its first 127 bytes, and at most twenty are kept.
\<close>

type_synonym dict = "u32 \<Rightarrow> (u32 \<times> bytes \<times> bytes list) option"

definition dict_event :: "arg_event \<Rightarrow> dict \<Rightarrow> dict \<times> cmd_line list" where
  "dict_event e d =
     (if ae_type e = EVENT_ARG
      then let (uid, comm, args) = (case d (ae_pid e) of None \<Rightarrow> (ae_uid e, ae_comm e, []) | Some x \<Rightarrow> x)
           in (d(ae_pid e \<mapsto> (uid, comm, take 20 (args @ [c_str (take 127 (ae_arg e))]))), [])
      else
        (case d (ae_pid e) of
           None \<Rightarrow> (d, [])
         | Some (uid, comm, args) \<Rightarrow> (d(ae_pid e := None), [(ae_pid e, uid, c_str comm, args)])))"

fun dict_run :: "arg_event list \<Rightarrow> dict \<Rightarrow> dict \<times> cmd_line list" where
  "dict_run [] d = (d, [])"
| "dict_run (e # es) d =
     (let (d, out) = dict_event e d; (d, outs) = dict_run es d in (d, out @ outs))"

definition wf_pending :: "pending \<Rightarrow> bool" where
  "wf_pending p \<longleftrightarrow> p_argc p \<le> 20 \<and> length (p_argv p) = 20 \<and> (\<forall>a \<in> set (p_argv p). length a = 128)"

definition slot_view :: "u32 \<Rightarrow> pending \<Rightarrow> (u32 \<times> bytes \<times> bytes list) option" where
  "slot_view pid p =
     (if p_active p \<noteq> 0 \<and> p_pid p = pid
      then Some (p_uid p, p_comm p, map c_str (take (p_argc p) (p_argv p))) else None)"

text \<open>The table stands for the dictionary on the processes of \<open>P\<close>.\<close>

definition table_rel :: "u32 set \<Rightarrow> pending list \<Rightarrow> dict \<Rightarrow> bool" where
  "table_rel P table d \<longleftrightarrow>
     length table = 4096 \<and> (\<forall>p \<in> set table. wf_pending p) \<and>
     (\<forall>pid \<in> P. d pid = slot_view pid (table ! slot_of pid))"

lemmas exec_consts = MAXARGS_def ARGSIZE_def EVENT_ARG_def EVENT_RET_def TABLE_SIZE_def

lemma slot_of_less [simp]: "slot_of pid < 4096"
  by (simp add: slot_of_def TABLE_SIZE_def)

lemma c_str_pushed:
  assumes "length dst = 128"
  shows "c_str ((c_strncpy 127 src dst)[127 := 0]) = c_str (take 127 src)"
    and "length ((c_strncpy 127 src dst)[127 := 0]) = 128"
proof -
  define x where "x = c_str (take 127 src) @ replicate (127 - length (c_str (take 127 src))) 0"
  have len: "length x = 127"
    using length_takeWhile_le [of "\<lambda>x. x \<noteq> 0" "take 127 src"] by (simp add: x_def c_str_def)
  have "length (drop 127 dst) = Suc 0"
    using assms by simp
  then obtain b where "drop 127 dst = [b]"
    by (metis length_0_conv length_Suc_conv)
  then have "c_strncpy 127 src dst = x @ [b]"
    using len by (simp add: c_strncpy_def mem_write_def Let_def x_def)
  then have upd: "(c_strncpy 127 src dst)[127 := 0] = x @ [0]"
    using list_update_length [of x b "[]" 0] len by simp
  also have "\<dots> = c_str (take 127 src) @ 0 # replicate (127 - length (c_str (take 127 src))) 0"
    by (simp add: x_def replicate_append_same)
  finally show "c_str ((c_strncpy 127 src dst)[127 := 0]) = c_str (take 127 src)"
    by simp
  show "length ((c_strncpy 127 src dst)[127 := 0]) = 128"
    using upd len by simp
qed

lemma wf_pending_zero: "wf_pending pending_zero"
  by (simp add: wf_pending_def pending_zero_def exec_consts)

lemma wf_pending_open: "wf_pending p \<Longrightarrow> wf_pending (pending_open e p)"
  using wf_pending_zero by (simp add: pending_open_def wf_pending_def)

lemma wf_pending_push:
  assumes "wf_pending p"
  shows "wf_pending (pending_push e p)"
proof (cases "p_argc p < 20")
  case True
  with assms have "length (p_argv p ! p_argc p) = 128"
    by (simp add: wf_pending_def)
  with True assms show ?thesis
    by (auto simp: wf_pending_def pending_push_def exec_consts c_str_pushed
        dest!: set_update_subset_insert [THEN subsetD])
next
  case False
  with assms show ?thesis by (simp add: pending_push_def MAXARGS_def)
qed

lemma slot_view_push:
  assumes "wf_pending p"
  shows "slot_view (ae_pid e) (pending_push e (pending_open e p)) =
    (let (uid, comm, args) = (case slot_view (ae_pid e) p of None \<Rightarrow> (ae_uid e, ae_comm e, []) | Some x \<Rightarrow> x)
     in Some (uid, comm, take 20 (args @ [c_str (take 127 (ae_arg e))])))"
proof -
  have push: "map c_str (take (p_argc (pending_push e q)) (p_argv (pending_push e q))) =
      take 20 (map c_str (take (p_argc q) (p_argv q)) @ [c_str (take 127 (ae_arg e))])"
    if "wf_pending q" for q
  proof (cases "p_argc q < 20")
    case True
    with that have "length (p_argv q ! p_argc q) = 128" "length (p_argv q) = 20"
      by (simp_all add: wf_pending_def)
    with True show ?thesis
      by (simp add: pending_push_def exec_consts take_Suc_conv_app_nth c_str_pushed)
  next
    case False
    with that show ?thesis by (simp add: wf_pending_def pending_push_def MAXARGS_def)
  qed
  have fields: "p_active (pending_push e q) = p_active q" "p_pid (pending_push e q) = p_pid q"
    "p_uid (pending_push e q) = p_uid q" "p_comm (pending_push e q) = p_comm q" for q
    by (simp_all add: pending_push_def)
  show ?thesis
  proof (cases "p_active p = 0 \<or> p_pid p \<noteq> ae_pid e")
    case True
    then show ?thesis
      using push [OF wf_pending_open [OF assms, of e]]
      by (auto simp: slot_view_def fields pending_open_def pending_zero_def)
  next
    case False
    then show ?thesis
      using push [OF assms] by (simp add: slot_view_def fields pending_open_def)
  qed
qed

lemma slot_view_other: "ae_pid e \<noteq> pid \<Longrightarrow> slot_view pid (pending_push e (pending_open e p)) = None"
  by (simp add: slot_view_def pending_push_def pending_open_def)

text \<open>One event: the table and the dictionary print the same and stay related.\<close>

lemma event_refines:
  assumes rel: "table_rel P table d" and e: "ae_pid e \<in> P" and inj: "inj_on slot_of P"
  shows "table_rel P (fst (handle_event e table)) (fst (dict_event e d)) \<and>
    snd (handle_event e table) = snd (dict_event e d)"
proof -
  let ?i = "slot_of (ae_pid e)"
  let ?p = "table ! ?i"
  from rel have len: "length table = 4096" and wf: "wf_pending ?p"
    and d: "d (ae_pid e) = slot_view (ae_pid e) ?p"
    using e by (auto simp: table_rel_def)
  have rel': "table_rel P (table[?i := q]) (d(ae_pid e := slot_view (ae_pid e) q))" if "wf_pending q" for q
    using rel that inj e
    by (auto simp: table_rel_def nth_list_update inj_on_eq_iff
        dest!: set_update_subset_insert [THEN subsetD])
  show ?thesis
  proof (cases "ae_type e = EVENT_ARG")
    case True
    then show ?thesis
      using rel' [OF wf_pending_push [OF wf_pending_open [OF wf, of e], of e]] slot_view_push [OF wf, of e] d
      by (auto simp: handle_event_def dict_event_def Let_def split: prod.splits)
  next
    case False
    show ?thesis
    proof (cases "p_active ?p = 0 \<or> p_pid ?p \<noteq> ae_pid e")
      case True
      with False d rel show ?thesis
        by (auto simp: handle_event_def dict_event_def slot_view_def Let_def)
    next
      case act: False
      have "wf_pending (?p\<lparr>p_active := 0\<rparr>)" "slot_view (ae_pid e) (?p\<lparr>p_active := 0\<rparr>) = None"
        using wf by (simp_all add: wf_pending_def slot_view_def)
      with rel' [of "?p\<lparr>p_active := 0\<rparr>"] False act d show ?thesis
        by (auto simp: handle_event_def dict_event_def slot_view_def Let_def)
    qed
  qed
qed

lemma table_rel_init: "table_rel P table_init (\<lambda>_. None)"
  using wf_pending_zero
  by (auto simp: table_rel_def table_init_def TABLE_SIZE_def slot_view_def pending_zero_def)

lemma run_refines:
  "table_rel P table d \<Longrightarrow> ae_pid ` set es \<subseteq> P \<Longrightarrow> inj_on slot_of P \<Longrightarrow>
   table_rel P (fst (exec_run es table)) (fst (dict_run es d)) \<and>
   snd (exec_run es table) = snd (dict_run es d)"
proof (induction es arbitrary: table d)
  case (Cons e es)
  obtain t1 o1 d1 where h: "handle_event e table = (t1, o1)" "dict_event e d = (d1, o1)" "table_rel P t1 d1"
    using event_refines [OF Cons.prems(1), of e] Cons.prems(2,3) by (metis image_subset_iff list.set_intros(1) prod.collapse)
  with Cons.IH [of t1 d1] Cons.prems(2,3) show ?case
    by (auto simp: split_beta)
qed simp

text \<open>
  For every interleaving of the records of any processes whose ids fall into different
  slots of the table, the loader prints exactly the command lines a dictionary keyed by process
  would: the 4096-slot table, its in-place reset and its bounded copies are invisible.
\<close>

theorem exec_table_refines_dict:
  assumes "inj_on slot_of (ae_pid ` set es)"
  shows "snd (exec_run es table_init) = snd (dict_run es (\<lambda>_. None))"
  using run_refines [OF table_rel_init order_refl assms] by simp

definition exec_evs :: "arg_event list" where
  "exec_evs =
     [\<lparr>ae_pid = 7, ae_uid = 0, ae_comm = [115, 104, 0], ae_type = 0, ae_arg = [108, 115, 0]\<rparr>,
      \<lparr>ae_pid = 8, ae_uid = 0, ae_comm = [115, 104, 0], ae_type = 0, ae_arg = [112, 115, 0]\<rparr>,
      \<lparr>ae_pid = 7, ae_uid = 0, ae_comm = [115, 104, 0], ae_type = 0, ae_arg = [45, 108, 0]\<rparr>,
      \<lparr>ae_pid = 8, ae_uid = 0, ae_comm = [115, 104, 0], ae_type = 1, ae_arg = [0]\<rparr>,
      \<lparr>ae_pid = 7, ae_uid = 0, ae_comm = [115, 104, 0], ae_type = 1, ae_arg = [0]\<rparr>]"

theorem exec_table_refines_dict_witness:
  "snd (exec_run exec_evs table_init) =
     [(8, 0, [115, 104], [[112, 115]]), (7, 0, [115, 104], [[108, 115], [45, 108]])]"
proof -
  have "inj_on slot_of (ae_pid ` set exec_evs)"
    by (auto simp: exec_evs_def inj_on_def slot_of_def TABLE_SIZE_def)
  then show ?thesis
    by (simp only: exec_table_refines_dict) (simp add: exec_evs_def dict_event_def EVENT_ARG_def c_str_def)
qed

section \<open>The table stays a table\<close>

text \<open>What the C types say of slot \<open>i\<close>, and that strings end inside their arrays.\<close>

definition slot_typed :: "nat \<Rightarrow> pending \<Rightarrow> bool" where
  "slot_typed i p \<longleftrightarrow>
     wf_pending p \<and> (\<forall>a \<in> set (p_argv p). a ! 127 = 0) \<and> length (p_comm p) = 16 \<and>
     (p_active p = 0 \<or> p_active p = 1 \<and> slot_of (p_pid p) = i)"

definition line_typed :: "cmd_line \<Rightarrow> bool" where
  "line_typed l \<longleftrightarrow>
     (case l of (pid, uid, comm, args) \<Rightarrow>
        length comm \<le> 16 \<and> length args \<le> 20 \<and> (\<forall>a \<in> set args. length a < 128 \<and> 0 \<notin> set a))"

definition table_typed :: "pending list \<Rightarrow> bool" where
  "table_typed table \<longleftrightarrow> length table = 4096 \<and> (\<forall>i < 4096. slot_typed i (table ! i))"

lemma table_typed_update: "table_typed table \<Longrightarrow> slot_typed i p \<Longrightarrow> table_typed (table[i := p])"
  by (cases "i < length table") (auto simp: table_typed_def nth_list_update)

lemma slot_typed_zero: "slot_typed i pending_zero"
  using wf_pending_zero by (simp add: slot_typed_def pending_zero_def exec_consts)

lemma slot_typed_open:
  "slot_typed (slot_of (ae_pid e)) p \<Longrightarrow> length (ae_comm e) = 16 \<Longrightarrow> slot_typed (slot_of (ae_pid e)) (pending_open e p)"
  using slot_typed_zero [of "slot_of (ae_pid e)"] by (auto simp: pending_open_def slot_typed_def wf_pending_def)

lemma slot_typed_push:
  assumes "slot_typed i p"
  shows "slot_typed i (pending_push e p)"
proof (cases "p_argc p < 20")
  case True
  define a where "a = (c_strncpy 127 (ae_arg e) (p_argv p ! p_argc p))[127 := 0]"
  have "length (p_argv p ! p_argc p) = 128"
    using True assms by (simp add: slot_typed_def wf_pending_def)
  then have "length a = 128"
    unfolding a_def by (rule c_str_pushed)
  then have "a ! 127 = 0"
    by (simp add: a_def)
  with assms wf_pending_push [of p e] True show ?thesis
    by (auto simp: slot_typed_def pending_push_def exec_consts a_def dest!: set_update_subset_insert [THEN subsetD])
next
  case False
  with assms show ?thesis by (simp add: pending_push_def MAXARGS_def)
qed

lemma c_str_no_NUL: "0 \<notin> set (c_str a)"
  by (auto simp: c_str_def dest: set_takeWhileD)

lemma c_str_short:
  assumes "a ! n = 0"
  shows "length (c_str a) \<le> n"
proof (rule ccontr)
  assume "\<not> length (c_str a) \<le> n"
  then have n: "n < length (c_str a)" by simp
  then have "c_str a ! n = a ! n"
    by (simp add: c_str_def takeWhile_nth)
  with nth_mem [OF n] assms c_str_no_NUL show False by metis
qed

lemma event_typed:
  assumes "table_typed table" "length (ae_comm e) = 16"
  shows "table_typed (fst (handle_event e table)) \<and>
    (\<forall>l \<in> set (snd (handle_event e table)). line_typed l \<and> fst l = ae_pid e)"
proof -
  let ?p = "table ! slot_of (ae_pid e)"
  have p: "slot_typed (slot_of (ae_pid e)) ?p"
    using assms(1) slot_of_less by (simp add: table_typed_def)
  have "length (c_str a) < 128" if "a \<in> set (take n (p_argv ?p))" for a n
    using p in_set_takeD [OF that] c_str_short [of a 127] by (simp add: slot_typed_def)
  moreover have "length (c_str (p_comm ?p)) \<le> 16"
    using p length_takeWhile_le [of "\<lambda>x. x \<noteq> 0" "p_comm ?p"] by (simp add: slot_typed_def c_str_def)
  ultimately have "line_typed (p_pid ?p, p_uid ?p, c_str (p_comm ?p), map c_str (take (p_argc ?p) (p_argv ?p)))"
    using p c_str_no_NUL by (auto simp: line_typed_def slot_typed_def wf_pending_def)
  moreover have "slot_typed (slot_of (ae_pid e)) (?p\<lparr>p_active := 0\<rparr>)"
    using p by (simp add: slot_typed_def wf_pending_def)
  moreover have "slot_typed (slot_of (ae_pid e)) (pending_push e (pending_open e ?p))"
    by (intro slot_typed_push slot_typed_open p assms(2))
  ultimately show ?thesis
    using assms(1) by (auto simp: handle_event_def Let_def table_typed_update)
qed

text \<open>
  C17. The pending table of 08-argv-libbpf for every sequence of records, processes that share a
  slot and lost end markers included: it keeps 4096 slots, each with at most 20 arguments in 20
  arrays of 128 bytes that end in a NUL and an active slot at the index of its process; and every
  line printed is for the process of a record, with at most 20 arguments of at most 127 bytes.
\<close>

theorem exec_table_typed:
  assumes "\<And>e. e \<in> set es \<Longrightarrow> length (ae_comm e) = 16"
  shows "table_typed (fst (exec_run es table_init)) \<and>
    (\<forall>l \<in> set (snd (exec_run es table_init)). line_typed l \<and> fst l \<in> ae_pid ` set es)"
proof -
  have "table_typed table \<Longrightarrow> table_typed (fst (exec_run es table)) \<and>
      (\<forall>l \<in> set (snd (exec_run es table)). line_typed l \<and> fst l \<in> ae_pid ` set es)" for table
    using assms
  proof (induction es arbitrary: table)
    case (Cons e es)
    from event_typed [OF Cons.prems(1), of e] Cons.IH [of "fst (handle_event e table)"] Cons.prems(2) show ?case
      by (auto simp: split_beta)
  qed simp
  moreover have "table_typed table_init"
    by (simp add: table_typed_def table_init_def TABLE_SIZE_def slot_typed_zero)
  ultimately show ?thesis by simp
qed

text \<open>Two processes in one slot: the second takes it over, and the first loses its line.\<close>

definition clash_evs :: "arg_event list" where
  "clash_evs =
     [\<lparr>ae_pid = 1, ae_uid = 0, ae_comm = replicate 16 0, ae_type = EVENT_ARG, ae_arg = [108, 115, 0]\<rparr>,
      \<lparr>ae_pid = 4097, ae_uid = 0, ae_comm = replicate 16 0, ae_type = EVENT_ARG, ae_arg = [112, 115, 0]\<rparr>,
      \<lparr>ae_pid = 1, ae_uid = 0, ae_comm = replicate 16 0, ae_type = EVENT_RET, ae_arg = []\<rparr>,
      \<lparr>ae_pid = 4097, ae_uid = 0, ae_comm = replicate 16 0, ae_type = EVENT_RET, ae_arg = []\<rparr>]"

theorem exec_table_typed_witness:
  "slot_of 1 = slot_of 4097 \<and> table_typed (fst (exec_run clash_evs table_init)) \<and>
   list_all (\<lambda>l. line_typed l \<and> fst l \<in> {1, 4097}) (snd (exec_run clash_evs table_init))"
proof -
  have "length (ae_comm e) = 16" if "e \<in> set clash_evs" for e
    using that by (auto simp: clash_evs_def)
  from exec_table_typed [of clash_evs, OF this] have "table_typed (fst (exec_run clash_evs table_init)) \<and>
      (\<forall>l \<in> set (snd (exec_run clash_evs table_init)). line_typed l \<and> fst l \<in> ae_pid ` set clash_evs)" .
  moreover have "ae_pid ` set clash_evs = {1, 4097}"
    by (auto simp: clash_evs_def)
  ultimately show ?thesis
    by (simp add: slot_of_def TABLE_SIZE_def list_all_iff)
qed

section \<open>From the system call to the command line\<close>

text \<open>
  An argument vector in user memory, from index \<open>k\<close> on: pointers to NUL-terminated strings of
  fewer than 128 bytes, and a null pointer.
\<close>

fun user_argv :: "(u64 \<Rightarrow> u8 option) \<Rightarrow> u64 \<Rightarrow> nat \<Rightarrow> bytes list \<Rightarrow> bool" where
  "user_argv mem argv k [] \<longleftrightarrow> mem_bytes mem (argv + 8 * of_nat k) 8 = Some (replicate 8 0)"
| "user_argv mem argv k (s # ss) \<longleftrightarrow>
     (case mem_bytes mem (argv + 8 * of_nat k) 8 of
        None \<Rightarrow> False
      | Some bs \<Rightarrow> le64 bs \<noteq> 0 \<and> mem_bytes mem (le64 bs) (Suc (length s)) = Some (s @ [0])) \<and>
     0 \<notin> set s \<and> length s < 128 \<and> user_argv mem argv (Suc k) ss"

text \<open>A ring that will take \<open>n\<close> more records, in slots of the record's size.\<close>

fun ring_takes :: "('r, arg_event) ring_ops \<Rightarrow> nat \<Rightarrow> 'r \<Rightarrow> bool" where
  "ring_takes ring 0 r \<longleftrightarrow> True"
| "ring_takes ring (Suc n) r \<longleftrightarrow>
     (case rb_reserve ring r of
        None \<Rightarrow> False
      | Some (r', e) \<Rightarrow> length (ae_arg e) = 128 \<and> (\<forall>e'. ring_takes ring n (rb_submit ring r' e')))"

definition arg_of :: "task_ctx \<Rightarrow> arg_event \<Rightarrow> bytes \<Rightarrow> bool" where
  "arg_of t e s \<longleftrightarrow>
     ae_pid e = cur_pid t \<and> ae_uid e = cur_uid t \<and> ae_comm e = t_comm t \<and> ae_type e = EVENT_ARG \<and>
     c_str (ae_arg e) = s \<and> c_str (take 127 (ae_arg e)) = s"

lemma c_str_take: "length (c_str b) \<le> n \<Longrightarrow> c_str (take n b) = c_str b"
proof (induction b arbitrary: n)
  case (Cons x b)
  then show ?case by (cases n) (auto simp: c_str_def split: if_splits)
qed (simp add: c_str_def)

lemma le64_zero [simp]: "le64 (replicate n 0) = 0"
  by (induction n) (simp_all add: le64_def)

text \<open>The two reads of an iteration: the pointer at index \<open>k\<close>, and the string behind it.\<close>

definition argp :: "probe_ops \<Rightarrow> u64 \<Rightarrow> nat \<Rightarrow> u64" where
  "argp probe argv k = le64 (snd (probe_read_user probe (argv + 8 * of_nat k) (replicate 8 0)))"

lemma argp_end: "bpf_probe probe mem \<Longrightarrow> user_argv mem argv k [] \<Longrightarrow> argp probe argv k = 0"
  using bpf_probe.read_ok [of probe mem "argv + 8 * of_nat k" "replicate 8 0" "replicate 8 0"] by (simp add: argp_def)

lemma argp_next:
  assumes probe: "bpf_probe probe mem" and argv: "user_argv mem argv k (s # ss)"
  shows "argp probe argv k \<noteq> 0" "user_argv mem argv (Suc k) ss" "length s < 128"
    and "length dst = 128 \<Longrightarrow> c_str (snd (probe_read_user_str probe (argp probe argv k) dst)) = s"
proof -
  from argv obtain bs where bs: "mem_bytes mem (argv + 8 * of_nat k) 8 = Some bs" "le64 bs \<noteq> 0"
    "mem_bytes mem (le64 bs) (Suc (length s)) = Some (s @ [0])" and s: "0 \<notin> set s" "length s < 128"
    and ss: "user_argv mem argv (Suc k) ss"
    by (auto split: option.splits)
  have "argp probe argv k = le64 bs"
    using bpf_probe.read_ok [OF probe, of "argv + 8 * of_nat k" "replicate 8 0"] bs(1) by (simp add: argp_def)
  with bs s ss bpf_probe.read_str_c_str [OF probe bs(3) s(1)]
  show "argp probe argv k \<noteq> 0" "user_argv mem argv (Suc k) ss" "length s < 128"
    "length dst = 128 \<Longrightarrow> c_str (snd (probe_read_user_str probe (argp probe argv k) dst)) = s"
    by simp_all
qed

lemma arg_loop_sends:
  assumes ring: "bpf_ringbuf ring" and probe: "bpf_probe probe mem"
  shows "user_argv mem argv k strs \<Longrightarrow> k \<le> 20 \<Longrightarrow> ring_takes ring (Suc (min (20 - k) (length strs))) r \<Longrightarrow>
    \<exists>r' as. arg_loop ring probe t argv [k..<20] r = (True, r') \<and>
      rb_records ring r' = rb_records ring r @ as \<and> ring_takes ring 1 r' \<and>
      list_all2 (arg_of t) as (take (20 - k) strs)"
proof (induction strs arbitrary: k r)
  case Nil
  have "k = 20 \<or> [k..<20] = k # [Suc k..<20]"
    using Nil.prems(2) upt_conv_Cons [of k 20] by fastforce
  with argp_end [OF probe Nil.prems(1)] Nil.prems(3) show ?case
    by (auto simp: argp_def)
next
  case (Cons s ss)
  show ?case
  proof (cases "k = 20")
    case True
    with Cons.prems(3) show ?thesis by simp
  next
    case False
    with Cons.prems(2) have k: "[k..<20] = k # [Suc k..<20]" "Suc k \<le> 20" "20 - k = Suc (20 - Suc k)"
      by (simp_all add: upt_conv_Cons)
    note argp = argp_next [OF probe Cons.prems(1)]
    define m where "m = min (20 - Suc k) (length ss)"
    have n: "min (20 - k) (length (s # ss)) = Suc m"
      using k(3) by (simp add: m_def)
    obtain r1 e where e: "rb_reserve ring r = Some (r1, e)" "length (ae_arg e) = 128"
      "\<And>e'. ring_takes ring (Suc m) (rb_submit ring r1 e')"
      using Cons.prems(3) unfolding n ring_takes.simps(2) [of ring "Suc m"]
      by (auto simp del: ring_takes.simps split: option.splits)
    let ?e = "e\<lparr>ae_pid := cur_pid t, ae_uid := cur_uid t, ae_comm := t_comm t, ae_type := EVENT_ARG,
      ae_arg := snd (probe_read_user_str probe (argp probe argv k) (ae_arg e))\<rparr>"
    have this_arg: "arg_of t ?e s"
      using argp(3) argp(4) [OF e(2)] c_str_take [of "ae_arg ?e" 127] by (simp add: arg_of_def)
    from Cons.IH [OF argp(2) k(2) e(3) [unfolded m_def]] obtain r' as where
      IH: "arg_loop ring probe t argv [Suc k..<20] (rb_submit ring r1 ?e) = (True, r')"
      "rb_records ring r' = rb_records ring (rb_submit ring r1 ?e) @ as" "ring_takes ring 1 r'"
      "list_all2 (arg_of t) as (take (20 - Suc k) ss)"
      by metis
    have "arg_loop ring probe t argv [k..<20] r = (True, r')"
      using IH(1) argp(1) by (simp add: k(1) e(1) argp_def)
    moreover have "rb_records ring r' = rb_records ring r @ ?e # as"
      using IH(2) bpf_ringbuf.reserve_submit [OF ring e(1)] by simp
    moreover have "list_all2 (arg_of t) (?e # as) (take (20 - k) (s # ss))"
      using IH(4) this_arg unfolding k(3) by (simp only: take_Suc_Cons list_all2_Cons simp_thms)
    ultimately show ?thesis using IH(3) by blast
  qed
qed

lemma dict_args:
  "list_all2 (arg_of t) as strs \<Longrightarrow> d (cur_pid t) = Some (cur_uid t, t_comm t, xs) \<Longrightarrow> length (xs @ strs) \<le> 20 \<Longrightarrow>
   dict_run as d = (d(cur_pid t \<mapsto> (cur_uid t, t_comm t, xs @ strs)), [])"
  by (induction as strs arbitrary: d xs rule: list_all2_induct)
     (auto simp: dict_event_def arg_of_def Let_def fun_upd_idem)

lemma dict_run_append:
  "dict_run (as @ bs) d =
     (let (d1, o1) = dict_run as d; (d2, o2) = dict_run bs d1 in (d2, o1 @ o2))"
  by (induction as arbitrary: d) (auto simp: split_beta Let_def)

lemma dict_command:
  assumes "list_all2 (arg_of t) as strs" "strs \<noteq> []" "length strs \<le> 20"
    "ae_pid ret = cur_pid t" "ae_type ret = EVENT_RET"
  shows "snd (dict_run (as @ [ret]) (\<lambda>_. None)) = [(cur_pid t, cur_uid t, c_str (t_comm t), strs)]"
proof -
  from assms(1,2) obtain a as' s ss where eq: "as = a # as'" "strs = s # ss" "arg_of t a s"
    "list_all2 (arg_of t) as' ss"
    by (cases strs) (auto simp: list_all2_Cons2)
  have "dict_event a (\<lambda>_. None) = ([cur_pid t \<mapsto> (cur_uid t, t_comm t, [s])], [])"
    using eq(3) by (simp add: dict_event_def arg_of_def)
  moreover have "dict_run as' [cur_pid t \<mapsto> (cur_uid t, t_comm t, [s])] =
      ([cur_pid t \<mapsto> (cur_uid t, t_comm t, s # ss)], [])"
    using dict_args [OF eq(4), of "[cur_pid t \<mapsto> (cur_uid t, t_comm t, [s])]" "[s]"] assms(3) eq(2) by simp
  ultimately show ?thesis
    using assms(4,5) by (simp add: eq dict_run_append dict_event_def EVENT_ARG_def EVENT_RET_def)
qed

lemma exec_command:
  assumes "list_all2 (arg_of t) as strs" "strs \<noteq> []" "length strs \<le> 20"
    "ae_pid ret = cur_pid t" "ae_type ret = EVENT_RET"
  shows "snd (exec_run (as @ [ret]) table_init) = [(cur_pid t, cur_uid t, c_str (t_comm t), strs)]"
proof -
  have pids: "ae_pid ` set (as @ [ret]) \<subseteq> {cur_pid t}"
    using assms(1,4) by (auto simp: arg_of_def list_all2_conv_all_nth in_set_conv_nth)
  show ?thesis
    using run_refines [OF table_rel_init pids] dict_command [OF assms] by simp
qed

text \<open>
  A full ring makes the kernel program return without the end marker. The arguments \<open>strs\<close> it
  had sent then stay in the slot, and the line printed for the next call of the process starts
  with them.
\<close>

lemma exec_lost_marker:
  assumes "list_all2 (arg_of t) as strs" "list_all2 (arg_of t) bs strs'" "strs' \<noteq> []"
    "length (strs @ strs') \<le> 20" "ae_pid ret = cur_pid t" "ae_type ret = EVENT_RET"
  shows "snd (exec_run (as @ bs @ [ret]) table_init) =
    [(cur_pid t, cur_uid t, c_str (t_comm t), strs @ strs')]"
  using exec_command [OF list_all2_appendI [OF assms(1,2)] _ assms(4-6)] assms(3) by simp

text \<open>The records of a call: one per argument, and the end marker.\<close>

lemma trace_execve_sends:
  assumes ring: "bpf_ringbuf ring" and probe: "bpf_probe probe mem"
    and argv: "user_argv mem (args ! 1) 0 strs" and room: "ring_takes ring (Suc (min 20 (length strs))) r"
  shows "\<exists>as ret. rb_records ring (trace_execve ring probe t args r) = rb_records ring r @ as @ [ret] \<and>
    list_all2 (arg_of t) as (take 20 strs) \<and> ae_pid ret = cur_pid t \<and> ae_type ret = EVENT_RET"
proof -
  obtain r' as where as: "arg_loop ring probe t (args ! 1) [0..<20] r = (True, r')"
    "rb_records ring r' = rb_records ring r @ as" "ring_takes ring 1 r'"
    "list_all2 (arg_of t) as (take 20 strs)"
    using arg_loop_sends [OF ring probe argv, of r t] room by auto
  from as(3) obtain r1 e where e: "rb_reserve ring r' = Some (r1, e)"
    by (auto split: option.splits)
  define ret where "ret = e\<lparr>ae_pid := cur_pid t, ae_uid := cur_uid t, ae_comm := t_comm t, ae_type := EVENT_RET,
    ae_arg := (ae_arg e)[0 := 0]\<rparr>"
  have "rb_records ring (trace_execve ring probe t args r) = rb_records ring r @ as @ [ret]"
    using as(1,2) e bpf_ringbuf.reserve_submit [OF ring e, of ret]
    by (simp add: trace_execve_def MAXARGS_def ret_def)
  with as(4) show ?thesis
    by (intro exI [of _ as] exI [of _ ret]) (simp add: ret_def)
qed

text \<open>
  C10. An execve with a vector of at least one argument, each shorter than 128 bytes, sends the
  ring the records that make the loader print one line: the process, its user, its name and its
  first twenty arguments, as they are in the caller's memory.
\<close>

theorem exec_argv_roundtrip:
  assumes ring: "bpf_ringbuf ring" and probe: "bpf_probe probe mem"
    and argv: "user_argv mem (args ! 1) 0 strs" "strs \<noteq> []"
    and room: "ring_takes ring (Suc (min 20 (length strs))) r"
  shows "\<exists>es. rb_records ring (trace_execve ring probe t args r) = rb_records ring r @ es \<and>
    snd (exec_run es table_init) = [(cur_pid t, cur_uid t, c_str (t_comm t), take 20 strs)]"
proof -
  obtain as ret where "rb_records ring (trace_execve ring probe t args r) = rb_records ring r @ as @ [ret]"
    "list_all2 (arg_of t) as (take 20 strs)" "ae_pid ret = cur_pid t" "ae_type ret = EVENT_RET"
    using trace_execve_sends [OF ring probe argv(1) room] by blast
  with exec_command [of t as "take 20 strs" ret] argv(2) show ?thesis
    by (intro exI [of _ "as @ [ret]"]) simp
qed

text \<open>A vector of two strings, \<open>ls\<close> at 64 and \<open>-l\<close> at 80, with its pointers at 4096.\<close>

definition argv_mem :: "u64 \<Rightarrow> u8 option" where
  "argv_mem a =
     (if a = 64 then Some 108 else if a = 65 then Some 115 else if a = 80 then Some 45 else if a = 81 then Some 108
      else if a = 4096 then Some 64 else if a = 4104 then Some 80 else Some 0)"

theorem exec_argv_roundtrip_witness:
  "\<exists>es. rb_records list_ring (trace_execve list_ring (mem_probe argv_mem) (mk_task 7 0 [115, 104, 0] 1) [0, 4096, 0]
           \<lparr>rg_room = 3, rg_stale = \<lparr>ae_pid = 0, ae_uid = 0, ae_comm = [], ae_type = 0, ae_arg = replicate 128 9\<rparr>,
            rg_log = []\<rparr>) = es \<and>
        snd (exec_run es table_init) = [(7, 0, [115, 104], [[108, 115], [45, 108]])]"
proof -
  let ?slot = "\<lparr>ae_pid = 0, ae_uid = 0, ae_comm = [], ae_type = 0, ae_arg = replicate 128 9\<rparr>"
  let ?r = "\<lparr>rg_room = 3, rg_stale = ?slot, rg_log = []\<rparr>"
  have argv: "user_argv argv_mem ([0, 4096, 0] ! 1) 0 [[108, 115], [45, 108]]"
    by code_simp
  have room: "ring_takes list_ring (Suc (min 20 (length [[108, 115], [45, 108 :: u8]]))) ?r"
    by (simp add: list_ring_defs numeral_2_eq_2)
  show ?thesis
    using exec_argv_roundtrip [OF ring_model.bpf_ringbuf_axioms probe_model.bpf_probe_axioms argv _ room,
      of "mk_task 7 0 [115, 104, 0] 1"]
    by (auto simp: list_ring_defs c_str_def)
qed

end
