(* ===== verification/Snoop_Lines.thy ===== *)
theory Snoop_Lines
  imports Bpf_Helpers
begin

text \<open>
  The programs that send one record per event: 09-openat on the entry of openat, 15-bashreadline
  on the return of bash's \<open>readline\<close>, and the audit hook of 20-lsm on every exec check.
\<close>

section \<open>15-bashreadline\<close>

definition MAX_LINE :: nat where "MAX_LINE = 200"

record line_event =
  rl_pid :: u32
  rl_comm :: bytes
  rl_line :: bytes

definition bash_readline ::
  "('r, line_event) ring_ops \<Rightarrow> probe_ops \<Rightarrow> task_ctx \<Rightarrow> u64 \<Rightarrow> 'r \<Rightarrow> 'r" where
  "bash_readline ring probe t ret r =
     (if ret = 0 then r
      else
        (case rb_reserve ring r of
           None \<Rightarrow> r
         | Some (r, e) \<Rightarrow>
             let e = e\<lparr>rl_pid := cur_pid t, rl_comm := t_comm t\<rparr>;
                 (n, line) = probe_read_user_str probe ret (rl_line e);
                 e = e\<lparr>rl_line := line\<rparr>
             in if n \<le> 1 then rb_discard ring r else rb_submit ring r e))"

definition line_handle_event :: "line_event \<Rightarrow> nat \<times> bytes \<times> bytes" where
  "line_handle_event e = (unat (rl_pid e), c_str (rl_comm e), c_str (rl_line e))"

section \<open>09-openat\<close>

record openat_event =
  oa_pid :: u32
  oa_uid :: u32
  oa_comm :: bytes
  oa_flags :: u32
  oa_filename :: bytes

definition trace_openat ::
  "('r, openat_event) ring_ops \<Rightarrow> probe_ops \<Rightarrow> task_ctx \<Rightarrow> u64 list \<Rightarrow> 'r \<Rightarrow> 'r" where
  "trace_openat ring probe t args r =
     (case rb_reserve ring r of
        None \<Rightarrow> r
      | Some (r, e) \<Rightarrow>
          let e = e\<lparr>oa_pid := cur_pid t, oa_uid := cur_uid t, oa_comm := t_comm t, oa_flags := ucast (args ! 2)\<rparr>;
              e = e\<lparr>oa_filename := snd (probe_read_user_str probe (args ! 1) (oa_filename e))\<rparr>
          in rb_submit ring r e)"

lemma len_ne: "length xs = numeral n \<Longrightarrow> xs \<noteq> []"
  by auto

lemma openat_reports:
  assumes "bpf_ringbuf ring" "bpf_probe probe mem" "rb_reserve ring r = Some (r', slot)"
    "length (oa_filename slot) = 256"
    "mem_bytes mem (args ! 1) (Suc (length path)) = Some (path @ [0])" "0 \<notin> set path"
  shows "\<exists>e. rb_records ring (trace_openat ring probe t args r) = rb_records ring r @ [e] \<and>
    oa_pid e = cur_pid t \<and> oa_flags e = ucast (args ! 2) \<and> c_str (oa_filename e) = take 255 path"
  using bpf_probe.read_str_prefix [OF assms(2,5,6), of "oa_filename slot"] assms(3,4) len_ne
    bpf_ringbuf.reserve_submit [OF assms(1,3)]
  by (auto simp: trace_openat_def)

section \<open>20-lsm: the exec audit\<close>

record guard_event =
  ge_pid :: u32
  ge_verdict :: int
  ge_comm :: bytes
  ge_filename :: bytes

text \<open>
  \<open>exec_check\<close> returns the verdict. \<open>read_kernel_str\<close> is \<open>bpf_probe_read_kernel_str\<close>: the
  file name's address and the destination before the call.
\<close>

definition exec_check ::
  "('r, guard_event) ring_ops \<Rightarrow> (u64 \<Rightarrow> bytes \<Rightarrow> bytes) \<Rightarrow> task_ctx \<Rightarrow> u64 \<Rightarrow> int \<Rightarrow> 'r \<Rightarrow> int \<times> 'r" where
  "exec_check ring read_kernel_str t fname ret r =
     (if ret \<noteq> 0 then (ret, r)
      else
        (case rb_reserve ring r of
           None \<Rightarrow> (0, r)
         | Some (r, e) \<Rightarrow>
             let e = e\<lparr>ge_pid := cur_pid t, ge_comm := t_comm t\<rparr>;
                 e = e\<lparr>ge_filename := read_kernel_str fname (ge_filename e)\<rparr>;
                 e = e\<lparr>ge_verdict := 0\<rparr>
             in (0, rb_submit ring r e)))"

definition guard_handle_event :: "guard_event \<Rightarrow> nat \<times> string \<times> bytes \<times> bytes" where
  "guard_handle_event e =
     (unat (ge_pid e), if ge_verdict e = 0 then ''allow'' else ''DENY'', c_str (ge_comm e), c_str (ge_filename e))"

text \<open>The hook adds no decision of its own: the verdict of the LSM chain so far is the result.\<close>

lemma exec_check_verdict: "fst (exec_check ring rd t fname ret r) = ret"
  by (simp add: exec_check_def Let_def split: option.splits)

section \<open>What a typed line becomes\<close>

text \<open>
  When \<open>readline\<close> returns the string \<open>s\<close>, a reserved slot becomes exactly one line with
  the process, its name and the first 199 bytes of \<open>s\<close>, or, for an empty line, is handed back
  and nothing is reported.
\<close>

theorem readline_reports:
  assumes ring: "bpf_ringbuf ring" and probe: "bpf_probe probe mem"
    and s: "mem_bytes mem ret (Suc (length s)) = Some (s @ [0])" "0 \<notin> set s" "ret \<noteq> 0"
    and room: "rb_reserve ring r = Some (r', slot)" "length (rl_line slot) = MAX_LINE"
  shows "map line_handle_event (rb_records ring (bash_readline ring probe t ret r)) =
    map line_handle_event (rb_records ring r) @
      (if s = [] then [] else [(unat (cur_pid t), c_str (t_comm t), take 199 s)])"
proof -
  have ne: "rl_line slot \<noteq> []"
    using room(2) by (auto simp: MAX_LINE_def)
  from bpf_probe.read_str_prefix [OF probe s(1,2) ne] room(2) obtain line where
    "probe_read_user_str probe ret (rl_line slot) = (int (min (Suc (length s)) 200), line)" "c_str line = take 199 s"
    by (auto simp: MAX_LINE_def)
  then show ?thesis
    using s(3) room(1) bpf_ringbuf.reserve_submit [OF ring room(1)] bpf_ringbuf.reserve_discard [OF ring room(1)]
    by (cases s) (auto simp: bash_readline_def line_handle_event_def)
qed

definition line_mem :: "u64 \<Rightarrow> u8 option" where
  "line_mem a = (if a = 4096 then Some 108 else if a = 4097 then Some 115 else Some 0)"

theorem readline_reports_witness:
  "map line_handle_event (rb_records list_ring (bash_readline list_ring (mem_probe line_mem)
     (mk_task 7 0 [115, 104, 0] 1) 4096
     \<lparr>rg_room = 1, rg_stale = \<lparr>rl_pid = 0, rl_comm = [], rl_line = replicate 200 9\<rparr>, rg_log = []\<rparr>)) =
   [(7, [115, 104], [108, 115])]"
proof -
  let ?slot = "\<lparr>rl_pid = 0, rl_comm = [], rl_line = replicate 200 9\<rparr>"
  have room: "rb_reserve list_ring \<lparr>rg_room = 1, rg_stale = ?slot, rg_log = []\<rparr> =
      Some (\<lparr>rg_room = 0, rg_stale = ?slot, rg_log = []\<rparr>, ?slot)"
    by (simp add: list_ring_defs)
  have s: "mem_bytes line_mem 4096 (Suc (length [108, 115])) = Some ([108, 115] @ [0])"
    by (simp add: line_mem_def)
  show ?thesis
    using readline_reports [OF ring_model.bpf_ringbuf_axioms probe_model.bpf_probe_axioms s _ _ room,
      of "mk_task 7 0 [115, 104, 0] 1"]
    by (simp add: MAX_LINE_def list_ring_defs c_str_def)
qed

end
