(* ===== verification/Stash.thy ===== *)
theory Stash
  imports Bpf_Maps Bpf_Helpers
begin

text \<open>
  Entry/exit correlation, the pattern of 10-openat-ret and 11-connect: the program on the entry
  of a system call stashes what it saw under the process id, the program on the exit looks the
  stash up, deletes it and reports.

  The locale \<open>entry_exit\<close> states the pattern for any pair of programs that follow it, and proves
  what the pair guarantees: an exit reports the data of the last entry of its process since that
  process's previous exit, and nothing otherwise; a stash left behind is never reported twice.
  The key is the process, not the thread: the order of entries and exits of all threads of a
  process is one sequence here, and two threads in the same call share one stash.
\<close>

datatype ('a, 'b) call = Enter task_ctx 'a | Exit task_ctx 'b

text \<open>The stash a process should have after a sequence of calls.\<close>

definition stash_step :: "(task_ctx \<Rightarrow> 'a \<Rightarrow> 'v option) \<Rightarrow> u32 \<Rightarrow> 'v option \<Rightarrow> ('a, 'b) call \<Rightarrow> 'v option" where
  "stash_step val pid v c =
     (case c of
        Enter t a \<Rightarrow> if cur_pid t = pid then (case val t a of Some w \<Rightarrow> Some w | None \<Rightarrow> v) else v
      | Exit t b \<Rightarrow> if cur_pid t = pid then None else v)"

definition last_enter :: "(task_ctx \<Rightarrow> 'a \<Rightarrow> 'v option) \<Rightarrow> ('a, 'b) call list \<Rightarrow> u32 \<Rightarrow> 'v option" where
  "last_enter val cs pid = foldl (stash_step val pid) None cs"

text \<open>A sequence of calls, as the tracepoints of all processes fire.\<close>

definition call_step ::
  "(task_ctx \<Rightarrow> 'a \<Rightarrow> 's \<Rightarrow> 's) \<Rightarrow> (task_ctx \<Rightarrow> 'b \<Rightarrow> 's \<Rightarrow> 's) \<Rightarrow> 's \<Rightarrow> ('a, 'b) call \<Rightarrow> 's" where
  "call_step enter exit s c = (case c of Enter t a \<Rightarrow> enter t a s | Exit t b \<Rightarrow> exit t b s)"

definition call_run ::
  "(task_ctx \<Rightarrow> 'a \<Rightarrow> 's \<Rightarrow> 's) \<Rightarrow> (task_ctx \<Rightarrow> 'b \<Rightarrow> 's \<Rightarrow> 's) \<Rightarrow> ('a, 'b) call list \<Rightarrow> 's \<Rightarrow> 's" where
  "call_run enter exit cs s = foldl (call_step enter exit) s cs"

locale entry_exit =
  bpf_hash ops + bpf_ringbuf ring
  for ops :: "('m, u32, 'v) map_ops" and ring :: "('r, 'e) ring_ops" +
  fixes val :: "task_ctx \<Rightarrow> 'a \<Rightarrow> 'v option"
    and event :: "task_ctx \<Rightarrow> 'b \<Rightarrow> 'v \<Rightarrow> 'e \<Rightarrow> 'e"
    and enter :: "task_ctx \<Rightarrow> 'a \<Rightarrow> 'm \<times> 'r \<Rightarrow> 'm \<times> 'r"
    and exit :: "task_ctx \<Rightarrow> 'b \<Rightarrow> 'm \<times> 'r \<Rightarrow> 'm \<times> 'r"
  assumes enter_law:
      "enter t a (m, r) =
         (case val t a of None \<Rightarrow> (m, r) | Some v \<Rightarrow> (snd (map_update ops m (cur_pid t) v BPF_ANY), r))"
    and exit_law:
      "exit t b (m, r) =
         (case map_lookup ops m (cur_pid t) of
            None \<Rightarrow> (m, r)
          | Some v \<Rightarrow>
              (map_delete ops m (cur_pid t),
               case rb_reserve ring r of None \<Rightarrow> r | Some (r', slot) \<Rightarrow> rb_submit ring r' (event t b v slot)))"
begin

lemma run_snoc [simp]:
  "call_run enter exit (cs @ [c]) s = call_step enter exit (call_run enter exit cs s) c"
  by (simp add: call_run_def)

lemma last_enter_snoc: "last_enter val (cs @ [c]) pid = stash_step val pid (last_enter val cs pid) c"
  by (simp add: last_enter_def)

text \<open>A stash entry is always the data of the process's last entry since its last exit.\<close>

lemma stash_sound:
  assumes "\<And>p. map_lookup ops m p = None"
  shows "map_lookup ops (fst (call_run enter exit cs (m, r))) pid = Some v \<Longrightarrow> last_enter val cs pid = Some v"
proof (induction cs arbitrary: v rule: rev_induct)
  case Nil
  with assms show ?case by (simp add: call_run_def)
next
  case (snoc c cs)
  obtain m1 r1 where s: "call_run enter exit cs (m, r) = (m1, r1)" by force
  show ?case
  proof (cases c)
    case (Enter t a)
    then show ?thesis
      using snoc.prems snoc.IH s hash_overwrite [of m1 "cur_pid t" v]
      by (auto simp: call_step_def enter_law last_enter_snoc stash_step_def hash_update_cases
          split: option.splits if_splits)
  next
    case (Exit t b)
    then show ?thesis
      using snoc.prems snoc.IH s
      by (auto simp: call_step_def exit_law last_enter_snoc stash_step_def hash_delete
          split: option.splits if_splits)
  qed
qed

text \<open>An exit reports at most once, with that data, and the stash is gone afterwards.\<close>

lemma exit_reports:
  assumes empty: "\<And>p. map_lookup ops m p = None"
    and s: "call_run enter exit cs (m, r) = (m1, r1)" "exit t b (m1, r1) = (m2, r2)"
  shows "map_lookup ops m2 (cur_pid t) = None \<and>
    (rb_records ring r2 = rb_records ring r1 \<or>
     (\<exists>v slot. last_enter val cs (cur_pid t) = Some v \<and>
        rb_records ring r2 = rb_records ring r1 @ [event t b v slot]))"
proof (cases "map_lookup ops m1 (cur_pid t)")
  case None
  with s(2) show ?thesis by (simp add: exit_law)
next
  case (Some v)
  then have "last_enter val cs (cur_pid t) = Some v"
    using stash_sound [OF empty, of cs r "cur_pid t" v] s(1) by simp
  with Some s(2) show ?thesis
    by (auto simp: exit_law hash_delete split: option.splits prod.splits)
qed

text \<open>With room in the map and in the ring, an exit after an entry does report.\<close>

lemma enter_exit_reports:
  assumes "val t a = Some v" "cur_pid t' = cur_pid t" "fst (map_update ops m (cur_pid t) v BPF_ANY) = 0"
    "rb_reserve ring r = Some (r', slot)" "exit t' b (enter t a (m, r)) = (m2, r2)"
  shows "rb_records ring r2 = rb_records ring r @ [event t' b v slot]"
  using assms by (auto simp: enter_law exit_law hash_update_cases)

end

section \<open>10-openat-ret\<close>

definition FNAME_LEN :: nat where "FNAME_LEN = 256"

record entry_t =
  en_flags :: u32
  en_filename :: bytes

record open_event =
  oe_pid :: u32
  oe_uid :: u32
  oe_comm :: bytes
  oe_flags :: u32
  oe_ret :: u64
  oe_filename :: bytes

text \<open>
  \<open>trace_enter\<close>: \<open>args\<close> are the system call's arguments, the file name's address at index 1
  and the flags at index 2. The entry is zeroed first, so a failed read leaves the helper's own
  result for the buffer.
\<close>

definition open_entry :: "probe_ops \<Rightarrow> u64 list \<Rightarrow> entry_t" where
  "open_entry probe args =
     (let e = \<lparr>en_flags = 0, en_filename = replicate FNAME_LEN 0\<rparr>
      in e\<lparr>en_flags := ucast (args ! 2),
           en_filename := snd (probe_read_user_str probe (args ! 1) (en_filename e))\<rparr>)"

definition open_trace_enter ::
  "('m, u32, entry_t) map_ops \<Rightarrow> probe_ops \<Rightarrow> task_ctx \<Rightarrow> u64 list \<Rightarrow> 'm \<times> 'r \<Rightarrow> 'm \<times> 'r" where
  "open_trace_enter ops probe t args s =
     (case s of (stash, ring) \<Rightarrow>
        let pid = cur_pid t; e = open_entry probe args
        in (snd (map_update ops stash pid e BPF_ANY), ring))"

definition open_event_of :: "task_ctx \<Rightarrow> u64 \<Rightarrow> entry_t \<Rightarrow> open_event \<Rightarrow> open_event" where
  "open_event_of t ret ep out =
     out\<lparr>oe_pid := cur_pid t, oe_uid := cur_uid t, oe_comm := t_comm t, oe_flags := en_flags ep,
         oe_ret := ret, oe_filename := en_filename ep\<rparr>"

definition open_trace_exit ::
  "('m, u32, entry_t) map_ops \<Rightarrow> ('r, open_event) ring_ops \<Rightarrow> task_ctx \<Rightarrow> u64 \<Rightarrow> 'm \<times> 'r \<Rightarrow> 'm \<times> 'r" where
  "open_trace_exit ops ring t ret s =
     (case s of (stash, r) \<Rightarrow>
        let pid = cur_pid t in
        (case map_lookup ops stash pid of
           None \<Rightarrow> (stash, r)
         | Some ep \<Rightarrow>
             (case rb_reserve ring r of
                None \<Rightarrow> (map_delete ops stash pid, r)
              | Some (r', out) \<Rightarrow>
                  let out = open_event_of t ret ep out;
                      stash = map_delete ops stash pid
                  in (stash, rb_submit ring r' out))))"

lemma open_entry_exit:
  assumes "bpf_hash ops" "bpf_ringbuf ring"
  shows "entry_exit ops ring (\<lambda>t args. Some (open_entry probe args)) open_event_of
    (open_trace_enter ops probe) (open_trace_exit ops ring)"
proof -
  from assms show ?thesis
    by (auto simp: entry_exit_def entry_exit_axioms_def open_trace_enter_def open_trace_exit_def Let_def
        split: option.splits)
qed

text \<open>
  The loader's side: the open(2) flag values of the Linux ABI, the flag string (an eight-byte
  buffer, so seven characters at most), and the columns of a printed line.
\<close>

definition O_ACCMODE :: u32 where "O_ACCMODE = 3"

definition O_CREAT :: u32 where "O_CREAT = 0x40"

definition O_TRUNC :: u32 where "O_TRUNC = 0x200"

definition decode_flags :: "u32 \<Rightarrow> nat \<Rightarrow> string" where
  "decode_flags flags bufsz =
     (let m = and flags O_ACCMODE;
          acc = if m = 0 then ''r'' else if m = 1 then ''w'' else if m = 2 then ''rw'' else ''?''
      in snprintf_str bufsz
           (acc @ (if and flags O_CREAT \<noteq> 0 then ''c'' else '''')
                @ (if and flags O_TRUNC \<noteq> 0 then ''t'' else '''')))"

record open_line =
  ol_pid :: nat
  ol_uid :: nat
  ol_comm :: bytes
  ol_ret :: int
  ol_flags :: string
  ol_filename :: bytes

definition open_handle_event :: "open_event \<Rightarrow> open_line" where
  "open_handle_event e =
     \<lparr>ol_pid = unat (oe_pid e), ol_uid = unat (oe_uid e), ol_comm = c_str (oe_comm e),
      ol_ret = sint (oe_ret e), ol_flags = decode_flags (oe_flags e) 8,
      ol_filename = c_str (oe_filename e)\<rparr>"

lemma and_bit_neq_0: "and f (2 ^ n) \<noteq> 0 \<longleftrightarrow> bit f n" for f :: u32
  by (simp add: and_exp_eq_0_iff_not_bit)

lemma decode_flags_8:
  "decode_flags f 8 =
     (if and f 3 = 0 then ''r'' else if and f 3 = 1 then ''w'' else if and f 3 = 2 then ''rw'' else ''?'')
       @ (if bit f 6 then ''c'' else '''') @ (if bit f 9 then ''t'' else '''')"
  using and_bit_neq_0 [of f 6] and_bit_neq_0 [of f 9]
  by (simp add: decode_flags_def snprintf_str_def O_ACCMODE_def O_CREAT_def O_TRUNC_def)

section \<open>11-connect\<close>

definition AF_INET :: u16 where "AF_INET = 2"

definition AF_INET6 :: u16 where "AF_INET6 = 10"

record conn_event =
  ce_pid :: u32
  ce_uid :: u32
  ce_comm :: bytes
  ce_family :: u32
  ce_addr4 :: u32
  ce_addr6 :: bytes
  ce_port :: u16
  ce_ret :: u32

text \<open>The 128 bytes at the address, if the address is not null and the family is IP.\<close>

definition conn_entry :: "probe_ops \<Rightarrow> u64 list \<Rightarrow> bytes option" where
  "conn_entry probe args =
     (let uaddr = args ! 1 in
      if uaddr = 0 then None
      else
        let buf = snd (probe_read_user probe uaddr (replicate 128 0));
            family = le16 (buf ! 0) (buf ! 1)
        in if family \<noteq> AF_INET \<and> family \<noteq> AF_INET6 then None else Some buf)"

definition conn_trace_enter ::
  "('m, u32, bytes) map_ops \<Rightarrow> probe_ops \<Rightarrow> task_ctx \<Rightarrow> u64 list \<Rightarrow> 'm \<times> 'r \<Rightarrow> 'm \<times> 'r" where
  "conn_trace_enter ops probe t args s =
     (case s of (stash, r) \<Rightarrow>
        (case conn_entry probe args of
           None \<Rightarrow> (stash, r)
         | Some buf \<Rightarrow> (snd (map_update ops stash (cur_pid t) buf BPF_ANY), r)))"

definition conn_event_of :: "task_ctx \<Rightarrow> u64 \<Rightarrow> bytes \<Rightarrow> conn_event \<Rightarrow> conn_event" where
  "conn_event_of t ret b e =
     (let family = le16 (b ! 0) (b ! 1);
          e = e\<lparr>ce_pid := cur_pid t, ce_uid := cur_uid t, ce_comm := t_comm t, ce_ret := ucast ret,
                ce_family := ucast family\<rparr>
      in if family = AF_INET
         then e\<lparr>ce_port := bswap16 (le16 (b ! 2) (b ! 3)),
                ce_addr4 := bswap32 (le32 (b ! 4) (b ! 5) (b ! 6) (b ! 7))\<rparr>
         else e\<lparr>ce_port := bswap16 (le16 (b ! 2) (b ! 3)), ce_addr6 := take 16 (drop 8 b)\<rparr>)"

definition conn_trace_exit ::
  "('m, u32, bytes) map_ops \<Rightarrow> ('r, conn_event) ring_ops \<Rightarrow> task_ctx \<Rightarrow> u64 \<Rightarrow> 'm \<times> 'r \<Rightarrow> 'm \<times> 'r" where
  "conn_trace_exit ops ring t ret s =
     (case s of (stash, r) \<Rightarrow>
        (case map_lookup ops stash (cur_pid t) of
           None \<Rightarrow> (stash, r)
         | Some saved \<Rightarrow>
             (case rb_reserve ring r of
                None \<Rightarrow> (map_delete ops stash (cur_pid t), r)
              | Some (r', e) \<Rightarrow>
                  let e = conn_event_of t ret saved e;
                      stash = map_delete ops stash (cur_pid t)
                  in (stash, rb_submit ring r' e))))"

lemma conn_entry_exit:
  assumes "bpf_hash ops" "bpf_ringbuf ring"
  shows "entry_exit ops ring (\<lambda>t args. conn_entry probe args) conn_event_of
    (conn_trace_enter ops probe) (conn_trace_exit ops ring)"
proof -
  from assms show ?thesis
    by (auto simp: entry_exit_def entry_exit_axioms_def conn_trace_enter_def conn_trace_exit_def Let_def
        split: option.splits)
qed

text \<open>The loader's side; \<open>inet_ntop\<close> formats the bytes it is given for a family.\<close>

record conn_line =
  cl_pid :: nat
  cl_uid :: nat
  cl_comm :: bytes
  cl_proto :: string
  cl_addr :: string
  cl_port :: nat
  cl_status :: string
  cl_ret :: int

definition conn_status :: "u32 \<Rightarrow> string" where
  "conn_status ret = (if ret = 0 then ''ok'' else if ret = - 115 then ''inprogress'' else ''err'')"

definition conn_handle_event :: "(u16 \<Rightarrow> bytes \<Rightarrow> string) \<Rightarrow> conn_event \<Rightarrow> conn_line" where
  "conn_handle_event inet_ntop e =
     (let addr_str = if ce_family e = ucast AF_INET
                     then inet_ntop AF_INET (bytes_of32 (bswap32 (ce_addr4 e)))
                     else inet_ntop AF_INET6 (ce_addr6 e)
      in \<lparr>cl_pid = unat (ce_pid e), cl_uid = unat (ce_uid e), cl_comm = c_str (ce_comm e),
          cl_proto = (if ce_family e = ucast AF_INET then ''IPv4'' else ''IPv6''),
          cl_addr = addr_str, cl_port = unat (ce_port e),
          cl_status = conn_status (ce_ret e), cl_ret = sint (ce_ret e)\<rparr>)"

interpretation open_model: entry_exit
  "hash_ops :: ((u32, entry_t) amap, u32, entry_t) map_ops" list_ring "\<lambda>t args. Some (open_entry probe args)"
  open_event_of "open_trace_enter hash_ops probe" "open_trace_exit hash_ops list_ring"
  by (rule open_entry_exit) (fact hash_model.bpf_hash_axioms ring_model.bpf_ringbuf_axioms)+

interpretation conn_model: entry_exit
  "hash_ops :: ((u32, bytes) amap, u32, bytes) map_ops" list_ring "\<lambda>t args. conn_entry probe args"
  conn_event_of "conn_trace_enter hash_ops probe" "conn_trace_exit hash_ops list_ring"
  by (rule conn_entry_exit) (fact hash_model.bpf_hash_axioms ring_model.bpf_ringbuf_axioms)+

section \<open>What the pairs report\<close>

text \<open>The memory of a \<open>sockaddr_in\<close> and a \<open>sockaddr_in6\<close>, ports in network byte order.\<close>

definition sockaddr_in :: "u16 \<Rightarrow> bytes \<Rightarrow> bytes" where
  "sockaddr_in port addr = [2, 0, byte_at 1 port, byte_at 0 port] @ addr"

definition sockaddr_in6 :: "u16 \<Rightarrow> bytes \<Rightarrow> bytes \<Rightarrow> bytes" where
  "sockaddr_in6 port flow addr = [10, 0, byte_at 1 port, byte_at 0 port] @ flow @ addr"

lemma list4_eq: "length xs = 4 \<Longrightarrow> \<exists>a b c d. xs = [a, b, c, d]"
  by (auto simp: numeral_eq_Suc length_Suc_conv)

lemma le16_family [simp]: "le16 2 0 = 2" "le16 10 0 = 10"
  by (simp_all add: le16_def)

lemma conn_entry_of:
  assumes "bpf_probe probe mem" "mem_bytes mem (args ! 1) 128 = Some b" "args ! 1 \<noteq> 0"
    "le16 (b ! 0) (b ! 1) = AF_INET \<or> le16 (b ! 0) (b ! 1) = AF_INET6"
  shows "conn_entry probe args = Some b"
  using bpf_probe.read_ok [OF assms(1), of "args ! 1" "replicate 128 0" b] assms(2-4)
  by (auto simp: conn_entry_def)

lemma conn_entry_unreadable:
  assumes "bpf_probe_faults probe mem" "mem_bytes mem (args ! 1) 128 = None"
  shows "conn_entry probe args = None"
  using bpf_probe_faults.read_fault [OF assms(1), of "args ! 1" "replicate 128 0"] assms(2)
  by (simp add: conn_entry_def Let_def le16_def AF_INET_def AF_INET6_def)

lemma conn_handle_ipv4:
  assumes "length addr = 4"
  shows "conn_handle_event ntop (conn_event_of t ret (sockaddr_in port addr @ rest) slot) =
    \<lparr>cl_pid = unat (cur_pid t), cl_uid = unat (cur_uid t), cl_comm = c_str (t_comm t),
     cl_proto = ''IPv4'', cl_addr = ntop AF_INET addr, cl_port = unat port,
     cl_status = conn_status (ucast ret), cl_ret = sint (ucast ret :: u32)\<rparr>"
proof -
  from list4_eq [OF assms] obtain a b c d where "addr = [a, b, c, d]" by auto
  then show ?thesis
    by (simp add: conn_handle_event_def conn_event_of_def sockaddr_in_def AF_INET_def bytes_of32_def Let_def)
qed

lemma conn_handle_ipv6:
  assumes "length flow = 4" "length addr = 16"
  shows "conn_handle_event ntop (conn_event_of t ret (sockaddr_in6 port flow addr @ rest) slot) =
    \<lparr>cl_pid = unat (cur_pid t), cl_uid = unat (cur_uid t), cl_comm = c_str (t_comm t),
     cl_proto = ''IPv6'', cl_addr = ntop AF_INET6 addr, cl_port = unat port,
     cl_status = conn_status (ucast ret), cl_ret = sint (ucast ret :: u32)\<rparr>"
proof -
  from list4_eq [OF assms(1)] obtain a b c d where "flow = [a, b, c, d]" by auto
  with assms(2) show ?thesis
    by (simp add: conn_handle_event_def conn_event_of_def sockaddr_in6_def AF_INET_def AF_INET6_def Let_def)
qed

text \<open>A process, a ring and user memory for the examples: a path at 4096, an address at 8192.\<close>

definition snoop_task :: task_ctx where "snoop_task = mk_task 7 1000 [115, 104, 0] 5"

definition snoop_mem :: "u64 \<Rightarrow> u8 option" where
  "snoop_mem a =
     (if a = 4096 then Some 47 else if a = 4097 then Some 97
      else if a = 8192 then Some 2 else if a = 8195 then Some 80 else if a = 8196 then Some 127
      else if a = 8199 then Some 1 else Some 0)"

definition snoop_ring :: "'e \<Rightarrow> 'e ring" where
  "snoop_ring slot = \<lparr>rg_room = 4, rg_stale = slot, rg_log = []\<rparr>"

lemma mem_bytes_total: "(\<And>a. mem a = Some (f a)) \<Longrightarrow> mem_bytes mem p n = Some (map (\<lambda>i. f (p + of_nat i)) [0..<n])"
proof (induction n arbitrary: p)
  case (Suc n)
  have "map (\<lambda>i. f (p + of_nat i)) [0..<Suc n] = f p # map (\<lambda>i. f (p + 1 + of_nat i)) [0..<n]"
    by (simp add: map_upt_Suc add.assoc del: upt_Suc)
  with Suc show ?case by simp
qed simp

lemma snoop_path: "mem_bytes snoop_mem 4096 3 = Some [47, 97, 0]"
  by (simp add: snoop_mem_def numeral_3_eq_3)

lemma snoop_addr: "mem_bytes snoop_mem 8192 128 = Some (sockaddr_in 80 [127, 0, 0, 1] @ replicate 120 0)"
  by code_simp

text \<open>
  Whatever openat calls the system makes, the exit hook adds at most one record, built
  from the flags and file name of its process's last entry since the process's previous exit,
  with the return value; and it leaves no stash for the process.
\<close>

theorem open_exit_pairs:
  assumes "bpf_hash ops" "bpf_ringbuf ring"
    and "\<And>p. map_lookup ops m p = None"
    and "call_run (open_trace_enter ops probe) (open_trace_exit ops ring) cs (m, r) = (m1, r1)"
    and "open_trace_exit ops ring t ret (m1, r1) = (m2, r2)"
  shows "map_lookup ops m2 (cur_pid t) = None \<and>
    (rb_records ring r2 = rb_records ring r1 \<or>
     (\<exists>e slot. last_enter (\<lambda>t args. Some (open_entry probe args)) cs (cur_pid t) = Some e \<and>
        rb_records ring r2 = rb_records ring r1 @ [open_event_of t ret e slot]))"
  using entry_exit.exit_reports [OF open_entry_exit [OF assms(1,2)] assms(3-5)] .

theorem open_exit_pairs_witness:
  "\<exists>m2 r2.
     open_trace_exit hash_ops list_ring snoop_task 3
       (call_run (open_trace_enter hash_ops (mem_probe snoop_mem)) (open_trace_exit hash_ops list_ring)
          [Enter snoop_task [0, 4096, 0x41]] (amap_empty 4, snoop_ring undefined)) = (m2, r2) \<and>
     map_lookup hash_ops m2 7 = None \<and>
     map (\<lambda>e. (oe_pid e, oe_flags e, oe_ret e)) (rb_records list_ring r2) = [(7, 0x41, 3)]"
proof -
  let ?en = "open_trace_enter hash_ops (mem_probe snoop_mem)"
  let ?s = "call_run ?en (open_trace_exit hash_ops list_ring)
    [Enter snoop_task [0, 4096, 0x41]] (amap_empty 4, snoop_ring undefined)"
  obtain m1 r1 where s: "?s = (m1, r1)" by force
  obtain m2 r2 where x: "open_trace_exit hash_ops list_ring snoop_task 3 (m1, r1) = (m2, r2)" by force
  have log: "rb_records list_ring r1 = []" "rb_records list_ring r2 \<noteq> []"
    using s x by (auto simp: call_run_def call_step_def open_trace_enter_def open_trace_exit_def hash_ops_def
        amap_defs list_ring_defs snoop_ring_def snoop_task_def)
  have "map_lookup hash_ops (amap_empty 4 :: (u32, entry_t) amap) p = None" for p
    by (simp add: hash_ops_def amap_defs)
  from open_exit_pairs [OF hash_model.bpf_hash_axioms ring_model.bpf_ringbuf_axioms this s x] log
  show ?thesis
    using s x by (auto simp: snoop_task_def last_enter_def stash_step_def open_entry_def open_event_of_def)
qed

text \<open>
  The same for connect: at most one record per exit, from the address of the process's
  last IPv4 or IPv6 connect entry, calls on other families leaving no trace.
\<close>

theorem conn_exit_pairs:
  assumes "bpf_hash ops" "bpf_ringbuf ring"
    and "\<And>p. map_lookup ops m p = None"
    and "call_run (conn_trace_enter ops probe) (conn_trace_exit ops ring) cs (m, r) = (m1, r1)"
    and "conn_trace_exit ops ring t ret (m1, r1) = (m2, r2)"
  shows "map_lookup ops m2 (cur_pid t) = None \<and>
    (rb_records ring r2 = rb_records ring r1 \<or>
     (\<exists>b slot. last_enter (\<lambda>t args. conn_entry probe args) cs (cur_pid t) = Some b \<and>
        rb_records ring r2 = rb_records ring r1 @ [conn_event_of t ret b slot]))"
  using entry_exit.exit_reports [OF conn_entry_exit [OF assms(1,2)] assms(3-5)] .

theorem conn_exit_pairs_witness:
  "\<exists>m2 r2 b slot.
     conn_trace_exit hash_ops list_ring snoop_task 0
       (call_run (conn_trace_enter hash_ops (mem_probe snoop_mem)) (conn_trace_exit hash_ops list_ring)
          [Enter snoop_task [3, 8192, 16], Enter (mk_task 9 0 [] 6) [3, 4096, 16]]
          (amap_empty 4, snoop_ring undefined)) = (m2, r2) \<and>
     map_lookup hash_ops m2 7 = None \<and>
     last_enter (\<lambda>t args. conn_entry (mem_probe snoop_mem) args)
       [Enter snoop_task [3, 8192, 16], Enter (mk_task 9 0 [] 6) [3, 4096, 16] :: (_, unit) call] 7 = Some b \<and>
     rb_records list_ring r2 = [conn_event_of snoop_task 0 b slot]"
proof -
  let ?cs = "[Enter snoop_task [3, 8192, 16], Enter (mk_task 9 0 [] 6) [3, 4096, 16]]"
  let ?s = "call_run (conn_trace_enter hash_ops (mem_probe snoop_mem)) (conn_trace_exit hash_ops list_ring)
    ?cs (amap_empty 4, snoop_ring undefined)"
  have en: "conn_entry (mem_probe snoop_mem) [3, 8192, 16] =
      Some (sockaddr_in 80 [127, 0, 0, 1] @ replicate 120 0)"
    by (rule conn_entry_of [OF probe_model.bpf_probe_axioms]) (simp_all add: snoop_addr sockaddr_in_def AF_INET_def)
  have en': "conn_entry (mem_probe snoop_mem) [3, 4096, 16] = None"
    by code_simp
  obtain m1 r1 where s: "?s = (m1, r1)" by force
  obtain m2 r2 where x: "conn_trace_exit hash_ops list_ring snoop_task 0 (m1, r1) = (m2, r2)" by force
  have log: "rb_records list_ring r1 = []" "rb_records list_ring r2 \<noteq> []"
    using s x by (auto simp: call_run_def call_step_def conn_trace_enter_def conn_trace_exit_def en en'
        hash_ops_def amap_defs list_ring_defs snoop_ring_def snoop_task_def)
  have "map_lookup hash_ops (amap_empty 4 :: (u32, bytes) amap) p = None" for p
    by (simp add: hash_ops_def amap_defs)
  from conn_exit_pairs [OF hash_model.bpf_hash_axioms ring_model.bpf_ringbuf_axioms this s x] log
  show ?thesis
    using s x by (auto simp: snoop_task_def last_enter_def stash_step_def en en')
qed

text \<open>
  From the system call to the printed line: an openat of the NUL-terminated path at
  \<open>args[1]\<close>, followed by its exit, prints the path, the decoded flags and the return value,
  under the identity of the process at the exit.
\<close>

theorem open_line_printed:
  assumes "bpf_hash ops" "bpf_ringbuf ring" and pr: "bpf_probe probe mem"
    and path: "mem_bytes mem (args ! 1) (Suc (length path)) = Some (path @ [0])" "0 \<notin> set path"
      "length path < 256"
    and "cur_pid t' = cur_pid t"
    and "fst (map_update ops m (cur_pid t) (open_entry probe args) BPF_ANY) = 0"
    and "rb_reserve ring r = Some (r', slot)"
    and "open_trace_exit ops ring t' ret (open_trace_enter ops probe t args (m, r)) = (m2, r2)"
  shows "map open_handle_event (rb_records ring r2) =
    map open_handle_event (rb_records ring r) @
      [\<lparr>ol_pid = unat (cur_pid t), ol_uid = unat (cur_uid t'), ol_comm = c_str (t_comm t'),
        ol_ret = sint ret,
        ol_flags =
          (let f = ucast (args ! 2) :: u32 in
           (if and f 3 = 0 then ''r'' else if and f 3 = 1 then ''w'' else if and f 3 = 2 then ''rw'' else ''?'')
             @ (if bit f 6 then ''c'' else '''') @ (if bit f 9 then ''t'' else '''')),
        ol_filename = path\<rparr>]"
proof -
  have "rb_records ring r2 = rb_records ring r @ [open_event_of t' ret (open_entry probe args) slot]"
    using entry_exit.enter_exit_reports [OF open_entry_exit [OF assms(1,2)] refl assms(7-10)] .
  moreover have "c_str (en_filename (open_entry probe args)) = path"
    using bpf_probe.read_str_c_str [OF pr path(1,2)] path(3)
    by (simp add: open_entry_def FNAME_LEN_def)
  ultimately show ?thesis
    using assms(7) by (simp add: open_handle_event_def open_event_of_def open_entry_def decode_flags_8)
qed

theorem open_line_printed_witness:
  "\<exists>m2 r2.
     open_trace_exit hash_ops list_ring snoop_task (- 2)
       (open_trace_enter hash_ops (mem_probe snoop_mem) snoop_task [0, 4096, 0x241]
          (amap_empty 4, snoop_ring undefined)) = (m2, r2) \<and>
     map open_handle_event (rb_records list_ring r2) =
       [\<lparr>ol_pid = 7, ol_uid = 1000, ol_comm = [115, 104], ol_ret = - 2, ol_flags = ''wct'',
         ol_filename = [47, 97]\<rparr>]"
proof -
  obtain m2 r2 where run: "open_trace_exit hash_ops list_ring snoop_task (- 2)
       (open_trace_enter hash_ops (mem_probe snoop_mem) snoop_task [0, 4096, 0x241]
          (amap_empty 4, snoop_ring undefined)) = (m2, r2)" by force
  have path: "mem_bytes snoop_mem ([0, 4096, 0x241] ! 1) (Suc (length [47, 97])) = Some ([47, 97] @ [0])"
    using snoop_path by (simp add: eval_nat_numeral)
  have "fst (map_update hash_ops (amap_empty 4) (cur_pid snoop_task)
      (open_entry (mem_probe snoop_mem) [0, 4096, 0x241]) BPF_ANY) = 0"
    by (simp add: hash_ops_def amap_defs)
  moreover have "rb_reserve list_ring (snoop_ring undefined) =
      Some (\<lparr>rg_room = 3, rg_stale = undefined, rg_log = []\<rparr>, undefined)"
    by (simp add: list_ring_defs snoop_ring_def)
  ultimately have "map open_handle_event (rb_records list_ring r2) =
      map open_handle_event (rb_records list_ring (snoop_ring undefined)) @
        [\<lparr>ol_pid = 7, ol_uid = 1000, ol_comm = [115, 104], ol_ret = - 2, ol_flags = ''wct'',
          ol_filename = [47, 97]\<rparr>]"
    using open_line_printed [OF hash_model.bpf_hash_axioms ring_model.bpf_ringbuf_axioms
      probe_model.bpf_probe_axioms path _ _ refl _ _ run]
    by (simp add: snoop_task_def c_str_def bit_numeral_rec)
  with run show ?thesis by (simp add: list_ring_defs snoop_ring_def)
qed

text \<open>
  C14. From the system call to the printed line: a connect to an IPv4 or IPv6 address in user
  memory, followed by its exit, prints that address in the byte order \<open>inet_ntop\<close> wants, the
  port in host order, and the status the return value stands for. The two byte swaps of the
  IPv4 path, in the kernel and in the loader, cancel. This holds when all the 128 bytes from the
  address on can be read, which are more than a \<open>sockaddr_in\<close> or \<open>sockaddr_in6\<close> has: when one of them
  is not mapped, as behind an address at the end of a page, the read fails and the connect is
  not reported, whatever its family.
\<close>

theorem conn_line_printed:
  assumes "bpf_hash ops" "bpf_ringbuf ring" "bpf_probe_faults probe mem"
    and addr: "if six then b = sockaddr_in6 port flow addr @ rest \<and> length flow = 4 \<and> length addr = 16
                else b = sockaddr_in port addr @ rest \<and> length addr = 4"
    and args: "args ! 1 \<noteq> 0" and pid: "cur_pid t' = cur_pid t"
    and run: "conn_trace_exit ops ring t' ret (conn_trace_enter ops probe t args (m, r)) = (m2, r2)"
  shows "(mem_bytes mem (args ! 1) 128 = Some b \<and> fst (map_update ops m (cur_pid t) b BPF_ANY) = 0 \<and>
      rb_reserve ring r = Some (r', slot) \<longrightarrow>
      map (conn_handle_event ntop) (rb_records ring r2) =
      map (conn_handle_event ntop) (rb_records ring r) @
        [\<lparr>cl_pid = unat (cur_pid t), cl_uid = unat (cur_uid t'), cl_comm = c_str (t_comm t'),
          cl_proto = (if six then ''IPv6'' else ''IPv4''),
          cl_addr = ntop (if six then AF_INET6 else AF_INET) addr, cl_port = unat port,
          cl_status = conn_status (ucast ret), cl_ret = sint (ucast ret :: u32)\<rparr>]) \<and>
    (mem_bytes mem (args ! 1) 128 = None \<and> map_lookup ops m (cur_pid t) = None \<longrightarrow>
      rb_records ring r2 = rb_records ring r)"
proof (intro conjI impI)
  assume ok: "mem_bytes mem (args ! 1) 128 = Some b \<and> fst (map_update ops m (cur_pid t) b BPF_ANY) = 0 \<and>
    rb_reserve ring r = Some (r', slot)"
  have "conn_entry probe args = Some b"
    using conn_entry_of [OF bpf_probe_faults.axioms(1) [OF assms(3)] conjunct1 [OF ok] args] addr
    by (auto simp: sockaddr_in_def sockaddr_in6_def AF_INET_def AF_INET6_def split: if_splits)
  then have "rb_records ring r2 = rb_records ring r @ [conn_event_of t' ret b slot]"
    using entry_exit.enter_exit_reports [OF conn_entry_exit [OF assms(1,2)] _ pid _ _ run] ok by simp
  with addr pid show "map (conn_handle_event ntop) (rb_records ring r2) =
      map (conn_handle_event ntop) (rb_records ring r) @
        [\<lparr>cl_pid = unat (cur_pid t), cl_uid = unat (cur_uid t'), cl_comm = c_str (t_comm t'),
          cl_proto = (if six then ''IPv6'' else ''IPv4''),
          cl_addr = ntop (if six then AF_INET6 else AF_INET) addr, cl_port = unat port,
          cl_status = conn_status (ucast ret), cl_ret = sint (ucast ret :: u32)\<rparr>]"
    by (auto simp: conn_handle_ipv4 conn_handle_ipv6 split: if_splits)
next
  assume "mem_bytes mem (args ! 1) 128 = None \<and> map_lookup ops m (cur_pid t) = None"
  with conn_entry_unreadable [OF assms(3)] run pid show "rb_records ring r2 = rb_records ring r"
    by (auto simp: conn_trace_enter_def conn_trace_exit_def Let_def)
qed

text \<open>The same address with only its 16 bytes mapped.\<close>

definition short_mem :: "u64 \<Rightarrow> u8 option" where
  "short_mem a = (if 8192 \<le> a \<and> a < 8208 then snoop_mem a else None)"

lemma short_addr: "mem_bytes short_mem 8192 128 = None"
  by code_simp

theorem conn_line_printed_witness:
  "\<exists>m2 r2 m3 r3.
     conn_trace_exit hash_ops list_ring snoop_task (- 115)
       (conn_trace_enter hash_ops (mem_probe snoop_mem) snoop_task [3, 8192, 16]
          (amap_empty 4, snoop_ring undefined)) = (m2, r2) \<and>
     map (conn_handle_event (\<lambda>f bs. if bs = [127, 0, 0, 1] then ''lo'' else ''?'')) (rb_records list_ring r2) =
       [\<lparr>cl_pid = 7, cl_uid = 1000, cl_comm = [115, 104], cl_proto = ''IPv4'', cl_addr = ''lo'', cl_port = 80,
         cl_status = ''inprogress'', cl_ret = - 115\<rparr>] \<and>
     conn_trace_exit hash_ops list_ring snoop_task (- 115)
       (conn_trace_enter hash_ops (mem_probe short_mem) snoop_task [3, 8192, 16]
          (amap_empty 4, snoop_ring undefined)) = (m3, r3) \<and>
     rb_records list_ring r3 = []"
proof -
  let ?b = "sockaddr_in 80 [127, 0, 0, 1] @ replicate 120 0"
  obtain m2 r2 where run: "conn_trace_exit hash_ops list_ring snoop_task (- 115)
       (conn_trace_enter hash_ops (mem_probe snoop_mem) snoop_task [3, 8192, 16]
          (amap_empty 4, snoop_ring undefined)) = (m2, r2)" by force
  obtain m3 r3 where run': "conn_trace_exit hash_ops list_ring snoop_task (- 115)
       (conn_trace_enter hash_ops (mem_probe short_mem) snoop_task [3, 8192, 16]
          (amap_empty 4, snoop_ring undefined)) = (m3, r3)" by force
  have room: "fst (map_update hash_ops (amap_empty 4) (cur_pid snoop_task) ?b BPF_ANY) = 0"
    by (simp add: hash_ops_def amap_defs)
  have slot: "rb_reserve list_ring (snoop_ring undefined) =
      Some (\<lparr>rg_room = 3, rg_stale = undefined, rg_log = []\<rparr>, undefined)"
    by (simp add: list_ring_defs snoop_ring_def)
  have "rb_records list_ring r3 = []"
    using conn_line_printed [OF hash_model.bpf_hash_axioms ring_model.bpf_ringbuf_axioms
      probe_fault_model.bpf_probe_faults_axioms _ _ refl run', where six = False and b = ?b and port = 80
        and addr = "[127, 0, 0, 1]"]
    by (simp add: short_addr hash_ops_def list_ring_defs snoop_ring_def)
  moreover have "map (conn_handle_event (\<lambda>f bs. if bs = [127, 0, 0, 1] then ''lo'' else ''?'')) (rb_records list_ring r2) =
       [\<lparr>cl_pid = 7, cl_uid = 1000, cl_comm = [115, 104], cl_proto = ''IPv4'', cl_addr = ''lo'', cl_port = 80,
         cl_status = ''inprogress'', cl_ret = - 115\<rparr>]"
    using conn_line_printed [OF hash_model.bpf_hash_axioms ring_model.bpf_ringbuf_axioms
      probe_fault_model.bpf_probe_faults_axioms _ _ refl run, where six = False and b = ?b and port = 80
        and addr = "[127, 0, 0, 1]" and ntop = "\<lambda>f bs. if bs = [127, 0, 0, 1] then ''lo'' else ''?''"] room slot
    by (simp add: snoop_addr snoop_task_def conn_status_def c_str_def list_ring_defs snoop_ring_def)
  ultimately show ?thesis
    using run run' by (intro exI [of _ m2] exI [of _ r2] exI [of _ m3] exI [of _ r3] conjI)
qed

end
