(* ===== verification/Doubles.thy ===== *)
theory Doubles
  imports Bpf_Prelude
begin

text \<open>
  The arithmetic of the user-space programs that compute with \<open>double\<close> (the beacon rule of
  \<open>23-ids/ids.c\<close>, the rates of \<open>27-nettop/nettop.c\<close>, the columns of \<open>12-tcpstates\<close> and
  \<open>13-tcplife\<close>): a record of the operations they use. Theorems that do not depend on rounding are
  proved for every such record, hence for IEEE doubles. A theorem that does depend on it is
  proved for every rounding of the exact results that satisfies the laws of the locale
  \<open>rounding\<close>, which IEEE binary64 does with its default rounding; \<open>binary64\<close> is that rounding,
  overflow to infinity left out. \<open>real_fp\<close>, exact arithmetic, serves the examples.
\<close>

record 'd fp_ops =
  fp_of_u64 :: "u64 \<Rightarrow> 'd"
  fp_of_int :: "int \<Rightarrow> 'd"
  fp_lit :: "rat \<Rightarrow> 'd"
  fp_add :: "'d \<Rightarrow> 'd \<Rightarrow> 'd"
  fp_sub :: "'d \<Rightarrow> 'd \<Rightarrow> 'd"
  fp_mul :: "'d \<Rightarrow> 'd \<Rightarrow> 'd"
  fp_div :: "'d \<Rightarrow> 'd \<Rightarrow> 'd"
  fp_sqrt :: "'d \<Rightarrow> 'd"
  fp_lt :: "'d \<Rightarrow> 'd \<Rightarrow> bool"
  fp_le :: "'d \<Rightarrow> 'd \<Rightarrow> bool"

definition real_fp :: "real fp_ops" where
  "real_fp =
     \<lparr>fp_of_u64 = (\<lambda>w. real (unat w)), fp_of_int = real_of_int, fp_lit = of_rat,
      fp_add = (+), fp_sub = (-), fp_mul = (*), fp_div = (/), fp_sqrt = sqrt, fp_lt = (<), fp_le = (\<le>)\<rparr>"

section \<open>Rounded arithmetic\<close>

text \<open>Every operation rounds its exact result; comparisons are exact.\<close>

definition rounded_fp :: "(real \<Rightarrow> real) \<Rightarrow> real fp_ops" where
  "rounded_fp rnd =
     \<lparr>fp_of_u64 = (\<lambda>w. rnd (real (unat w))), fp_of_int = (\<lambda>n. rnd (real_of_int n)), fp_lit = (\<lambda>q. rnd (of_rat q)),
      fp_add = (\<lambda>a b. rnd (a + b)), fp_sub = (\<lambda>a b. rnd (a - b)), fp_mul = (\<lambda>a b. rnd (a * b)),
      fp_div = (\<lambda>a b. rnd (a / b)), fp_sqrt = (\<lambda>a. rnd (sqrt a)), fp_lt = (<), fp_le = (\<le>)\<rparr>"

text \<open>
  What IEEE 754 promises of binary64 in the range where nothing overflows: a relative error of at
  most \<open>2 ^ - 53\<close>, an absolute one of at most \<open>2 ^ - 1075\<close> where the result is subnormal, and
  integers up to \<open>2 ^ 53\<close> are exact.
\<close>

locale rounding =
  fixes rnd :: "real \<Rightarrow> real"
  assumes rnd_err: "\<bar>x\<bar> \<le> 2 ^ 1000 \<Longrightarrow> \<bar>rnd x - x\<bar> \<le> \<bar>x\<bar> / 2 ^ 53 + 1 / 2 ^ 1075"
    and rnd_int: "\<bar>n\<bar> \<le> 2 ^ 53 \<Longrightarrow> rnd (of_int n) = of_int n"
begin

lemma rnd_small: "\<bar>x\<bar> \<le> 10 ^ 6 \<Longrightarrow> \<bar>rnd x - x\<bar> \<le> \<bar>x\<bar> / 10 ^ 15 + 1 / 10 ^ 300"
proof -
  assume x: "\<bar>x\<bar> \<le> 10 ^ 6"
  have "(10 :: real) ^ 6 \<le> 2 ^ 20" by simp
  also have "\<dots> \<le> 2 ^ 1000" by (rule power_increasing) simp_all
  finally have "\<bar>rnd x - x\<bar> \<le> \<bar>x\<bar> / 2 ^ 53 + 1 / 2 ^ 1075"
    using x by (intro rnd_err) linarith
  moreover have "\<bar>x\<bar> / 2 ^ 53 \<le> \<bar>x\<bar> / 10 ^ 15"
    by (rule divide_left_mono) simp_all
  moreover have "(10 :: real) ^ 300 \<le> 2 ^ 1075"
    by simp
  then have "1 / 2 ^ 1075 \<le> 1 / (10 :: real) ^ 300"
    by (intro divide_left_mono) simp_all
  ultimately show ?thesis by linarith
qed

text \<open>Away from zero the error is relative.\<close>

lemma rnd_rel: "1 / 2 \<le> x \<Longrightarrow> x \<le> 10 ^ 6 \<Longrightarrow> \<bar>rnd x - x\<bar> \<le> 2 * x / 10 ^ 15"
proof -
  assume x: "1 / 2 \<le> x" "x \<le> 10 ^ 6"
  have "1 / (10 :: real) ^ 300 \<le> 1 / 10 ^ 16"
    by (intro divide_left_mono power_increasing) simp_all
  with rnd_small [of x] x show ?thesis by simp
qed

lemma rnd_zero [simp]: "rnd 0 = 0"
  using rnd_int [of 0] by simp

lemma rnd_one [simp]: "rnd 1 = 1"
  using rnd_int [of 1] by simp

lemma rnd_numeral: "numeral k \<le> (2 ^ 53 :: int) \<Longrightarrow> rnd (numeral k) = numeral k"
  using rnd_int [of "numeral k"] by simp

end

section \<open>Binary64\<close>

text \<open>To the nearest integer, ties to the even one.\<close>

definition round_even :: "real \<Rightarrow> int" where
  "round_even y =
     (let f = \<lfloor>y\<rfloor> in if y - of_int f < 1 / 2 \<or> (y - of_int f = 1 / 2 \<and> even f) then f else f + 1)"

text \<open>The exponent of the last place of a significand of 53 bits, subnormals included.\<close>

definition exp64 :: "real \<Rightarrow> int" where
  "exp64 x = max (\<lfloor>log 2 \<bar>x\<bar>\<rfloor> - 52) (- 1074)"

definition binary64 :: "real \<Rightarrow> real" where
  "binary64 x = (if x = 0 then 0 else of_int (round_even (x / 2 powr exp64 x)) * 2 powr exp64 x)"

lemma round_even_err: "\<bar>of_int (round_even y) - y\<bar> \<le> 1 / 2"
  using floor_correct [of y] by (auto simp: round_even_def Let_def abs_le_iff)

lemma round_even_int [simp]: "round_even (of_int n) = n"
  by (simp add: round_even_def)

lemma binary64_err: "\<bar>binary64 x - x\<bar> \<le> \<bar>x\<bar> / 2 ^ 53 + 1 / 2 ^ 1075"
proof (cases "x = 0")
  case False
  let ?p = "2 powr exp64 x"
  have p: "0 < ?p" by simp
  have "binary64 x - x = (of_int (round_even (x / ?p)) - x / ?p) * ?p"
    using False p by (simp add: binary64_def algebra_simps)
  then have "\<bar>binary64 x - x\<bar> = \<bar>of_int (round_even (x / ?p)) - x / ?p\<bar> * ?p"
    using p by (simp add: abs_mult)
  also have "\<dots> \<le> 1 / 2 * ?p"
    using round_even_err [of "x / ?p"] p by (intro mult_right_mono) simp_all
  finally have err: "\<bar>binary64 x - x\<bar> \<le> ?p / 2" by simp
  show ?thesis
  proof (cases "exp64 x = - 1074")
    case True
    then have "?p / 2 = 1 / 2 ^ 1075"
      by (simp add: powr_minus powr_realpow [symmetric] field_simps flip: powr_numeral)
    moreover have "0 \<le> \<bar>x\<bar> / 2 ^ 53" by simp
    ultimately show ?thesis using err by linarith
  next
    case 2: False
    then have "real_of_int (exp64 x) \<le> log 2 \<bar>x\<bar> - 52"
      by (auto simp: exp64_def max_def split: if_splits)
    then have "?p \<le> 2 powr (log 2 \<bar>x\<bar> - 52)"
      by (intro powr_mono) simp_all
    also have "\<dots> = \<bar>x\<bar> / 2 ^ 52"
      using False by (simp add: powr_diff)
    finally have "?p / 2 \<le> \<bar>x\<bar> / 2 ^ 53" by simp
    moreover have "0 \<le> 1 / (2 :: real) ^ 1075" by simp
    ultimately show ?thesis using err by linarith
  qed
qed (simp add: binary64_def)

lemma binary64_int:
  assumes "\<bar>n\<bar> \<le> 2 ^ 53"
  shows "binary64 (of_int n) = of_int n"
proof (cases "n = 0")
  case False
  let ?e = "exp64 (of_int n)"
  have "binary64 (of_int n) = of_int n" if k: "of_int n / 2 powr ?e = of_int k" for k :: int
    using False that by (simp add: binary64_def k) (simp flip: k)
  moreover have "\<exists>k :: int. of_int n / 2 powr ?e = of_int k"
  proof (cases "?e \<le> 0")
    case True
    then have "of_int n / 2 powr ?e = (of_int (n * 2 ^ nat (- ?e)) :: real)"
      by (simp add: powr_minus_divide [symmetric] powr_realpow [symmetric] divide_powr_uminus)
    then show ?thesis by blast
  next
    case e: False
    have "2 ^ 53 \<le> \<bar>n\<bar>"
    proof -
      have "53 \<le> \<lfloor>log 2 \<bar>of_int n\<bar>\<rfloor>" using e by (simp add: exp64_def max_def split: if_splits)
      then have "53 \<le> log 2 \<bar>of_int n\<bar>" by (simp add: le_floor_iff)
      then have "2 powr 53 \<le> \<bar>of_int n :: real\<bar>"
        using False by (simp add: le_log_iff)
      then have "(of_int (2 ^ 53) :: real) \<le> of_int \<bar>n\<bar>" by simp
      then show ?thesis by (simp only: of_int_le_iff)
    qed
    with assms have n: "n = 2 ^ 53 \<or> n = - (2 ^ 53)" by linarith
    then have "\<bar>real_of_int n\<bar> = 2 powr 53" by auto
    then have "log 2 \<bar>real_of_int n\<bar> = 53" by (simp only: log_powr_cancel)
    then have "?e = 1" by (simp add: exp64_def)
    with n have "of_int n / 2 powr ?e = (of_int (n div 2) :: real)" by auto
    then show ?thesis by blast
  qed
  ultimately show ?thesis by blast
qed (simp add: binary64_def)

interpretation ieee: rounding binary64
  by unfold_locales (rule binary64_err, erule binary64_int)

end
