(* ===== verification/Tcp_States.thy ===== *)
theory Tcp_States
  imports Bpf_Maps Bpf_Helpers Doubles
begin

text \<open>
  12-tcpstates: the kprobe on \<open>tcp_set_state\<close> reports every transition of an IPv4 or IPv6
  socket, with the time the socket spent in the state it leaves, and \<open>tcpstates.c\<close> prints the
  line. The time comes from an LRU map from socket to the clock at its previous transition, an
  entry that CLOSE removes.

  The theorems show that a reported time is always the time since the socket's own previous
  transition of the same life, whatever the LRU map evicted (then the column is blank), and
  that the handshake latency on the line into ESTABLISHED is, until the division that prints it,
  exact, whatever other sockets do during the handshake.
\<close>

section \<open>The kernel side\<close>

definition AF_INET :: u16 where "AF_INET = 2"

definition AF_INET6 :: u16 where "AF_INET6 = 10"

text \<open>The states of the kernel's enumeration the programs name; \<open>state\<close> is a C \<open>int\<close>.\<close>

definition TCP_ESTABLISHED :: int where "TCP_ESTABLISHED = 1"

definition TCP_SYN_SENT :: int where "TCP_SYN_SENT = 2"

definition TCP_FIN_WAIT1 :: int where "TCP_FIN_WAIT1 = 4"

definition TCP_CLOSE :: int where "TCP_CLOSE = 7"

definition TCP_LAST_ACK :: int where "TCP_LAST_ACK = 9"

lemmas tcp_state_defs = TCP_ESTABLISHED_def TCP_SYN_SENT_def TCP_FIN_WAIT1_def TCP_CLOSE_def TCP_LAST_ACK_def

text \<open>
  What the programs read of a \<open>struct sock\<close> and the \<open>struct tcp_sock\<close> around it. Remote port
  and addresses are in network byte order; an IPv4 address is a word of the host's memory.
\<close>

record tcp_sock =
  sk_addr :: u64
  skc_family :: u16
  skc_state :: u8
  skc_num :: u16
  skc_dport :: u16
  skc_rcv_saddr :: u32
  skc_daddr :: u32
  skc_v6_rcv_saddr :: bytes
  skc_v6_daddr :: bytes
  bytes_acked :: u64
  bytes_received :: u64
  total_retrans :: u32
  srtt_us :: u32

definition ip_sock :: "tcp_sock \<Rightarrow> bool" where
  "ip_sock sk \<longleftrightarrow> skc_family sk = AF_INET \<or> skc_family sk = AF_INET6"

record state_event =
  se_skaddr :: u64
  se_span_us :: u64
  se_pid :: u32
  se_oldstate :: int
  se_newstate :: int
  se_family :: u16
  se_sport :: u16
  se_dport :: u16
  se_has_span :: u8
  se_saddr :: bytes
  se_daddr :: bytes
  se_comm :: bytes

text \<open>The address bytes of a socket, as both programs copy them into a 16-byte array.\<close>

definition copy_saddr :: "tcp_sock \<Rightarrow> bytes \<Rightarrow> bytes" where
  "copy_saddr sk dst =
     (if skc_family sk = AF_INET then mem_write 0 (bytes_of32 (skc_rcv_saddr sk)) dst
      else mem_write 0 (skc_v6_rcv_saddr sk) dst)"

definition copy_daddr :: "tcp_sock \<Rightarrow> bytes \<Rightarrow> bytes" where
  "copy_daddr sk dst =
     (if skc_family sk = AF_INET then mem_write 0 (bytes_of32 (skc_daddr sk)) dst
      else mem_write 0 (skc_v6_daddr sk) dst)"

text \<open>Filling the reserved slot \<open>e\<close>; \<open>prev\<close> is the previous time stamp, if there is one.\<close>

definition state_fill :: "task_ctx \<Rightarrow> tcp_sock \<Rightarrow> int \<Rightarrow> u64 option \<Rightarrow> state_event \<Rightarrow> state_event" where
  "state_fill t sk state prev e =
     (let now = t_ktime t;
          (span_us, has_span) = (case prev of None \<Rightarrow> (0, 0) | Some p \<Rightarrow> ((now - p) div 1000, 1))
      in e\<lparr>se_skaddr := sk_addr sk, se_span_us := span_us, se_has_span := has_span,
           se_pid := cur_pid t, se_family := skc_family sk, se_oldstate := uint (skc_state sk),
           se_newstate := state, se_sport := skc_num sk, se_dport := bswap16 (skc_dport sk),
           se_comm := t_comm t, se_saddr := copy_saddr sk (se_saddr e),
           se_daddr := copy_daddr sk (se_daddr e)\<rparr>)"

definition states_handle_set_state ::
  "('m, u64, u64) map_ops \<Rightarrow> ('r, state_event) ring_ops \<Rightarrow> task_ctx \<Rightarrow> tcp_sock \<Rightarrow> int \<Rightarrow> 'm \<times> 'r \<Rightarrow> 'm \<times> 'r" where
  "states_handle_set_state ops ring t sk state s =
     (case s of (timestamps, events) \<Rightarrow>
        if skc_family sk \<noteq> AF_INET \<and> skc_family sk \<noteq> AF_INET6 then (timestamps, events)
        else
          let id = sk_addr sk; now = t_ktime t;
              prev = map_lookup ops timestamps id;
              timestamps = (if state = TCP_CLOSE then map_delete ops timestamps id
                            else snd (map_update ops timestamps id now BPF_ANY))
          in (case rb_reserve ring events of
                None \<Rightarrow> (timestamps, events)
              | Some (events, e) \<Rightarrow> (timestamps, rb_submit ring events (state_fill t sk state prev e))))"

section \<open>The loader\<close>

definition tcp_state_name :: "int \<Rightarrow> string" where
  "tcp_state_name s =
     (let names = ['''', ''ESTABLISHED'', ''SYN_SENT'', ''SYN_RECV'', ''FIN_WAIT1'', ''FIN_WAIT2'',
                   ''TIME_WAIT'', ''CLOSE'', ''CLOSE_WAIT'', ''LAST_ACK'', ''LISTEN'', ''CLOSING'',
                   ''NEW_SYN_RECV'', ''BOUND_INACTIVE'']
      in if 1 \<le> s \<and> s \<le> 13 then names ! nat s else ''?'')"

definition fmt_endpoint :: "(u16 \<Rightarrow> bytes \<Rightarrow> string) \<Rightarrow> nat \<Rightarrow> u16 \<Rightarrow> bytes \<Rightarrow> u16 \<Rightarrow> string" where
  "fmt_endpoint inet_ntop buflen family addr port =
     (let ip = inet_ntop family addr in
      if family = AF_INET6 then snprintf_str buflen (''['' @ ip @ '']:'' @ c_dec (unat port))
      else snprintf_str buflen (ip @ '':'' @ c_dec (unat port)))"

text \<open>
  \<open>inet_ntop\<close> reads four bytes of the array for IPv4 and sixteen for IPv6: the array's bytes
  are cut to that before they are handed to it.
\<close>

definition addr_bytes :: "u16 \<Rightarrow> bytes \<Rightarrow> bytes" where
  "addr_bytes family addr = take (if family = AF_INET then 4 else 16) addr"

record 'd state_line =
  sl_skaddr :: u64
  sl_pid :: nat
  sl_comm :: bytes
  sl_af :: string
  sl_src :: string
  sl_dst :: string
  sl_old :: string
  sl_new :: string
  sl_ms :: "'d option"

definition states_handle_event ::
  "'d fp_ops \<Rightarrow> (u16 \<Rightarrow> bytes \<Rightarrow> string) \<Rightarrow> state_event \<Rightarrow> 'd state_line" where
  "states_handle_event fp inet_ntop e =
     \<lparr>sl_skaddr = se_skaddr e, sl_pid = unat (se_pid e), sl_comm = c_str (se_comm e),
      sl_af = (if se_family e = AF_INET then ''IPv4'' else ''IPv6''),
      sl_src = fmt_endpoint inet_ntop 56 (se_family e) (addr_bytes (se_family e) (se_saddr e)) (se_sport e),
      sl_dst = fmt_endpoint inet_ntop 56 (se_family e) (addr_bytes (se_family e) (se_daddr e)) (se_dport e),
      sl_old = tcp_state_name (se_oldstate e), sl_new = tcp_state_name (se_newstate e),
      sl_ms = (if se_has_span e \<noteq> 0
               then Some (fp_div fp (fp_of_u64 fp (se_span_us e)) (fp_lit fp 1000)) else None)\<rparr>"

text \<open>An endpoint always fits its buffer: the port is at most five digits, the address 45.\<close>

lemma fmt_endpoint_fits:
  assumes "length (inet_ntop family addr) \<le> 45"
  shows "fmt_endpoint inet_ntop 56 family addr port =
    (if family = AF_INET6 then ''['' @ inet_ntop family addr @ '']:'' else inet_ntop family addr @ '':'')
      @ c_dec (unat port)"
proof -
  have "unat port < 2 ^ LENGTH(16)"
    by (rule unsigned_less)
  then have "unat port < 10 ^ 5" by simp
  then have "length (c_dec (unat port)) \<le> 5"
    by (rule length_c_dec) simp
  with assms show ?thesis
    by (auto simp: fmt_endpoint_def snprintf_str_def Let_def)
qed

section \<open>What a reported time is\<close>

type_synonym set_state = "task_ctx \<times> tcp_sock \<times> int"

definition states_run ::
  "('m, u64, u64) map_ops \<Rightarrow> ('r, state_event) ring_ops \<Rightarrow> set_state list \<Rightarrow> 'm \<times> 'r \<Rightarrow> 'm \<times> 'r" where
  "states_run ops ring evs s = foldl (\<lambda>s (t, sk, state). states_handle_set_state ops ring t sk state s) s evs"

text \<open>The time of a socket's previous transition, if it has not been closed since.\<close>

definition stamp_step :: "u64 \<Rightarrow> u64 option \<Rightarrow> set_state \<Rightarrow> u64 option" where
  "stamp_step sid p c =
     (case c of (t, sk, state) \<Rightarrow>
        if ip_sock sk \<and> sk_addr sk = sid then if state = TCP_CLOSE then None else Some (t_ktime t) else p)"

definition last_stamp :: "set_state list \<Rightarrow> u64 \<Rightarrow> u64 option" where
  "last_stamp evs sid = foldl (stamp_step sid) None evs"

lemma last_stamp_snoc: "last_stamp (evs @ [c]) sid = stamp_step sid (last_stamp evs sid) c"
  by (simp add: last_stamp_def)

text \<open>
  What an LRU map may spoil: \<open>look\<close> reads the entry of one socket after a run of calls, and no call
  for another socket makes the map drop it.
\<close>

definition stays :: "('s \<Rightarrow> 'v option) \<Rightarrow> (set_state list \<Rightarrow> 's) \<Rightarrow> u64 \<Rightarrow> set_state list \<Rightarrow> bool" where
  "stays look run sid evs \<longleftrightarrow>
     (\<forall>k < length evs. sk_addr (fst (snd (evs ! k))) \<noteq> sid \<longrightarrow> look (run (take k evs)) \<noteq> None \<longrightarrow>
        look (run (take (Suc k) evs)) \<noteq> None)"

lemma stays_snoc:
  "stays look run sid (evs @ [(t, sk, state)]) \<longleftrightarrow>
     stays look run sid evs \<and>
     (sk_addr sk = sid \<or> look (run evs) = None \<or> look (run (evs @ [(t, sk, state)])) \<noteq> None)"
  by (auto simp: stays_def less_Suc_eq nth_append)

text \<open>The bytes of a socket's two addresses.\<close>

definition sock_saddr :: "tcp_sock \<Rightarrow> bytes" where
  "sock_saddr sk = (if skc_family sk = AF_INET then bytes_of32 (skc_rcv_saddr sk) else skc_v6_rcv_saddr sk)"

definition sock_daddr :: "tcp_sock \<Rightarrow> bytes" where
  "sock_daddr sk = (if skc_family sk = AF_INET then bytes_of32 (skc_daddr sk) else skc_v6_daddr sk)"

definition v6_sized :: "tcp_sock \<Rightarrow> bool" where
  "v6_sized sk \<longleftrightarrow> length (skc_v6_rcv_saddr sk) = 16 \<and> length (skc_v6_daddr sk) = 16"

text \<open>The stale bytes of a ring slot do not reach what \<open>inet_ntop\<close> is given.\<close>

lemma addr_bytes_copy:
  assumes "v6_sized sk" "length dst = 16"
  shows "addr_bytes (skc_family sk) (copy_saddr sk dst) = sock_saddr sk"
    "addr_bytes (skc_family sk) (copy_daddr sk dst) = sock_daddr sk"
  using assms by (auto simp: v6_sized_def addr_bytes_def copy_saddr_def copy_daddr_def sock_saddr_def sock_daddr_def mem_write_def)

locale tcp_stamps = bpf_lru ops + bpf_ringbuf ring
  for ops :: "('m, u64, u64) map_ops" and ring :: "('r, state_event) ring_ops"
begin

lemma run_snoc [simp]:
  "states_run ops ring (evs @ [(t, sk, state)]) s = states_handle_set_state ops ring t sk state (states_run ops ring evs s)"
  by (simp add: states_run_def)

lemma stamps_after:
  "fst (states_handle_set_state ops ring t sk state (m, r)) =
     (if ip_sock sk
      then if state = TCP_CLOSE then map_delete ops m (sk_addr sk)
           else snd (map_update ops m (sk_addr sk) (t_ktime t) BPF_ANY)
      else m)"
  by (auto simp: states_handle_set_state_def ip_sock_def Let_def split: option.splits)

text \<open>An entry of the map is always the time of the socket's previous transition.\<close>

lemma stamp_sound:
  assumes "\<And>i. map_lookup ops m i = None"
  shows "map_lookup ops (fst (states_run ops ring evs (m, r))) sid = Some p \<Longrightarrow> last_stamp evs sid = Some p"
proof (induction evs arbitrary: p rule: rev_induct)
  case Nil
  with assms show ?case by (simp add: states_run_def)
next
  case (snoc c evs)
  obtain t sk state where c: "c = (t, sk, state)" by (metis prod_cases3)
  obtain m1 r1 where s: "states_run ops ring evs (m, r) = (m1, r1)" by force
  have keep: "map_lookup ops m1 sid = Some p" if "\<not> (ip_sock sk \<and> sk_addr sk = sid)"
    using snoc.prems that other_after_update [of sid "sk_addr sk" m1 "t_ktime t" BPF_ANY p]
    by (auto simp: c s stamps_after lookup_delete split: if_splits)
  show ?case
  proof (cases "ip_sock sk \<and> sk_addr sk = sid")
    case True
    with snoc.prems show ?thesis
      by (auto simp: c s stamps_after last_stamp_snoc stamp_step_def split: if_splits)
  next
    case False
    with keep snoc.IH s show ?thesis
      by (auto simp: c last_stamp_snoc stamp_step_def)
  qed
qed

text \<open>While no call for another socket drops it, the entry is there.\<close>

lemma stamp_kept:
  assumes "\<And>i. map_lookup ops m i = None"
    and "stays (\<lambda>s. map_lookup ops (fst s) sid) (\<lambda>evs. states_run ops ring evs (m, r)) sid evs"
  shows "map_lookup ops (fst (states_run ops ring evs (m, r))) sid = last_stamp evs sid"
  using assms(2)
proof (induction evs rule: rev_induct)
  case Nil
  with assms(1) show ?case by (simp add: states_run_def last_stamp_def)
next
  case (snoc c evs)
  obtain t sk state where c: "c = (t, sk, state)" by (metis prod_cases3)
  obtain m1 r1 where s: "states_run ops ring evs (m, r) = (m1, r1)" by force
  with snoc.IH snoc.prems have IH: "map_lookup ops m1 sid = last_stamp evs sid"
    by (simp add: c stays_snoc)
  let ?l = "map_lookup ops (fst (states_run ops ring (evs @ [c]) (m, r))) sid"
  have "?l = map_lookup ops m1 sid" if "sk_addr sk \<noteq> sid"
  proof -
    have "map_lookup ops m1 sid = Some p" if "?l = Some p" for p
      using that \<open>sk_addr sk \<noteq> sid\<close> other_after_update [of sid "sk_addr sk" m1 "t_ktime t" BPF_ANY p]
      by (auto simp: c s stamps_after lookup_delete split: if_splits)
    moreover have "map_lookup ops m1 sid = None \<or> ?l \<noteq> None"
      using snoc.prems that s by (simp add: c stays_snoc)
    ultimately show ?thesis by (cases ?l) auto
  qed
  with IH s show ?case
    by (cases "sk_addr sk = sid") (auto simp: c stamps_after last_stamp_snoc stamp_step_def)
qed

lemma states_records:
  assumes "states_handle_set_state ops ring t sk state (m, r) = (m', r')"
  shows "rb_records ring r' = rb_records ring r \<or>
    (ip_sock sk \<and> (\<exists>slot. rb_records ring r' =
       rb_records ring r @ [state_fill t sk state (map_lookup ops m (sk_addr sk)) slot]))"
  using assms by (auto simp: states_handle_set_state_def ip_sock_def Let_def split: option.splits if_splits)

lemma states_records_room:
  assumes "states_handle_set_state ops ring t sk state (m, r) = (m', r')" "ip_sock sk"
    "rb_reserve ring r = Some (r1, slot)"
  shows "rb_records ring r' = rb_records ring r @ [state_fill t sk state (map_lookup ops m (sk_addr sk)) slot]"
  using assms by (auto simp: states_handle_set_state_def ip_sock_def Let_def split: if_splits)

end

interpretation tcp_stamps_model: tcp_stamps "lru_ops :: ((u64, u64) amap, u64, u64) map_ops" list_ring
  by (intro tcp_stamps.intro lru_model.bpf_lru_axioms ring_model.bpf_ringbuf_axioms)

lemma state_fill_simps [simp]:
  "se_skaddr (state_fill t sk state prev e) = sk_addr sk"
  "se_pid (state_fill t sk state prev e) = cur_pid t"
  "se_comm (state_fill t sk state prev e) = t_comm t"
  "se_family (state_fill t sk state prev e) = skc_family sk"
  "se_oldstate (state_fill t sk state prev e) = uint (skc_state sk)"
  "se_newstate (state_fill t sk state prev e) = state"
  "se_sport (state_fill t sk state prev e) = skc_num sk"
  "se_dport (state_fill t sk state prev e) = bswap16 (skc_dport sk)"
  "se_saddr (state_fill t sk state prev e) = copy_saddr sk (se_saddr e)"
  "se_daddr (state_fill t sk state prev e) = copy_daddr sk (se_daddr e)"
  "se_has_span (state_fill t sk state prev e) = (if prev = None then 0 else 1)"
  "se_span_us (state_fill t sk state prev e) = (case prev of None \<Rightarrow> 0 | Some p \<Rightarrow> (t_ktime t - p) div 1000)"
  by (auto simp: state_fill_def Let_def split: option.splits)

lemma unat_span: "p \<le> now \<Longrightarrow> unat ((now - p) div 1000) = (unat now - unat p) div 1000" for p now :: u64
  by (simp add: unat_div_distrib unat_sub_if' word_le_nat_alt)

text \<open>
  C25. Whatever happened before and whatever the LRU map evicted, a call of \<open>tcp_set_state\<close>
  adds at most one record, only for an IP socket, naming the socket and its transition; its
  time column is blank, or it is the time in microseconds since this socket's previous
  transition, which was not a CLOSE: a socket address that is used again never counts from its
  former life.
\<close>

theorem tcpstates_span_sound:
  assumes "tcp_stamps ops ring"
    and "\<And>i. map_lookup ops m i = None"
    and "states_run ops ring evs (m, r) = (m1, r1)"
    and "states_handle_set_state ops ring t sk state (m1, r1) = (m2, r2)"
  shows "rb_records ring r2 = rb_records ring r1 \<or>
    (ip_sock sk \<and>
     (\<exists>e. rb_records ring r2 = rb_records ring r1 @ [e] \<and> se_skaddr e = sk_addr sk \<and>
        se_oldstate e = uint (skc_state sk) \<and> se_newstate e = state \<and>
        (if se_has_span e = 0 then se_span_us e = 0
         else \<exists>p. last_stamp evs (sk_addr sk) = Some p \<and> se_span_us e = (t_ktime t - p) div 1000)))"
  using tcp_stamps.states_records [OF assms(1,4)] tcp_stamps.stamp_sound [OF assms(1,2), of evs r "sk_addr sk"]
    assms(3)
  by (fastforce split: option.splits)

definition demo_conn :: tcp_sock where
  "demo_conn =
     \<lparr>sk_addr = 0x1000, skc_family = AF_INET, skc_state = 7, skc_num = 40000, skc_dport = bswap16 443,
      skc_rcv_saddr = le32 10 0 0 1, skc_daddr = le32 10 0 0 2, skc_v6_rcv_saddr = replicate 16 0,
      skc_v6_daddr = replicate 16 0, bytes_acked = 2048, bytes_received = 1024, total_retrans = 1,
      srtt_us = 800\<rparr>"

definition states_slot :: state_event where
  "states_slot =
     \<lparr>se_skaddr = 0, se_span_us = 0, se_pid = 0, se_oldstate = 0, se_newstate = 0, se_family = 0, se_sport = 0,
      se_dport = 0, se_has_span = 0, se_saddr = replicate 16 255, se_daddr = replicate 16 255, se_comm = []\<rparr>"

definition states_ring :: "state_event ring" where
  "states_ring = \<lparr>rg_room = 4, rg_stale = states_slot, rg_log = []\<rparr>"

lemmas states_demo_simps =
  states_handle_set_state_def states_run_def lru_ops_def amap_defs list_ring_defs states_ring_def
  demo_conn_def AF_INET_def AF_INET6_def tcp_state_defs

theorem tcpstates_span_sound_witness:
  "\<exists>m2 r2.
     states_handle_set_state lru_ops list_ring (mk_task 0 0 [] 5000) demo_conn TCP_ESTABLISHED
       (states_run lru_ops list_ring [(mk_task 7 0 [] 2000, demo_conn, TCP_SYN_SENT)] (amap_empty 8, states_ring)) =
       (m2, r2) \<and>
     map se_span_us (rb_records list_ring r2) = [0, 3]"
proof -
  let ?evs = "[(mk_task 7 0 [] 2000, demo_conn, TCP_SYN_SENT)]"
  obtain m1 r1 where s: "states_run lru_ops list_ring ?evs (amap_empty 8, states_ring) = (m1, r1)" by force
  obtain m2 r2 where x: "states_handle_set_state lru_ops list_ring (mk_task 0 0 [] 5000) demo_conn
      TCP_ESTABLISHED (m1, r1) = (m2, r2)" by force
  have log: "map se_span_us (rb_records list_ring r1) = [0]" "length (rb_records list_ring r2) = 2"
    "map se_has_span (rb_records list_ring r2) = [0, 1]"
    using s x by (auto simp: states_demo_simps state_fill_def)
  have "map_lookup lru_ops (amap_empty 8 :: (u64, u64) amap) i = None" for i
    by (simp add: lru_ops_def amap_defs)
  from tcpstates_span_sound [OF tcp_stamps_model.tcp_stamps_axioms this s x] log
  show ?thesis
    using s x by (auto simp: last_stamp_def stamp_step_def tcp_state_defs demo_conn_def ip_sock_def
        split: if_splits)
qed

text \<open>
  C30. The handshake latency: a socket of either family enters SYN_SENT and, with any transitions of
  other sockets but none of its own in between, leaves it for ESTABLISHED. If those did not make
  the LRU map drop its time stamp and the ring has room, the line printed for it shows the two states, both
  endpoints as \<open>inet_ntop\<close> and the port render them, and the quotient, in the program's floating
  point, of the exact number of microseconds since the connect by 1000. The stale bytes of the
  ring slot never reach the line.
\<close>

theorem tcpstates_handshake_line:
  assumes ok: "tcp_stamps ops ring" and empty: "\<And>i. map_lookup ops m i = None"
    and sk: "ip_sock sk" "sk_addr sk' = sk_addr sk" "ip_sock sk'" "v6_sized sk'" "skc_state sk' = 2"
    and run: "evs = before @ [(t, sk, TCP_SYN_SENT)] @ during" "states_run ops ring evs (m, r) = (m1, r1)"
    and others: "list_all (\<lambda>c. sk_addr (fst (snd c)) \<noteq> sk_addr sk) during"
    and kept: "stays (\<lambda>s. map_lookup ops (fst s) (sk_addr sk)) (\<lambda>evs. states_run ops ring evs (m, r)) (sk_addr sk) evs"
    and clock: "t_ktime t \<le> t_ktime t'"
    and room: "rb_reserve ring r1 = Some (r1', slot)" "length (se_saddr slot) = 16" "length (se_daddr slot) = 16"
    and step: "states_handle_set_state ops ring t' sk' TCP_ESTABLISHED (m1, r1) = (m2, r2)"
  shows "map (states_handle_event fp ntop) (rb_records ring r2) =
    map (states_handle_event fp ntop) (rb_records ring r1) @
      [\<lparr>sl_skaddr = sk_addr sk, sl_pid = unat (cur_pid t'), sl_comm = c_str (t_comm t'),
        sl_af = (if skc_family sk' = AF_INET then ''IPv4'' else ''IPv6''),
        sl_src = fmt_endpoint ntop 56 (skc_family sk') (sock_saddr sk') (skc_num sk'),
        sl_dst = fmt_endpoint ntop 56 (skc_family sk') (sock_daddr sk') (bswap16 (skc_dport sk')),
        sl_old = ''SYN_SENT'', sl_new = ''ESTABLISHED'',
        sl_ms = Some (fp_div fp (fp_of_u64 fp (of_nat ((unat (t_ktime t') - unat (t_ktime t)) div 1000))) (fp_lit fp 1000))\<rparr>]"
proof -
  have "foldl (stamp_step (sk_addr sk)) p during = p" for p
    using others by (induction during) (auto simp: stamp_step_def split: prod.splits)
  then have "last_stamp evs (sk_addr sk) = Some (t_ktime t)"
    using sk(1) by (simp add: run(1) last_stamp_def stamp_step_def tcp_state_defs)
  with tcp_stamps.stamp_kept [OF ok empty kept] run(2)
  have "map_lookup ops m1 (sk_addr sk) = Some (t_ktime t)" by simp
  then have rec: "rb_records ring r2 =
      rb_records ring r1 @ [state_fill t' sk' TCP_ESTABLISHED (Some (t_ktime t)) slot]"
    using tcp_stamps.states_records_room [OF ok step sk(3) room(1)] sk(2) by simp
  have "of_nat ((unat (t_ktime t') - unat (t_ktime t)) div 1000) = (t_ktime t' - t_ktime t) div 1000"
    unfolding unat_span [OF clock, symmetric] by simp
  then show ?thesis
    unfolding rec using sk room(2,3)
    by (simp add: states_handle_event_def addr_bytes_copy tcp_state_name_def tcp_state_defs)
qed

text \<open>An IPv6 connection, and another socket that is closed during its handshake.\<close>

definition demo_conn6 :: tcp_sock where
  "demo_conn6 = demo_conn\<lparr>sk_addr := 0x2000, skc_family := AF_INET6\<rparr>"

definition demo_shake :: "set_state list" where
  "demo_shake =
     [(mk_task 7 0 [] 2000, demo_conn6, TCP_SYN_SENT), (mk_task 9 0 [] 3000, demo_conn, TCP_SYN_SENT),
      (mk_task 9 0 [] 4000, demo_conn, TCP_CLOSE)]"

theorem tcpstates_handshake_line_witness:
  "\<exists>m2 r2.
     states_handle_set_state lru_ops list_ring (mk_task 0 0 [] 1502000) (demo_conn6\<lparr>skc_state := 2\<rparr>)
       TCP_ESTABLISHED (states_run lru_ops list_ring demo_shake (amap_empty 8, states_ring)) = (m2, r2) \<and>
     sl_ms (last (map (states_handle_event real_fp (\<lambda>f a. '''')) (rb_records list_ring r2))) = Some (3 / 2)"
proof -
  let ?s0 = "(amap_empty 8, states_ring)" and ?t' = "mk_task 0 0 [] 1502000" and ?sk' = "demo_conn6\<lparr>skc_state := 2\<rparr>"
  obtain m1 r1 where s: "states_run lru_ops list_ring demo_shake ?s0 = (m1, r1)" by force
  obtain m2 r2 where x: "states_handle_set_state lru_ops list_ring ?t' ?sk' TCP_ESTABLISHED (m1, r1) =
      (m2, r2)" by force
  have room: "rb_reserve list_ring r1 = Some (r1\<lparr>rg_room := 0\<rparr>, states_slot)"
    using s by (auto simp: states_demo_simps demo_conn6_def demo_shake_def)
  have empty: "map_lookup lru_ops (amap_empty 8 :: (u64, u64) amap) i = None" for i
    by (simp add: lru_ops_def amap_defs)
  have kept: "stays (\<lambda>s. map_lookup lru_ops (fst s) (sk_addr demo_conn6)) (\<lambda>evs. states_run lru_ops list_ring evs ?s0)
      (sk_addr demo_conn6) demo_shake"
    by (auto simp: stays_def demo_shake_def less_Suc_eq numeral_eq_Suc demo_conn6_def states_demo_simps)
  have "rb_records list_ring r2 \<noteq> [] \<and>
    sl_ms (last (map (states_handle_event real_fp (\<lambda>f a. '''')) (rb_records list_ring r2))) =
      Some (fp_div real_fp (fp_of_u64 real_fp 1500) (fp_lit real_fp 1000))"
    using tcpstates_handshake_line [OF tcp_stamps_model.tcp_stamps_axioms empty _ _ _ _ _ _ s _ kept _ room _ _ x,
      of "[]" "mk_task 7 0 [] 2000" "tl demo_shake" real_fp "\<lambda>f a. ''''"]
    by (auto simp: demo_shake_def demo_conn6_def demo_conn_def states_slot_def ip_sock_def v6_sized_def
        AF_INET_def AF_INET6_def)
  with s x show ?thesis by (auto simp: real_fp_def)
qed

end
