(* ===== verification/Tcp_Life.thy ===== *)
theory Tcp_Life
  imports Tcp_States
begin

text \<open>
  13-tcplife: the same kprobe as 12-tcpstates, one record per closed connection. The LRU map
  \<open>births\<close> holds the time of a socket's first opening transition (\<open>BPF_NOEXIST\<close>), the LRU map
  \<open>idents\<close> the process that was running at its last SYN_SENT or LAST_ACK. On CLOSE both are
  looked up, the counters of the socket are read, and both entries are deleted.

  The theorems show what a summary line says: that the lifetime starts at an opening transition
  of the same life, the first one unless the LRU map evicted it, that the owner is the process
  of the last SYN_SENT or LAST_ACK of this life, and that CLOSE leaves no birth. They also show
  one thing it does not do: a CLOSE that finds no birth returns before the deletions, and leaves an
  identity that the next connection at the same address inherits if it has no SYN_SENT or
  LAST_ACK of its own.
\<close>

section \<open>The kernel side\<close>

record ident =
  id_pid :: u32
  id_comm :: bytes

record life_event =
  le_skaddr :: u64
  le_tx_b :: u64
  le_rx_b :: u64
  le_span_us :: u64
  le_pid :: u32
  le_srtt_us :: u32
  le_total_retrans :: u32
  le_family :: u16
  le_sport :: u16
  le_dport :: u16
  le_saddr :: bytes
  le_daddr :: bytes
  le_comm :: bytes

record ('b, 'i, 'r) life_state =
  births :: 'b
  idents :: 'i
  events :: 'r

record ('b, 'i, 'r) life_ops =
  b_ops :: "('b, u64, u64) map_ops"
  i_ops :: "('i, u64, ident) map_ops"
  e_ops :: "('r, life_event) ring_ops"

definition cur_ident :: "task_ctx \<Rightarrow> ident" where
  "cur_ident t = \<lparr>id_pid = cur_pid t, id_comm = t_comm t\<rparr>"

definition life_fill :: "task_ctx \<Rightarrow> tcp_sock \<Rightarrow> u64 \<Rightarrow> ident option \<Rightarrow> life_event \<Rightarrow> life_event" where
  "life_fill t sk birth who e =
     (let e = e\<lparr>le_skaddr := sk_addr sk, le_span_us := (t_ktime t - birth) div 1000,
                le_family := skc_family sk, le_sport := skc_num sk, le_dport := bswap16 (skc_dport sk),
                le_saddr := copy_saddr sk (le_saddr e), le_daddr := copy_daddr sk (le_daddr e),
                le_tx_b := bytes_acked sk, le_rx_b := bytes_received sk,
                le_total_retrans := total_retrans sk, le_srtt_us := drop_bit 3 (srtt_us sk)\<rparr>
      in case who of
           Some who \<Rightarrow> e\<lparr>le_pid := id_pid who, le_comm := id_comm who\<rparr>
         | None \<Rightarrow> e\<lparr>le_pid := cur_pid t, le_comm := t_comm t\<rparr>)"

text \<open>The two stamps every transition may leave, before the test for CLOSE.\<close>

definition life_stamp ::
  "('b, 'i, 'r) life_ops \<Rightarrow> task_ctx \<Rightarrow> u64 \<Rightarrow> int \<Rightarrow> ('b, 'i, 'r) life_state \<Rightarrow> ('b, 'i, 'r) life_state" where
  "life_stamp ops t sid state s =
     (let s = (if state < TCP_FIN_WAIT1
               then s\<lparr>births := snd (map_update (b_ops ops) (births s) sid (t_ktime t) BPF_NOEXIST)\<rparr> else s)
      in if state = TCP_SYN_SENT \<or> state = TCP_LAST_ACK
         then s\<lparr>idents := snd (map_update (i_ops ops) (idents s) sid (cur_ident t) BPF_ANY)\<rparr> else s)"

definition life_cleanup ::
  "('b, 'i, 'r) life_ops \<Rightarrow> u64 \<Rightarrow> ('b, 'i, 'r) life_state \<Rightarrow> ('b, 'i, 'r) life_state" where
  "life_cleanup ops sid s =
     s\<lparr>births := map_delete (b_ops ops) (births s) sid, idents := map_delete (i_ops ops) (idents s) sid\<rparr>"

definition life_handle_set_state ::
  "('b, 'i, 'r) life_ops \<Rightarrow> task_ctx \<Rightarrow> tcp_sock \<Rightarrow> int \<Rightarrow> ('b, 'i, 'r) life_state \<Rightarrow> ('b, 'i, 'r) life_state" where
  "life_handle_set_state ops t sk state s =
     (if skc_family sk \<noteq> AF_INET \<and> skc_family sk \<noteq> AF_INET6 then s
      else
        let sid = sk_addr sk; s = life_stamp ops t sid state s in
        if state \<noteq> TCP_CLOSE then s
        else
          (case map_lookup (b_ops ops) (births s) sid of
             None \<Rightarrow> s
           | Some birth \<Rightarrow>
               (case rb_reserve (e_ops ops) (events s) of
                  None \<Rightarrow> life_cleanup ops sid s
                | Some (ring, e) \<Rightarrow>
                    let who = map_lookup (i_ops ops) (idents s) sid;
                        s = s\<lparr>events := rb_submit (e_ops ops) ring (life_fill t sk birth who e)\<rparr>
                    in life_cleanup ops sid s)))"

section \<open>The loader\<close>

record 'd life_line =
  ll_pid :: nat
  ll_comm :: bytes
  ll_af :: string
  ll_src :: string
  ll_dst :: string
  ll_tx_kb :: 'd
  ll_rx_kb :: 'd
  ll_rtt_ms :: 'd
  ll_retr :: nat
  ll_dur_ms :: 'd

text \<open>The chapter's own copy of the endpoint formatter.\<close>

definition life_fmt_endpoint :: "(u16 \<Rightarrow> bytes \<Rightarrow> string) \<Rightarrow> nat \<Rightarrow> u16 \<Rightarrow> bytes \<Rightarrow> u16 \<Rightarrow> string" where
  "life_fmt_endpoint inet_ntop buflen family addr port =
     (let ip = inet_ntop family addr in
      if family = AF_INET6 then snprintf_str buflen (''['' @ ip @ '']:'' @ c_dec (unat port))
      else snprintf_str buflen (ip @ '':'' @ c_dec (unat port)))"

lemma life_fmt_endpoint_eq: "life_fmt_endpoint = fmt_endpoint"
  by (simp add: fun_eq_iff life_fmt_endpoint_def fmt_endpoint_def)

definition life_handle_event ::
  "'d fp_ops \<Rightarrow> (u16 \<Rightarrow> bytes \<Rightarrow> string) \<Rightarrow> life_event \<Rightarrow> 'd life_line" where
  "life_handle_event fp inet_ntop e =
     \<lparr>ll_pid = unat (le_pid e), ll_comm = c_str (le_comm e),
      ll_af = (if le_family e = AF_INET then ''IPv4'' else ''IPv6''),
      ll_src = life_fmt_endpoint inet_ntop 56 (le_family e) (addr_bytes (le_family e) (le_saddr e)) (le_sport e),
      ll_dst = life_fmt_endpoint inet_ntop 56 (le_family e) (addr_bytes (le_family e) (le_daddr e)) (le_dport e),
      ll_tx_kb = fp_div fp (fp_of_u64 fp (le_tx_b e)) (fp_lit fp 1024),
      ll_rx_kb = fp_div fp (fp_of_u64 fp (le_rx_b e)) (fp_lit fp 1024),
      ll_rtt_ms = fp_div fp (fp_of_int fp (uint (le_srtt_us e))) (fp_lit fp 1000),
      ll_retr = unat (le_total_retrans e),
      ll_dur_ms = fp_div fp (fp_of_u64 fp (le_span_us e)) (fp_lit fp 1000)\<rparr>"

section \<open>What a summary says\<close>

definition life_run ::
  "('b, 'i, 'r) life_ops \<Rightarrow> set_state list \<Rightarrow> ('b, 'i, 'r) life_state \<Rightarrow> ('b, 'i, 'r) life_state" where
  "life_run ops evs s = foldl (\<lambda>s (t, sk, state). life_handle_set_state ops t sk state s) s evs"

text \<open>
  What the calls so far say of a socket address: the times of the opening transitions of its
  current life, that is since its last CLOSE; the process of the last SYN_SENT or LAST_ACK of
  this life; and the process that is left over from former lives. A CLOSE of a life that was
  never seen to open leaves that life's process, or what was left before it; every other CLOSE
  leaves none.
\<close>

fun hist_step ::
  "u64 \<Rightarrow> u64 list \<times> ident option \<times> ident option \<Rightarrow> set_state \<Rightarrow> u64 list \<times> ident option \<times> ident option" where
  "hist_step sid (ts, own, left) (t, sk, state) =
     (if \<not> (ip_sock sk \<and> sk_addr sk = sid) then (ts, own, left)
      else if state = TCP_CLOSE
      then ([], None, if ts \<noteq> [] then None else if own \<noteq> None then own else left)
      else (if state < TCP_FIN_WAIT1 then ts @ [t_ktime t] else ts,
            if state = TCP_SYN_SENT \<or> state = TCP_LAST_ACK then Some (cur_ident t) else own, left))"

definition hist :: "set_state list \<Rightarrow> u64 \<Rightarrow> u64 list \<times> ident option \<times> ident option" where
  "hist evs sid = foldl (hist_step sid) ([], None, None) evs"

definition opens :: "set_state list \<Rightarrow> u64 \<Rightarrow> u64 list" where
  "opens evs sid = fst (hist evs sid)"

definition owner :: "set_state list \<Rightarrow> u64 \<Rightarrow> ident option" where
  "owner evs sid = fst (snd (hist evs sid))"

definition leftover :: "set_state list \<Rightarrow> u64 \<Rightarrow> ident option" where
  "leftover evs sid = snd (snd (hist evs sid))"

text \<open>Whom a summary is reported under when no entry was dropped, the current task being \<open>t\<close>.\<close>

definition reported :: "set_state list \<Rightarrow> u64 \<Rightarrow> task_ctx \<Rightarrow> ident" where
  "reported evs sid t =
     (case owner evs sid of
        Some w \<Rightarrow> w
      | None \<Rightarrow> (case leftover evs sid of Some w \<Rightarrow> w | None \<Rightarrow> cur_ident t))"

text \<open>The process of the last SYN_SENT or LAST_ACK of any life.\<close>

definition last_ident_step :: "u64 \<Rightarrow> ident option \<Rightarrow> set_state \<Rightarrow> ident option" where
  "last_ident_step sid w c =
     (case c of (t, sk, state) \<Rightarrow>
        if ip_sock sk \<and> sk_addr sk = sid \<and> (state = TCP_SYN_SENT \<or> state = TCP_LAST_ACK)
        then Some (cur_ident t) else w)"

definition last_ident :: "set_state list \<Rightarrow> u64 \<Rightarrow> ident option" where
  "last_ident evs sid = foldl (last_ident_step sid) None evs"

lemma life_hist_snoc: "hist (evs @ [c]) sid = hist_step sid (hist evs sid) c"
  by (simp add: hist_def)

lemma life_spec_snoc:
  "opens (evs @ [(t, sk, state)]) sid =
     (if \<not> (ip_sock sk \<and> sk_addr sk = sid) then opens evs sid
      else if state = TCP_CLOSE then []
      else if state < TCP_FIN_WAIT1 then opens evs sid @ [t_ktime t] else opens evs sid)"
  "owner (evs @ [(t, sk, state)]) sid =
     (if \<not> (ip_sock sk \<and> sk_addr sk = sid) then owner evs sid
      else if state = TCP_CLOSE then None
      else if state = TCP_SYN_SENT \<or> state = TCP_LAST_ACK then Some (cur_ident t) else owner evs sid)"
  "leftover (evs @ [(t, sk, state)]) sid =
     (if \<not> (ip_sock sk \<and> sk_addr sk = sid \<and> state = TCP_CLOSE) then leftover evs sid
      else if opens evs sid \<noteq> [] then None
      else if owner evs sid \<noteq> None then owner evs sid else leftover evs sid)"
  by (cases "hist evs sid"; simp add: opens_def owner_def leftover_def life_hist_snoc)+

lemma spec_nil [simp]: "opens [] sid = []" "owner [] sid = None" "leftover [] sid = None"
  by (simp_all add: opens_def owner_def leftover_def hist_def)

lemma last_ident_snoc: "last_ident (evs @ [c]) sid = last_ident_step sid (last_ident evs sid) c"
  by (simp add: last_ident_def)

text \<open>Nothing is left over as long as every CLOSE had an opening transition before it.\<close>

lemma nothing_left:
  "(\<And>k t sk. k < length evs \<Longrightarrow> evs ! k = (t, sk, TCP_CLOSE) \<Longrightarrow> ip_sock sk \<Longrightarrow> sk_addr sk = sid \<Longrightarrow>
      opens (take k evs) sid \<noteq> []) \<Longrightarrow> leftover evs sid = None"
proof (induction evs rule: rev_induct)
  case (snoc c evs)
  obtain t sk state where c: "c = (t, sk, state)" by (metis prod_cases3)
  have "leftover evs sid = None"
  proof (rule snoc.IH)
    fix k t sk assume "k < length evs" "evs ! k = (t, sk, TCP_CLOSE)" "ip_sock sk" "sk_addr sk = sid"
    then show "opens (take k evs) sid \<noteq> []" using snoc.prems [of k t sk] by (simp add: nth_append)
  qed
  then show ?case
    using snoc.prems [of "length evs" t sk] by (auto simp: c life_spec_snoc)
qed simp

lemma life_run_snoc [simp]:
  "life_run ops (evs @ [(t, sk, state)]) s = life_handle_set_state ops t sk state (life_run ops evs s)"
  by (simp add: life_run_def)

locale life_maps =
  bm: bpf_lru_insert "b_ops ops" + im: bpf_lru "i_ops ops" + ev: bpf_ringbuf "e_ops ops"
  for ops :: "('b, 'i, 'r) life_ops"
begin

lemma births_after:
  "births (life_handle_set_state ops t sk state s) =
     (if \<not> ip_sock sk then births s
      else if state = TCP_CLOSE
      then if map_lookup (b_ops ops) (births s) (sk_addr sk) = None then births s
           else map_delete (b_ops ops) (births s) (sk_addr sk)
      else if state < TCP_FIN_WAIT1
      then snd (map_update (b_ops ops) (births s) (sk_addr sk) (t_ktime t) BPF_NOEXIST)
      else births s)"
  by (auto simp: life_handle_set_state_def life_stamp_def life_cleanup_def ip_sock_def Let_def tcp_state_defs
      split: option.splits)

lemma idents_after:
  "idents (life_handle_set_state ops t sk state s) =
     (if \<not> ip_sock sk then idents s
      else if state = TCP_CLOSE
      then if map_lookup (b_ops ops) (births s) (sk_addr sk) = None then idents s
           else map_delete (i_ops ops) (idents s) (sk_addr sk)
      else if state = TCP_SYN_SENT \<or> state = TCP_LAST_ACK
      then snd (map_update (i_ops ops) (idents s) (sk_addr sk) (cur_ident t) BPF_ANY)
      else idents s)"
  by (auto simp: life_handle_set_state_def life_stamp_def life_cleanup_def ip_sock_def Let_def tcp_state_defs
      split: option.splits)

lemma events_after:
  "events (life_handle_set_state ops t sk state s) =
     (if ip_sock sk \<and> state = TCP_CLOSE
      then (case map_lookup (b_ops ops) (births s) (sk_addr sk) of
              None \<Rightarrow> events s
            | Some b \<Rightarrow>
                (case rb_reserve (e_ops ops) (events s) of
                   None \<Rightarrow> events s
                 | Some (r, e) \<Rightarrow> rb_submit (e_ops ops) r
                     (life_fill t sk b (map_lookup (i_ops ops) (idents s) (sk_addr sk)) e)))
      else events s)"
  by (auto simp: life_handle_set_state_def life_stamp_def life_cleanup_def ip_sock_def Let_def tcp_state_defs
      split: option.splits)

text \<open>
  Whatever was evicted: a birth in the map is the time of an opening transition of the current
  life, an identity that of the last SYN_SENT or LAST_ACK.
\<close>

lemma birth_sound:
  assumes "\<And>i. map_lookup (b_ops ops) (births s) i = None"
  shows "map_lookup (b_ops ops) (births (life_run ops evs s)) sid = Some b \<Longrightarrow> b \<in> set (opens evs sid)"
proof (induction evs arbitrary: b rule: rev_induct)
  case Nil
  with assms show ?case by (simp add: life_run_def)
next
  case (snoc c evs)
  obtain t sk state where c: "c = (t, sk, state)" by (metis prod_cases3)
  let ?m = "births (life_run ops evs s)"
  from snoc show ?case
    using bm.other_after_update [of sid "sk_addr sk" ?m "t_ktime t" BPF_NOEXIST b]
      bm.lookup_after_update [of ?m "sk_addr sk" "t_ktime t" BPF_NOEXIST b]
    by (auto simp: c births_after life_spec_snoc bm.lookup_delete tcp_state_defs split: if_splits)
qed

lemma ident_sound:
  assumes "\<And>i. map_lookup (i_ops ops) (idents s) i = None"
  shows "map_lookup (i_ops ops) (idents (life_run ops evs s)) sid = Some w \<Longrightarrow> last_ident evs sid = Some w"
proof (induction evs arbitrary: w rule: rev_induct)
  case Nil
  with assms show ?case by (simp add: life_run_def)
next
  case (snoc c evs)
  obtain t sk state where c: "c = (t, sk, state)" by (metis prod_cases3)
  let ?m = "idents (life_run ops evs s)"
  from snoc show ?case
    using im.other_after_update [of sid "sk_addr sk" ?m "cur_ident t" BPF_ANY w]
    by (auto simp: c idents_after last_ident_snoc last_ident_step_def im.lookup_delete tcp_state_defs split: if_splits)
qed

text \<open>
  While no call for another socket drops this socket's birth, the map holds the first opening of
  its life; while none drops its identity either, the map holds the process of this life or,
  without one, what was left over.
\<close>

lemma birth_exact:
  assumes "\<And>i. map_lookup (b_ops ops) (births s) i = None"
    and "stays (\<lambda>s. map_lookup (b_ops ops) (births s) sid) (\<lambda>evs. life_run ops evs s) sid evs"
  shows "map_lookup (b_ops ops) (births (life_run ops evs s)) sid = (case opens evs sid of [] \<Rightarrow> None | b # _ \<Rightarrow> Some b)"
  using assms(2)
proof (induction evs rule: rev_induct)
  case Nil
  with assms(1) show ?case by (simp add: life_run_def)
next
  case (snoc c evs)
  obtain t sk state where c: "c = (t, sk, state)" by (metis prod_cases3)
  let ?m = "births (life_run ops evs s)" and ?l = "map_lookup (b_ops ops) (births (life_run ops (evs @ [c]) s)) sid"
  have IH: "map_lookup (b_ops ops) ?m sid = (case opens evs sid of [] \<Rightarrow> None | b # _ \<Rightarrow> Some b)"
    using snoc by (simp add: c stays_snoc)
  show ?case
  proof (cases "sk_addr sk = sid")
    case True
    have "map_lookup (b_ops ops) (snd (map_update (b_ops ops) ?m sid v BPF_NOEXIST)) sid =
        (case opens evs sid of [] \<Rightarrow> Some v | b # _ \<Rightarrow> Some b)" for v
      using IH bm.insert_lookup [of ?m sid v] by (auto split: list.splits)
    with True IH show ?thesis
      by (auto simp: c births_after life_spec_snoc split: list.splits)
  next
    case False
    have "map_lookup (b_ops ops) ?m sid = Some b" if "?l = Some b" for b
      using that False bm.other_after_update [of sid "sk_addr sk" ?m "t_ktime t" BPF_NOEXIST b]
      by (auto simp: c births_after bm.lookup_delete split: if_splits)
    moreover have "map_lookup (b_ops ops) ?m sid = None \<or> ?l \<noteq> None"
      using snoc.prems False by (simp add: c stays_snoc)
    ultimately have "?l = map_lookup (b_ops ops) ?m sid" by (cases ?l) auto
    with IH False show ?thesis by (simp add: c life_spec_snoc)
  qed
qed

lemma ident_exact:
  assumes empty: "\<And>i. map_lookup (b_ops ops) (births s) i = None" "\<And>i. map_lookup (i_ops ops) (idents s) i = None"
    and "stays (\<lambda>s. map_lookup (b_ops ops) (births s) sid) (\<lambda>evs. life_run ops evs s) sid evs"
    and "stays (\<lambda>s. map_lookup (i_ops ops) (idents s) sid) (\<lambda>evs. life_run ops evs s) sid evs"
  shows "map_lookup (i_ops ops) (idents (life_run ops evs s)) sid =
    (case owner evs sid of None \<Rightarrow> leftover evs sid | Some w \<Rightarrow> Some w)"
  using assms(3,4)
proof (induction evs rule: rev_induct)
  case Nil
  with empty show ?case by (simp add: life_run_def)
next
  case (snoc c evs)
  obtain t sk state where c: "c = (t, sk, state)" by (metis prod_cases3)
  let ?m = "idents (life_run ops evs s)" and ?l = "map_lookup (i_ops ops) (idents (life_run ops (evs @ [c]) s)) sid"
  have IH: "map_lookup (i_ops ops) ?m sid = (case owner evs sid of None \<Rightarrow> leftover evs sid | Some w \<Rightarrow> Some w)"
    using snoc by (simp add: c stays_snoc)
  have birth: "map_lookup (b_ops ops) (births (life_run ops evs s)) sid = None \<longleftrightarrow> opens evs sid = []"
    using birth_exact [OF empty(1), of sid evs] snoc.prems(1) by (simp add: c stays_snoc split: list.splits)
  show ?case
  proof (cases "sk_addr sk = sid")
    case True
    with IH birth show ?thesis
      by (auto simp: c idents_after life_spec_snoc split: option.splits)
  next
    case False
    have "map_lookup (i_ops ops) ?m sid = Some w" if "?l = Some w" for w
      using that False im.other_after_update [of sid "sk_addr sk" ?m "cur_ident t" BPF_ANY w]
      by (auto simp: c idents_after im.lookup_delete split: if_splits)
    moreover have "map_lookup (i_ops ops) ?m sid = None \<or> ?l \<noteq> None"
      using snoc.prems(2) False by (simp add: c stays_snoc)
    ultimately have "?l = map_lookup (i_ops ops) ?m sid" by (cases ?l) auto
    with IH False show ?thesis by (simp add: c life_spec_snoc split: option.split)
  qed
qed

lemma life_records:
  "rb_records (e_ops ops) (events (life_handle_set_state ops t sk state s)) = rb_records (e_ops ops) (events s) \<or>
   (ip_sock sk \<and> state = TCP_CLOSE \<and>
    (\<exists>b slot. map_lookup (b_ops ops) (births s) (sk_addr sk) = Some b \<and>
       rb_records (e_ops ops) (events (life_handle_set_state ops t sk state s)) =
       rb_records (e_ops ops) (events s) @
         [life_fill t sk b (map_lookup (i_ops ops) (idents s) (sk_addr sk)) slot]))"
  by (auto simp: events_after split: option.splits)

lemma close_no_birth:
  "ip_sock sk \<Longrightarrow> map_lookup (b_ops ops) (births (life_handle_set_state ops t sk TCP_CLOSE s)) (sk_addr sk) = None"
  by (auto simp: births_after bm.lookup_delete)

lemma close_sends:
  assumes "\<And>i. map_lookup (b_ops ops) (births s) i = None"
    and "stays (\<lambda>s. map_lookup (b_ops ops) (births s) (sk_addr sk)) (\<lambda>evs. life_run ops evs s) (sk_addr sk) evs"
    and "ip_sock sk" "opens evs (sk_addr sk) \<noteq> []" "rb_reserve (e_ops ops) (events (life_run ops evs s)) \<noteq> None"
  shows "length (rb_records (e_ops ops) (events (life_handle_set_state ops t sk TCP_CLOSE (life_run ops evs s)))) =
    Suc (length (rb_records (e_ops ops) (events (life_run ops evs s))))"
  using assms birth_exact [OF assms(1,2)] by (auto simp: events_after split: list.splits)

end

lemma life_fill_simps [simp]:
  "le_skaddr (life_fill t sk b w e) = sk_addr sk"
  "le_span_us (life_fill t sk b w e) = (t_ktime t - b) div 1000"
  "le_family (life_fill t sk b w e) = skc_family sk"
  "le_sport (life_fill t sk b w e) = skc_num sk"
  "le_dport (life_fill t sk b w e) = bswap16 (skc_dport sk)"
  "le_saddr (life_fill t sk b w e) = copy_saddr sk (le_saddr e)"
  "le_daddr (life_fill t sk b w e) = copy_daddr sk (le_daddr e)"
  "le_tx_b (life_fill t sk b w e) = bytes_acked sk"
  "le_rx_b (life_fill t sk b w e) = bytes_received sk"
  "le_total_retrans (life_fill t sk b w e) = total_retrans sk"
  "le_srtt_us (life_fill t sk b w e) = drop_bit 3 (srtt_us sk)"
  "le_pid (life_fill t sk b w e) = (case w of Some w \<Rightarrow> id_pid w | None \<Rightarrow> cur_pid t)"
  "le_comm (life_fill t sk b w e) = (case w of Some w \<Rightarrow> id_comm w | None \<Rightarrow> t_comm t)"
  by (auto simp: life_fill_def Let_def split: option.splits)

definition life_lru ::
  "((u64, u64) amap, (u64, ident) amap, life_event ring) life_ops" where
  "life_lru = \<lparr>b_ops = lru_ops, i_ops = lru_ops, e_ops = list_ring\<rparr>"

interpretation life_model: life_maps life_lru
  by (intro life_maps.intro)
     (simp_all add: life_lru_def lru_model.bpf_lru_axioms lru_insert_model.bpf_lru_insert_axioms ring_model.bpf_ringbuf_axioms)

abbreviation le_ident :: "life_event \<Rightarrow> ident" where
  "le_ident e \<equiv> \<lparr>id_pid = le_pid e, id_comm = le_comm e\<rparr>"

text \<open>
  C19. Whatever happened before and whatever the LRU maps evicted, a transition adds a summary
  only if it is the CLOSE of an IP socket: one record, whose lifetime counts from an opening
  transition of this socket since its previous CLOSE, with the socket's own counters (the
  smoothed RTT scaled down by eight), owned by the process of the socket address's last SYN_SENT
  or LAST_ACK or by the current one. No CLOSE leaves a birth behind. As long as no call for
  another socket makes the maps drop this socket's entries, a life that was seen to open gets its
  summary if the ring has room, the lifetime counts from the first opening transition, and the owner is determined: the process of the last SYN_SENT or LAST_ACK
  of this life; if it had none, the one left over from a former life that was closed without
  having been seen to open; only if there is none either, the current one.
\<close>

theorem tcplife_summary:
  assumes ops: "life_maps ops"
    and empty: "\<And>i. map_lookup (b_ops ops) (births s) i = None"
      "\<And>i. map_lookup (i_ops ops) (idents s) i = None"
    and run: "life_run ops evs s = s1" "life_handle_set_state ops t sk state s1 = s2"
  shows "(rb_records (e_ops ops) (events s2) = rb_records (e_ops ops) (events s1) \<or>
      (ip_sock sk \<and> state = TCP_CLOSE \<and>
       (\<exists>e b. rb_records (e_ops ops) (events s2) = rb_records (e_ops ops) (events s1) @ [e] \<and>
          b \<in> set (opens evs (sk_addr sk)) \<and> le_span_us e = (t_ktime t - b) div 1000 \<and>
          le_tx_b e = bytes_acked sk \<and> le_rx_b e = bytes_received sk \<and>
          le_total_retrans e = total_retrans sk \<and> unat (le_srtt_us e) = unat (srtt_us sk) div 8 \<and>
          (last_ident evs (sk_addr sk) = Some (le_ident e) \<or> cur_ident t = le_ident e) \<and>
          (stays (\<lambda>s. map_lookup (b_ops ops) (births s) (sk_addr sk)) (\<lambda>evs. life_run ops evs s) (sk_addr sk) evs \<longrightarrow>
             b = hd (opens evs (sk_addr sk)) \<and>
             (stays (\<lambda>s. map_lookup (i_ops ops) (idents s) (sk_addr sk)) (\<lambda>evs. life_run ops evs s) (sk_addr sk) evs \<longrightarrow>
                le_ident e = reported evs (sk_addr sk) t))))) \<and>
    (ip_sock sk \<and> state = TCP_CLOSE \<longrightarrow> map_lookup (b_ops ops) (births s2) (sk_addr sk) = None) \<and>
    (ip_sock sk \<and> state = TCP_CLOSE \<and> opens evs (sk_addr sk) \<noteq> [] \<and>
     stays (\<lambda>s. map_lookup (b_ops ops) (births s) (sk_addr sk)) (\<lambda>evs. life_run ops evs s) (sk_addr sk) evs \<and>
     rb_reserve (e_ops ops) (events s1) \<noteq> None \<longrightarrow>
       length (rb_records (e_ops ops) (events s2)) = Suc (length (rb_records (e_ops ops) (events s1))))"
proof -
  let ?b = "map_lookup (b_ops ops) (births s1) (sk_addr sk)" and ?w = "map_lookup (i_ops ops) (idents s1) (sk_addr sk)"
  let ?kb = "stays (\<lambda>s. map_lookup (b_ops ops) (births s) (sk_addr sk)) (\<lambda>evs. life_run ops evs s) (sk_addr sk) evs"
  let ?ki = "stays (\<lambda>s. map_lookup (i_ops ops) (idents s) (sk_addr sk)) (\<lambda>evs. life_run ops evs s) (sk_addr sk) evs"
  have b: "b \<in> set (opens evs (sk_addr sk)) \<and> (?kb \<longrightarrow> b = hd (opens evs (sk_addr sk)))" if "?b = Some b" for b
    using life_maps.birth_sound [OF ops empty(1), of evs "sk_addr sk" b]
      life_maps.birth_exact [OF ops empty(1), of "sk_addr sk" evs] that run(1)
    by (auto split: list.splits)
  have w: "(last_ident evs (sk_addr sk) = Some (le_ident e) \<or> cur_ident t = le_ident e) \<and>
      (?kb \<and> ?ki \<longrightarrow> le_ident e = reported evs (sk_addr sk) t)"
    if "e = life_fill t sk b ?w slot" for e b slot
    using life_maps.ident_sound [OF ops empty(2), of evs "sk_addr sk"]
      life_maps.ident_exact [OF ops empty, of "sk_addr sk" evs] that run(1)
    by (cases ?w) (auto simp: cur_ident_def reported_def split: option.splits)
  have srtt: "unat (drop_bit 3 (srtt_us sk)) = unat (srtt_us sk) div 8"
    by (simp add: drop_bit_eq_div unat_div_distrib)
  note close = life_maps.close_no_birth [OF ops, of sk t s1] life_maps.close_sends [OF ops empty(1), of sk evs t]
  consider "rb_records (e_ops ops) (events s2) = rb_records (e_ops ops) (events s1)"
    | x slot where "ip_sock sk" "state = TCP_CLOSE" "?b = Some x"
        "rb_records (e_ops ops) (events s2) = rb_records (e_ops ops) (events s1) @ [life_fill t sk x ?w slot]"
    using life_maps.life_records [OF ops, of t sk state s1] unfolding run(2) by blast
  then show ?thesis
  proof cases
    case 1
    with close run show ?thesis by auto
  next
    case (2 x slot)
    have "\<exists>e b. rb_records (e_ops ops) (events s2) = rb_records (e_ops ops) (events s1) @ [e] \<and>
        b \<in> set (opens evs (sk_addr sk)) \<and> le_span_us e = (t_ktime t - b) div 1000 \<and>
        le_tx_b e = bytes_acked sk \<and> le_rx_b e = bytes_received sk \<and>
        le_total_retrans e = total_retrans sk \<and> unat (le_srtt_us e) = unat (srtt_us sk) div 8 \<and>
        (last_ident evs (sk_addr sk) = Some (le_ident e) \<or> cur_ident t = le_ident e) \<and>
        (?kb \<longrightarrow> b = hd (opens evs (sk_addr sk)) \<and> (?ki \<longrightarrow> le_ident e = reported evs (sk_addr sk) t))"
      using 2(4) b [OF 2(3)] w [OF refl, of x slot] srtt
      by (intro exI [of _ "life_fill t sk x ?w slot"] exI [of _ x]) simp
    with 2 close run show ?thesis by auto
  qed
qed

definition life_slot :: life_event where
  "life_slot =
     \<lparr>le_skaddr = 0, le_tx_b = 0, le_rx_b = 0, le_span_us = 0, le_pid = 0, le_srtt_us = 0, le_total_retrans = 0,
      le_family = 0, le_sport = 0, le_dport = 0, le_saddr = replicate 16 255, le_daddr = replicate 16 255,
      le_comm = []\<rparr>"

definition life_init :: "nat \<Rightarrow> ((u64, u64) amap, (u64, ident) amap, life_event ring) life_state" where
  "life_init n =
     \<lparr>births = amap_empty n, idents = amap_empty n, events = \<lparr>rg_room = n, rg_stale = life_slot, rg_log = []\<rparr>\<rparr>"

definition demo_life :: "set_state list" where
  "demo_life =
     [(mk_task 7 0 [110, 99, 0] 2000, demo_conn, TCP_SYN_SENT), (mk_task 0 0 [] 5000, demo_conn, TCP_ESTABLISHED)]"

lemmas life_demo_simps =
  life_run_def life_handle_set_state_def life_stamp_def life_cleanup_def life_lru_def lru_ops_def amap_defs
  list_ring_defs life_init_def demo_life_def demo_conn_def AF_INET_def AF_INET6_def tcp_state_defs Let_def

lemma life_init_empty:
  "map_lookup (b_ops life_lru) (births (life_init n)) i = None"
  "map_lookup (i_ops life_lru) (idents (life_init n)) i = None"
  by (simp_all add: life_init_def life_lru_def lru_ops_def amap_defs)

lemma demo_stays:
  "stays (\<lambda>s. map_lookup (b_ops life_lru) (births s) (sk_addr demo_conn)) (\<lambda>evs. life_run life_lru evs s) (sk_addr demo_conn) evs"
  "stays (\<lambda>s. map_lookup (i_ops life_lru) (idents s) (sk_addr demo_conn)) (\<lambda>evs. life_run life_lru evs s) (sk_addr demo_conn) evs"
  if "list_all (\<lambda>c. sk_addr (fst (snd c)) = sk_addr demo_conn) evs"
  using that by (simp_all add: stays_def list_all_length)

theorem tcplife_summary_witness:
  "\<exists>s2. life_handle_set_state life_lru (mk_task 0 0 [] 1502000) demo_conn TCP_CLOSE
          (life_run life_lru demo_life (life_init 4)) = s2 \<and>
        map (\<lambda>e. (le_tx_b e, unat (le_srtt_us e), le_pid e)) (rb_records list_ring (events s2)) = [(2048, 100, 7)] \<and>
        map_lookup lru_ops (births s2) 0x1000 = None"
proof -
  let ?s1 = "life_run life_lru demo_life (life_init 4)"
  obtain s2 where s2: "life_handle_set_state life_lru (mk_task 0 0 [] 1502000) demo_conn TCP_CLOSE ?s1 = s2"
    by simp
  have log: "rb_records list_ring (events ?s1) = []" "rb_records list_ring (events s2) \<noteq> []"
    unfolding s2 [symmetric] by (simp_all add: life_demo_simps)
  have who: "reported demo_life (sk_addr demo_conn) (mk_task 0 0 [] 1502000) = \<lparr>id_pid = 7, id_comm = [110, 99, 0]\<rparr>"
    by (simp add: reported_def owner_def hist_def demo_life_def demo_conn_def ip_sock_def tcp_state_defs cur_ident_def)
  have "list_all (\<lambda>c. sk_addr (fst (snd c)) = sk_addr demo_conn) demo_life"
    by (simp add: demo_life_def)
  from tcplife_summary [OF life_model.life_maps_axioms life_init_empty(1) life_init_empty(2) refl s2] log s2
    demo_stays [OF this] who
  show ?thesis
    by (auto simp: life_lru_def demo_conn_def ip_sock_def AF_INET_def)
qed

text \<open>
  C29. The printed line, for IPv4 and IPv6: when this life was seen to open, no call for another
  socket made the maps drop the entries of the socket, and the ring has room, the CLOSE adds one
  line. It shows both endpoints, the byte counters in KiB, the RTT and a lifetime that counts
  from the first opening transition, handshake included, each as the program's floating-point
  quotient of the exact integer. It is printed under the process of the last SYN_SENT or LAST_ACK
  of this life, if it had one; otherwise under the one left over at this address by a former
  life that was closed without having been seen to open, and the current one if there is none.
  So a connection that was accepted and is closed by its peer can be printed under a process of
  a former connection.
\<close>

theorem tcplife_line:
  assumes ops: "life_maps ops"
    and empty: "\<And>i. map_lookup (b_ops ops) (births s) i = None"
      "\<And>i. map_lookup (i_ops ops) (idents s) i = None"
    and kept: "stays (\<lambda>s. map_lookup (b_ops ops) (births s) (sk_addr sk)) (\<lambda>evs. life_run ops evs s) (sk_addr sk) evs"
      "stays (\<lambda>s. map_lookup (i_ops ops) (idents s) (sk_addr sk)) (\<lambda>evs. life_run ops evs s) (sk_addr sk) evs"
    and life: "opens evs (sk_addr sk) = b # bs" "b \<le> t_ktime t"
    and sk: "ip_sock sk" "v6_sized sk"
    and room: "rb_reserve (e_ops ops) (events (life_run ops evs s)) = Some (r, slot)"
      "length (le_saddr slot) = 16" "length (le_daddr slot) = 16"
    and close: "life_handle_set_state ops t sk TCP_CLOSE (life_run ops evs s) = s2"
  shows "map (life_handle_event fp ntop) (rb_records (e_ops ops) (events s2)) =
    map (life_handle_event fp ntop) (rb_records (e_ops ops) (events (life_run ops evs s))) @
      [\<lparr>ll_pid = unat (id_pid (reported evs (sk_addr sk) t)), ll_comm = c_str (id_comm (reported evs (sk_addr sk) t)),
        ll_af = (if skc_family sk = AF_INET then ''IPv4'' else ''IPv6''),
        ll_src = fmt_endpoint ntop 56 (skc_family sk) (sock_saddr sk) (skc_num sk),
        ll_dst = fmt_endpoint ntop 56 (skc_family sk) (sock_daddr sk) (bswap16 (skc_dport sk)),
        ll_tx_kb = fp_div fp (fp_of_u64 fp (bytes_acked sk)) (fp_lit fp 1024),
        ll_rx_kb = fp_div fp (fp_of_u64 fp (bytes_received sk)) (fp_lit fp 1024),
        ll_rtt_ms = fp_div fp (fp_of_int fp (uint (srtt_us sk) div 8)) (fp_lit fp 1000),
        ll_retr = unat (total_retrans sk),
        ll_dur_ms = fp_div fp (fp_of_u64 fp (of_nat ((unat (t_ktime t) - unat b) div 1000))) (fp_lit fp 1000)\<rparr>]"
proof -
  let ?w = "map_lookup (i_ops ops) (idents (life_run ops evs s)) (sk_addr sk)"
  have b: "map_lookup (b_ops ops) (births (life_run ops evs s)) (sk_addr sk) = Some b"
    using life_maps.birth_exact [OF ops empty(1) kept(1)] life(1) by simp
  have w: "reported evs (sk_addr sk) t = (case ?w of Some w \<Rightarrow> w | None \<Rightarrow> cur_ident t)"
    using life_maps.ident_exact [OF ops empty kept] by (simp add: reported_def split: option.splits)
  have rec: "rb_records (e_ops ops) (events s2) =
      rb_records (e_ops ops) (events (life_run ops evs s)) @ [life_fill t sk b ?w slot]"
    unfolding close [symmetric] life_maps.events_after [OF ops]
    using b room(1) sk bpf_ringbuf.reserve_submit [OF life_maps.axioms(3) [OF ops]]
    by simp
  have "of_nat ((unat (t_ktime t) - unat b) div 1000) = (t_ktime t - b) div 1000"
    unfolding unat_span [OF life(2), symmetric] by simp
  then show ?thesis
    unfolding rec w using room sk
    by (cases ?w) (simp_all add: life_handle_event_def life_fmt_endpoint_eq addr_bytes_copy cur_ident_def
        drop_bit_eq_div uint_div_distrib)
qed

text \<open>
  Two lines: an ordinary connection of process 7, and the stale owner: the program sees the
  LAST_ACK (by process 7) and the CLOSE of a connection it never saw open, and the next
  connection at the same address, accepted and then closed by process 9, is printed under 7.
\<close>

definition demo_stale :: "set_state list" where
  "demo_stale =
     [(mk_task 7 0 [] 1000, demo_conn, TCP_LAST_ACK), (mk_task 7 0 [] 2000, demo_conn, TCP_CLOSE),
      (mk_task 0 0 [] 3000, demo_conn, TCP_ESTABLISHED)]"

theorem tcplife_line_witness:
  "map (\<lambda>l. (ll_pid l, ll_comm l, ll_dur_ms l))
     (map (life_handle_event real_fp (\<lambda>f a. ''''))
       (rb_records list_ring (events (life_handle_set_state life_lru (mk_task 0 0 [] 1502000) demo_conn TCP_CLOSE
          (life_run life_lru demo_life (life_init 4)))))) = [(7, [110, 99], 3 / 2)] \<and>
   map ll_pid (map (life_handle_event real_fp (\<lambda>f a. ''''))
     (rb_records list_ring (events (life_handle_set_state life_lru (mk_task 9 0 [] 1503000) demo_conn TCP_CLOSE
        (life_run life_lru demo_stale (life_init 4)))))) = [7]"
proof -
  have own: "list_all (\<lambda>c. sk_addr (fst (snd c)) = sk_addr demo_conn) demo_life"
    "list_all (\<lambda>c. sk_addr (fst (snd c)) = sk_addr demo_conn) demo_stale"
    by (simp_all add: demo_life_def demo_stale_def)
  have room: "rb_reserve (e_ops life_lru) (events (life_run life_lru demo_life (life_init 4))) =
      Some (\<lparr>rg_room = 3, rg_stale = life_slot, rg_log = []\<rparr>, life_slot)"
    "rb_reserve (e_ops life_lru) (events (life_run life_lru demo_stale (life_init 4))) =
      Some (\<lparr>rg_room = 3, rg_stale = life_slot, rg_log = []\<rparr>, life_slot)"
    by (simp_all add: life_demo_simps demo_stale_def)
  have opens: "opens demo_life (sk_addr demo_conn) = [2000, 5000]" "opens demo_stale (sk_addr demo_conn) = [3000]"
    by (simp_all add: opens_def hist_def demo_life_def demo_stale_def demo_conn_def ip_sock_def tcp_state_defs)
  have who: "reported demo_life (sk_addr demo_conn) t = \<lparr>id_pid = 7, id_comm = [110, 99, 0]\<rparr>"
    "reported demo_stale (sk_addr demo_conn) t = \<lparr>id_pid = 7, id_comm = []\<rparr>" for t
    by (simp_all add: reported_def owner_def leftover_def hist_def demo_life_def demo_stale_def demo_conn_def ip_sock_def
        tcp_state_defs cur_ident_def)
  have log: "rb_records list_ring (events (life_run life_lru demo_life (life_init 4))) = []"
    "rb_records list_ring (events (life_run life_lru demo_stale (life_init 4))) = []"
    by (simp_all add: life_demo_simps demo_stale_def)
  have sk: "ip_sock demo_conn" "v6_sized demo_conn"
    by (simp_all add: demo_conn_def ip_sock_def v6_sized_def)
  note line = tcplife_line [OF life_model.life_maps_axioms life_init_empty(1) life_init_empty(2), where fp = real_fp
      and ntop = "\<lambda>f a. ''''"]
  show ?thesis
    using line [OF demo_stays [OF own(1)] opens(1) _ sk room(1) _ _ refl, of "mk_task 0 0 [] 1502000"]
      line [OF demo_stays [OF own(2)] opens(2) _ sk room(2) _ _ refl, of "mk_task 9 0 [] 1503000"] log
    by (simp add: life_lru_def c_str_def life_slot_def who real_fp_def)
qed

end
