(* ===== verification/Loaders.thy ===== *)
theory Loaders
  imports Loader Exec_Snoop Snoop_Lines Stash Tcp_Life
begin

text \<open>
  The \<open>main\<close> functions of the ring-buffer tools, chapters 7 to 13, 15 and 20, with the callbacks
  they register. The theorem composes a tool with its callback's own: what \<open>execsnoop\<close> prints
  does not depend on how the polls cut the stream of records.
\<close>

section \<open>The tools of chapters 7 to 13\<close>

definition execsnoop7_main :: "exec_event loader_env \<Rightarrow> (nat \<times> nat \<times> bytes \<times> bytes) act list \<times> int" where
  "execsnoop7_main =
     ring_main ''Failed to attach'' [] [''PID'', ''UID'', ''COMM'', ''FILENAME''] (line_of handle_event7) ()"

definition execsnoop8_main :: "arg_event loader_env \<Rightarrow> cmd_line act list \<times> int" where
  "execsnoop8_main =
     ring_main ''Failed to attach'' [] [''PID'', ''UID'', ''COMM'', ''COMMAND LINE''] Exec_Snoop.handle_event table_init"

text \<open>Chapter 9 has its own copy of the flag decoder.\<close>

definition decode_flags9 :: "u32 \<Rightarrow> nat \<Rightarrow> string" where
  "decode_flags9 flags bufsz =
     (let m = and flags O_ACCMODE;
          acc = if m = 0 then ''r'' else if m = 1 then ''w'' else if m = 2 then ''rw'' else ''?''
      in snprintf_str bufsz
           (acc @ (if and flags O_CREAT \<noteq> 0 then ''c'' else '''')
                @ (if and flags O_TRUNC \<noteq> 0 then ''t'' else '''')))"

lemma decode_flags9_eq: "decode_flags9 = decode_flags"
  by (simp add: fun_eq_iff decode_flags9_def decode_flags_def)

definition openat_handle_event :: "openat_event \<Rightarrow> nat \<times> nat \<times> bytes \<times> string \<times> bytes" where
  "openat_handle_event e =
     (unat (oa_pid e), unat (oa_uid e), c_str (oa_comm e), decode_flags9 (oa_flags e) 8, c_str (oa_filename e))"

definition opensnoop9_main ::
  "openat_event loader_env \<Rightarrow> (nat \<times> nat \<times> bytes \<times> string \<times> bytes) act list \<times> int" where
  "opensnoop9_main =
     ring_main ''Failed to attach'' [] [''PID'', ''UID'', ''COMM'', ''FLAGS'', ''FILENAME'']
       (line_of openat_handle_event) ()"

definition opensnoop10_main :: "open_event loader_env \<Rightarrow> open_line act list \<times> int" where
  "opensnoop10_main =
     ring_main ''Failed to attach'' [] [''PID'', ''UID'', ''COMM'', ''RET'', ''FLAGS'', ''FILENAME'']
       (line_of open_handle_event) ()"

definition netsnoop_main ::
  "(u16 \<Rightarrow> bytes \<Rightarrow> string) \<Rightarrow> conn_event loader_env \<Rightarrow> conn_line act list \<times> int" where
  "netsnoop_main inet_ntop =
     ring_main ''Failed to attach'' [] [''PID'', ''UID'', ''COMM'', ''PROTO'', ''DEST-ADDR'', ''PORT'', ''STATUS'']
       (line_of (conn_handle_event inet_ntop)) ()"

definition tcpstates_main ::
  "'d fp_ops \<Rightarrow> (u16 \<Rightarrow> bytes \<Rightarrow> string) \<Rightarrow> state_event loader_env \<Rightarrow> 'd state_line act list \<times> int" where
  "tcpstates_main fp inet_ntop =
     ring_main ''Failed to attach (is tcp_set_state probe-able?)'' []
       [''SKADDR'', ''PID'', ''COMM'', ''AF'', ''SADDR:PORT'', ''DADDR:PORT'', ''OLDSTATE'', ''NEWSTATE'', ''MS'']
       (line_of (states_handle_event fp inet_ntop)) ()"

definition tcplife_main ::
  "'d fp_ops \<Rightarrow> (u16 \<Rightarrow> bytes \<Rightarrow> string) \<Rightarrow> life_event loader_env \<Rightarrow> 'd life_line act list \<times> int" where
  "tcplife_main fp inet_ntop =
     ring_main ''Failed to attach (is tcp_set_state probe-able?)'' []
       [''PID'', ''COMM'', ''AF'', ''LADDR:PORT'', ''RADDR:PORT'', ''TX_KB'', ''RX_KB'', ''RTT_MS'', ''RETR'', ''DUR_MS'']
       (line_of (life_handle_event fp inet_ntop)) ()"

section \<open>15-bashreadline and 20-lsm\<close>

text \<open>The uretprobe is a link of its own; \<open>ld_attach\<close> is \<open>-errno\<close> when it could not be made.\<close>

definition bashreadline_main :: "line_event loader_env \<Rightarrow> (nat \<times> bytes \<times> bytes) act list \<times> int" where
  "bashreadline_main env =
     (if \<not> ld_loaded env then ([Print_off, Open_load, Err ''Failed to open/load BPF skeleton''], 1)
      else
        let err = ld_attach env in
        if err \<noteq> 0 then ([Print_off, Open_load, Attach, Err ''Failed to attach uretprobe'', Destroy], exit_code err)
        else if \<not> ld_ring env
        then ([Print_off, Open_load, Attach, Ring_new, Err ''Failed to create ring buffer'', Link_destroy, Destroy],
              exit_code 1)
        else
          let (tr, err) = poll_loop (line_of line_handle_event) (ld_polls env) 0 ()
          in ([Print_off, Open_load, Attach, Ring_new, Signals, Say ''Tracing readline'',
               Header [''PID'', ''COMM'', ''COMMAND'']] @ tr @
                [Bye, Ring_free, Link_destroy, Destroy],
              exit_code err))"

text \<open>
  \<open>fgets\<close> into 256 bytes: 255 characters at most, up to and with the first newline; nothing of
  an empty file. \<open>strtok\<close> gives the non-empty pieces between commas and newlines.
\<close>

definition c_fgets :: "nat \<Rightarrow> string \<Rightarrow> string option" where
  "c_fgets n file =
     (if file = '''' then None
      else Some (let l = takeWhile (\<lambda>c. c \<noteq> CHR 0x0A) file
                 in take (n - 1) (if length l < length file then l @ [CHR 0x0A] else l)))"

fun c_tokens :: "char list \<Rightarrow> string \<Rightarrow> string \<Rightarrow> string list" where
  "c_tokens delims cur [] = (if cur = '''' then [] else [cur])"
| "c_tokens delims cur (c # cs) =
     (if c \<in> set delims then (if cur = '''' then [] else [cur]) @ c_tokens delims '''' cs
      else c_tokens delims (cur @ [c]) cs)"

definition bpf_lsm_active :: "string option \<Rightarrow> 'l act list \<times> bool" where
  "bpf_lsm_active file =
     (case file of
        None \<Rightarrow> ([], False)
      | Some text \<Rightarrow>
          (case c_fgets 256 text of
             None \<Rightarrow> ([], False)
           | Some buf \<Rightarrow>
               let tmp = snprintf_str 256 buf;
                   found = ''bpf'' \<in> set (c_tokens [CHR '','', CHR 0x0A] '''' tmp)
               in (if found then [] else [Err (''BPF LSM is not active. Current LSMs: '' @ buf)], found)))"

definition execguard_main ::
  "string option \<Rightarrow> guard_event loader_env \<Rightarrow> (nat \<times> string \<times> bytes \<times> bytes) act list \<times> int" where
  "execguard_main lsm_file env =
     (case bpf_lsm_active lsm_file of
        (tr, False) \<Rightarrow> (tr, 0)
      | (tr, True) \<Rightarrow>
          let (tr', code) = ring_main ''Failed to attach LSM program''
                [''Auditing exec via LSM bprm_check (always allowing). Ctrl-C to stop.'']
                [''PID'', ''VERDICT'', ''COMM'', ''PROGRAM''] (line_of guard_handle_event) () env
          in (tr @ tr', code))"

section \<open>The argument tool from ring to output\<close>

text \<open>
  The argument tool from its ring to its output: for every way the polls cut the stream of
  records, and every interleaving of processes whose ids fall into different slots of the
  table, \<open>execsnoop\<close> prints the command lines a dictionary keyed by process would, of all the
  records it was handed up to the poll that ended the run.
\<close>

theorem execsnoop_prints:
  assumes env: "ld_loaded env" "ld_attach env = 0" "ld_ring env"
    and inj: "inj_on slot_of (ae_pid ` set (polled (ld_polls env)))"
  shows "lines_of (fst (execsnoop8_main env)) = snd (dict_run (polled (ld_polls env)) (\<lambda>_. None))"
proof -
  have "consume Exec_Snoop.handle_event es t = exec_run es t" for es t
    by (induction es arbitrary: t) (simp_all add: split_beta)
  with run_refines [OF table_rel_init order_refl inj] show ?thesis
    by (simp add: execsnoop8_main_def ring_main_prints [OF env])
qed

theorem execsnoop_prints_witness:
  "lines_of (fst (execsnoop8_main
     \<lparr>ld_loaded = True, ld_attach = 0, ld_ring = True,
      ld_polls = [(take 2 exec_evs, 2), ([], 0), (drop 2 exec_evs, - 4)]\<rparr>)) =
     [(8, 0, [115, 104], [[112, 115]]), (7, 0, [115, 104], [[108, 115], [45, 108]])]"
proof -
  let ?env = "\<lparr>ld_loaded = True, ld_attach = 0, ld_ring = True,
      ld_polls = [(take 2 exec_evs, 2), ([], 0), (drop 2 exec_evs, - 4)]\<rparr>"
  have p: "polled (ld_polls ?env) = exec_evs" by simp
  have "inj_on slot_of (ae_pid ` set exec_evs)"
    by (auto simp: exec_evs_def inj_on_def slot_of_def TABLE_SIZE_def)
  then have "lines_of (fst (execsnoop8_main ?env)) = snd (dict_run exec_evs (\<lambda>_. None))"
    using execsnoop_prints [of ?env] p by simp
  then show ?thesis
    by (simp add: exec_evs_def dict_event_def EVENT_ARG_def c_str_def)
qed

end
