(* ===== verification/Bcc_Exec.thy ===== *)
theory Bcc_Exec
  imports Loaders
begin

text \<open>
  03-perf-buffer, 04-tracepoint, 05-argv and 06-ringbuf: the execve tools in Python. Their kernel
  programs are C in a string that BCC compiles; \<open>submit\<close> is \<open>perf_submit\<close>, which tells the program
  nothing about a full buffer. The callbacks run in Python on the records as \<open>ctypes\<close> shows them,
  where a char array reads as its bytes up to the first NUL. A command line is the list of its words,
  which the tool prints with blanks between them. Decoding the bytes
  (\<open>bytes.decode('utf-8', 'replace')\<close>) is a parameter, and the theorems hold for every decoder.

  08-argv-libbpf is the port of 06-ringbuf to C; the first theorem says what the port changed in the
  output, nothing but the cap on the arguments of a line. The perf buffer is one queue per CPU,
  and the consumer takes records from the queues in any order. For a process that stays on one CPU
  the command lines come out as they were made, whatever that order is; for one that moves they
  need not.
\<close>

section \<open>03-perf-buffer\<close>

record stream_data =
  sd_pid :: u32
  sd_uid :: u32
  sd_command :: bytes

definition stream_data_zero :: stream_data where
  "stream_data_zero = \<lparr>sd_pid = 0, sd_uid = 0, sd_command = replicate 16 0\<rparr>"

definition hello3 :: "('b \<Rightarrow> stream_data \<Rightarrow> 'b) \<Rightarrow> task_ctx \<Rightarrow> 'b \<Rightarrow> int \<times> 'b" where
  "hello3 submit t b =
     (let data = stream_data_zero\<lparr>sd_pid := cur_pid t, sd_uid := cur_uid t, sd_command := t_comm t\<rparr>
      in (0, submit b data))"

definition print_event3 :: "(bytes \<Rightarrow> 'c) \<Rightarrow> stream_data \<Rightarrow> nat \<times> nat \<times> 'c" where
  "print_event3 decode e = (unat (sd_pid e), unat (sd_uid e), decode (c_str (sd_command e)))"

text \<open>A run of a tool: column titles, the lines for the records delivered until Ctrl-C, a farewell.\<close>

definition bcc_main :: "string list \<Rightarrow> ('e \<Rightarrow> 's \<Rightarrow> 's \<times> 'l list) \<Rightarrow> 's \<Rightarrow> 'e list \<Rightarrow> 'l act list" where
  "bcc_main header callback s es = Header header # map Line (snd (consume callback es s)) @ [Bye]"

definition exec_stream :: "(bytes \<Rightarrow> 'c) \<Rightarrow> stream_data list \<Rightarrow> (nat \<times> nat \<times> 'c) act list" where
  "exec_stream decode = bcc_main [''PID'', ''UID'', ''COMMAND''] (line_of (print_event3 decode)) ()"

section \<open>04-tracepoint\<close>

record path_data =
  pd_pid :: u32
  pd_uid :: u32
  pd_comm :: bytes
  pd_filename :: bytes

definition path_data_zero :: path_data where
  "path_data_zero = \<lparr>pd_pid = 0, pd_uid = 0, pd_comm = replicate 16 0, pd_filename = replicate 256 0\<rparr>"

definition sys_enter_execve4 ::
  "('b \<Rightarrow> path_data \<Rightarrow> 'b) \<Rightarrow> probe_ops \<Rightarrow> task_ctx \<Rightarrow> u64 list \<Rightarrow> 'b \<Rightarrow> int \<times> 'b" where
  "sys_enter_execve4 submit probe t args b =
     (let data = path_data_zero\<lparr>pd_pid := cur_pid t, pd_uid := cur_uid t, pd_comm := t_comm t\<rparr>;
          data = data\<lparr>pd_filename := snd (probe_read_user_str probe (args ! 0) (pd_filename data))\<rparr>
      in (0, submit b data))"

definition print_event4 :: "(bytes \<Rightarrow> 'c) \<Rightarrow> path_data \<Rightarrow> nat \<times> nat \<times> 'c \<times> 'c" where
  "print_event4 decode e =
     (unat (pd_pid e), unat (pd_uid e), decode (c_str (pd_comm e)), decode (c_str (pd_filename e)))"

definition execsnoop4 :: "(bytes \<Rightarrow> 'c) \<Rightarrow> path_data list \<Rightarrow> (nat \<times> nat \<times> 'c \<times> 'c) act list" where
  "execsnoop4 decode = bcc_main [''PID'', ''UID'', ''COMM'', ''FILENAME''] (line_of (print_event4 decode)) ()"

section \<open>05-argv\<close>

text \<open>
  The record is that of 08-argv-libbpf. It lives on the stack and is sent again and again, so
  an argument keeps the tail of a longer one before it, and the end marker the last argument.
\<close>

definition arg_data_zero :: arg_event where
  "arg_data_zero = \<lparr>ae_pid = 0, ae_uid = 0, ae_comm = replicate 16 0, ae_type = 0, ae_arg = replicate ARGSIZE 0\<rparr>"

definition submit_arg ::
  "('b \<Rightarrow> arg_event \<Rightarrow> 'b) \<Rightarrow> probe_ops \<Rightarrow> u64 \<Rightarrow> arg_event \<Rightarrow> 'b \<Rightarrow> arg_event \<times> 'b" where
  "submit_arg submit probe ptr data b =
     (let data = data\<lparr>ae_arg := snd (probe_read_user_str probe ptr (ae_arg data))\<rparr> in (data, submit b data))"

fun arg_loop5 ::
  "('b \<Rightarrow> arg_event \<Rightarrow> 'b) \<Rightarrow> probe_ops \<Rightarrow> u64 \<Rightarrow> nat list \<Rightarrow> arg_event \<Rightarrow> 'b \<Rightarrow> arg_event \<times> 'b" where
  "arg_loop5 submit probe argv [] data b = (data, b)"
| "arg_loop5 submit probe argv (i # is) data b =
     (let argp = le64 (snd (probe_read_user probe (argv + 8 * of_nat i) (replicate 8 0))) in
      if argp = 0 then (data, b)
      else let (data, b) = submit_arg submit probe argp data b in arg_loop5 submit probe argv is data b)"

definition sys_enter_execve5 ::
  "('b \<Rightarrow> arg_event \<Rightarrow> 'b) \<Rightarrow> probe_ops \<Rightarrow> task_ctx \<Rightarrow> u64 list \<Rightarrow> 'b \<Rightarrow> int \<times> 'b" where
  "sys_enter_execve5 submit probe t args b =
     (let data = arg_data_zero\<lparr>ae_pid := cur_pid t, ae_uid := cur_uid t, ae_comm := t_comm t, ae_type := EVENT_ARG\<rparr>;
          (data, b) = arg_loop5 submit probe (args ! 1) [0..<MAXARGS] data b
      in (0, submit b (data\<lparr>ae_type := EVENT_RET\<rparr>)))"

text \<open>\<open>pending\<close>: for a process its user, its name and the arguments so far.\<close>

type_synonym 'c py_pending = "u32 \<Rightarrow> (u32 \<times> 'c \<times> 'c list) option"

type_synonym 'c py_line = "u32 \<times> u32 \<times> 'c \<times> 'c list"

definition print_event :: "(bytes \<Rightarrow> 'c) \<Rightarrow> arg_event \<Rightarrow> 'c py_pending \<Rightarrow> 'c py_pending \<times> 'c py_line list" where
  "print_event decode e pending =
     (if ae_type e = EVENT_ARG
      then let (uid, comm, argv) =
                 (case pending (ae_pid e) of None \<Rightarrow> (ae_uid e, decode (c_str (ae_comm e)), []) | Some slot \<Rightarrow> slot)
           in (pending(ae_pid e \<mapsto> (uid, comm, argv @ [decode (c_str (ae_arg e))])), [])
      else
        (case pending (ae_pid e) of
           None \<Rightarrow> (pending, [])
         | Some (uid, comm, argv) \<Rightarrow> (pending(ae_pid e := None), [(ae_pid e, uid, comm, argv)])))"

definition execsnoop5 :: "(bytes \<Rightarrow> 'c) \<Rightarrow> arg_event list \<Rightarrow> 'c py_line act list" where
  "execsnoop5 decode =
     bcc_main [''PID'', ''UID'', ''COMM'', ''COMMAND LINE''] (print_event decode) (\<lambda>_. None)"

section \<open>06-ringbuf\<close>

text \<open>
  The kernel program is that of 08-argv-libbpf, with BCC's spelling of the ring operations, and the
  callback that of 05-argv without the CPU number.
\<close>

definition sys_enter_execve6 ::
  "('r, arg_event) ring_ops \<Rightarrow> probe_ops \<Rightarrow> task_ctx \<Rightarrow> u64 list \<Rightarrow> 'r \<Rightarrow> 'r" where
  "sys_enter_execve6 = trace_execve"

definition execsnoop6 :: "(bytes \<Rightarrow> 'c) \<Rightarrow> arg_event list \<Rightarrow> 'c py_line act list" where
  "execsnoop6 decode =
     bcc_main [''PID'', ''UID'', ''COMM'', ''COMMAND LINE''] (print_event decode) (\<lambda>_. None)"

lemma bcc_main_lines [simp]: "lines_of (bcc_main header callback s es) = snd (consume callback es s)"
  by (simp add: bcc_main_def)

section \<open>The port to C\<close>

text \<open>An entry of the C tool's dictionary and one of the Python tool's, up to decoding and the cap.\<close>

definition c_view :: "(bytes \<Rightarrow> 'c) \<Rightarrow> u32 \<times> bytes \<times> bytes list \<Rightarrow> u32 \<times> 'c \<times> 'c list" where
  "c_view decode = (\<lambda>(uid, comm, args). (uid, decode (c_str comm), map decode args))"

definition py_view :: "u32 \<times> 'c \<times> 'c list \<Rightarrow> u32 \<times> 'c \<times> 'c list" where
  "py_view = (\<lambda>(uid, comm, argv). (uid, comm, take 20 argv))"

definition port_rel :: "(bytes \<Rightarrow> 'c) \<Rightarrow> dict \<Rightarrow> 'c py_pending \<Rightarrow> bool" where
  "port_rel decode d pending \<longleftrightarrow> map_option (c_view decode) \<circ> d = map_option py_view \<circ> pending"

text \<open>A printed line of either tool, the same way.\<close>

definition decode_line :: "(bytes \<Rightarrow> 'c) \<Rightarrow> cmd_line \<Rightarrow> 'c py_line" where
  "decode_line decode = (\<lambda>(pid, uid, comm, args). (pid, uid, decode comm, map decode args))"

definition cap_line :: "'c py_line \<Rightarrow> 'c py_line" where
  "cap_line = (\<lambda>(pid, uid, comm, argv). (pid, uid, comm, take MAXARGS argv))"

lemma take_snoc_cap: "take n xs = ys \<Longrightarrow> take n (ys @ [x]) = take n (xs @ [x])"
  by (auto simp: min_def)

lemma port_rel_upd:
  "port_rel decode d pending \<Longrightarrow> map_option (c_view decode) a = map_option py_view b \<Longrightarrow>
   port_rel decode (d(k := a)) (pending(k := b))"
  by (simp add: port_rel_def fun_upd_comp)

lemma c_str_terminated:
  assumes "0 \<in> set (take 128 (ae_arg e))"
  shows "c_str (take 127 (ae_arg e)) = c_str (ae_arg e)"
proof (rule c_str_take)
  from assms obtain i where "i < 128" "i < length (ae_arg e)" "ae_arg e ! i = 0"
    by (auto simp: in_set_conv_nth)
  with c_str_short [of "ae_arg e" i] show "length (c_str (ae_arg e)) \<le> 127" by simp
qed

lemma port_event:
  assumes rel: "port_rel decode d pending" and arg: "0 \<in> set (take 128 (ae_arg e))"
  shows "port_rel decode (fst (dict_event e d)) (fst (print_event decode e pending)) \<and>
    map (decode_line decode) (snd (dict_event e d)) = map cap_line (snd (print_event decode e pending))"
proof -
  have at: "map_option (c_view decode) (d (ae_pid e)) = map_option py_view (pending (ae_pid e))"
    using rel by (auto simp: port_rel_def fun_eq_iff)
  define s where "s = (case d (ae_pid e) of None \<Rightarrow> (ae_uid e, ae_comm e, []) | Some x \<Rightarrow> x)"
  define s' where "s' = (case pending (ae_pid e) of None \<Rightarrow> (ae_uid e, decode (c_str (ae_comm e)), []) | Some x \<Rightarrow> x)"
  obtain uid comm args where s: "s = (uid, comm, args)" by (cases s)
  obtain uid' comm' argv where s': "s' = (uid', comm', argv)" by (cases s')
  have "c_view decode s = py_view s'"
    using at by (auto simp: s_def s'_def c_view_def py_view_def split: option.splits)
  then have eq: "uid' = uid" "comm' = decode (c_str comm)" "take 20 argv = map decode args"
    by (auto simp: s s' c_view_def py_view_def)
  show ?thesis
  proof (cases "ae_type e = EVENT_ARG")
    case True
    have "c_view decode (uid, comm, take 20 (args @ [c_str (ae_arg e)])) =
        py_view (uid', comm', argv @ [decode (c_str (ae_arg e))])"
      using take_snoc_cap [OF eq(3), of "decode (c_str (ae_arg e))"] eq(1,2)
      by (simp add: c_view_def py_view_def take_map [symmetric] del: take_append)
    with True show ?thesis
      unfolding dict_event_def print_event_def s_def [symmetric] s'_def [symmetric] s s'
      by (simp add: c_str_terminated [OF arg] port_rel_upd [OF rel] del: take_append)
  next
    case False
    with at rel port_rel_upd [OF rel, of None None] show ?thesis
      by (cases "d (ae_pid e)"; cases "pending (ae_pid e)")
         (auto simp: dict_event_def print_event_def decode_line_def cap_line_def MAXARGS_def c_view_def py_view_def)
  qed
qed

lemma port_run:
  "port_rel decode d pending \<Longrightarrow> (\<And>e. e \<in> set es \<Longrightarrow> 0 \<in> set (take 128 (ae_arg e))) \<Longrightarrow>
   map (decode_line decode) (snd (dict_run es d)) = map cap_line (snd (consume (print_event decode) es pending))"
proof (induction es arbitrary: d pending)
  case (Cons e es)
  from port_event [OF Cons.prems(1), of e] Cons.prems(2) Cons.IH show ?case
    by (auto simp: split_beta)
qed simp

text \<open>
  C11. The port of 06-ringbuf to C in 08-argv-libbpf: on the same stream of records, with
  processes whose ids fall into different slots of the table, the C tool prints, in the same order, what
  the Python tool prints, and every line differs at most in that it stops after twenty arguments. The
  4096-slot table for a dictionary, the copies into fixed arrays and the cutting of the stream
  into polls change nothing else. \<open>decode\<close> is any reading of the bytes as text.
\<close>

theorem exec_port_equiv:
  assumes env: "ld_loaded env" "ld_attach env = 0" "ld_ring env"
    and slots: "inj_on slot_of (ae_pid ` set (polled (ld_polls env)))"
    and args: "\<And>e. e \<in> set (polled (ld_polls env)) \<Longrightarrow> 0 \<in> set (take 128 (ae_arg e))"
  shows "map (decode_line decode) (lines_of (fst (execsnoop8_main env))) =
    map cap_line (lines_of (execsnoop6 decode (polled (ld_polls env))))"
  using execsnoop_prints [OF env slots] port_run [OF _ args, of decode "\<lambda>_. None" "\<lambda>_. None"]
  by (simp add: execsnoop6_def port_rel_def comp_def)

theorem exec_port_equiv_witness:
  "map (decode_line id) (lines_of (fst (execsnoop8_main
     \<lparr>ld_loaded = True, ld_attach = 0, ld_ring = True, ld_polls = [(take 2 exec_evs, 2), (drop 2 exec_evs, - 4)]\<rparr>))) =
   [(8, 0, [115, 104], [[112, 115]]), (7, 0, [115, 104], [[108, 115], [45, 108]])]"
proof -
  let ?env = "\<lparr>ld_loaded = True, ld_attach = 0, ld_ring = True, ld_polls = [(take 2 exec_evs, 2), (drop 2 exec_evs, - 4)]\<rparr>"
  have p: "polled (ld_polls ?env) = exec_evs" by simp
  have "inj_on slot_of (ae_pid ` set exec_evs)"
    by (auto simp: exec_evs_def inj_on_def slot_of_def TABLE_SIZE_def)
  moreover have "0 \<in> set (take 128 (ae_arg e))" if "e \<in> set exec_evs" for e
    using that by (auto simp: exec_evs_def)
  ultimately have "map (decode_line id) (lines_of (fst (execsnoop8_main ?env))) = map cap_line (lines_of (execsnoop6 id exec_evs))"
    using exec_port_equiv [of ?env id] p by simp
  then show ?thesis
    by (simp add: execsnoop6_def exec_evs_def print_event_def EVENT_ARG_def c_str_def cap_line_def MAXARGS_def)
qed

section \<open>The perf buffer\<close>

text \<open>
  One queue per CPU. A program submits on the CPU it runs on, or loses the record when the
  queue is full; the consumer takes the oldest record of any CPU.
\<close>

datatype 'e perf_label = Submit nat 'e | Lose nat 'e | Deliver nat 'e

inductive perf_trace :: "'e perf_label list \<Rightarrow> (nat \<Rightarrow> 'e list) \<Rightarrow> bool" where
  start: "perf_trace [] (\<lambda>_. [])"
| submit: "perf_trace tr q \<Longrightarrow> perf_trace (tr @ [Submit c e]) (q(c := q c @ [e]))"
| lose: "perf_trace tr q \<Longrightarrow> perf_trace (tr @ [Lose c e]) q"
| deliver: "perf_trace tr q \<Longrightarrow> q c = e # es \<Longrightarrow> perf_trace (tr @ [Deliver c e]) (q(c := es))"

definition submitted :: "nat \<Rightarrow> 'e perf_label list \<Rightarrow> 'e list" where
  "submitted c tr = concat (map (\<lambda>l. case l of Submit c' e \<Rightarrow> if c' = c then [e] else [] | _ \<Rightarrow> []) tr)"

definition delivered :: "'e perf_label list \<Rightarrow> (nat \<times> 'e) list" where
  "delivered tr = concat (map (\<lambda>l. case l of Deliver c e \<Rightarrow> [(c, e)] | _ \<Rightarrow> []) tr)"

definition from_cpu :: "nat \<Rightarrow> (nat \<times> 'e) list \<Rightarrow> 'e list" where
  "from_cpu c ds = map snd (filter (\<lambda>d. fst d = c) ds)"

lemma perf_label_lists [simp]:
  "submitted c (tr @ [Submit c' e]) = submitted c tr @ (if c' = c then [e] else [])"
  "submitted c (tr @ [Lose c' e]) = submitted c tr"
  "submitted c (tr @ [Deliver c' e]) = submitted c tr"
  "delivered (tr @ [Submit c' e]) = delivered tr"
  "delivered (tr @ [Lose c' e]) = delivered tr"
  "delivered (tr @ [Deliver c' e]) = delivered tr @ [(c', e)]"
  "submitted c [] = []" "delivered [] = []"
  by (simp_all add: submitted_def delivered_def)

text \<open>The records of a CPU come out in the order they went in.\<close>

lemma perf_fifo: "perf_trace tr q \<Longrightarrow> submitted c tr = from_cpu c (delivered tr) @ q c"
  by (induction rule: perf_trace.induct) (auto simp: from_cpu_def)

lemma perf_one_cpu:
  assumes "perf_trace tr q" "q c = []" "\<And>c' e. c' \<noteq> c \<Longrightarrow> e \<in> set (submitted c' tr) \<Longrightarrow> \<not> P e"
  shows "filter P (map snd (delivered tr)) = filter P (submitted c tr)"
proof -
  have "\<not> P (snd d)" if "d \<in> set (delivered tr)" "fst d \<noteq> c" for d
    using that assms(3) [of "fst d" "snd d"] perf_fifo [OF assms(1), of "fst d"]
    by (auto simp: from_cpu_def)
  then have "filter P (map snd (delivered tr)) = filter P (from_cpu c (delivered tr))"
    unfolding from_cpu_def filter_map filter_filter comp_def
    by (intro arg_cong [where f = "map snd"] filter_cong) auto
  with perf_fifo [OF assms(1), of c] assms(2) show ?thesis by simp
qed

text \<open>A ring is the case of one queue: every record comes out in the order of submission.\<close>

lemma ring_order:
  assumes "perf_trace tr q" "q 0 = []" "\<And>c. 0 < c \<Longrightarrow> submitted c tr = []"
  shows "map snd (delivered tr) = submitted 0 tr"
  using perf_one_cpu [OF assms(1,2), of "\<lambda>_. True"] assms(3) by auto

section \<open>The lines of a process\<close>

text \<open>They depend on the records of that process only.\<close>

lemma print_event_other: "ae_pid e \<noteq> p \<Longrightarrow> fst (print_event decode e pending) p = pending p \<and>
    filter (\<lambda>l. fst l = p) (snd (print_event decode e pending)) = []"
  by (auto simp: print_event_def split_beta Let_def split: option.splits)

lemma print_event_own:
  assumes "ae_pid e = p" "pending p = pending' p"
  shows "fst (print_event decode e pending) p = fst (print_event decode e pending') p \<and>
    filter (\<lambda>l. fst l = p) (snd (print_event decode e pending)) = snd (print_event decode e pending')"
  using assms by (auto simp: print_event_def split_beta Let_def split: option.splits)

lemma lines_of_process:
  "pending p = pending' p \<Longrightarrow>
   filter (\<lambda>l. fst l = p) (snd (consume (print_event decode) es pending)) =
     snd (consume (print_event decode) (filter (\<lambda>e. ae_pid e = p) es) pending')"
proof (induction es arbitrary: pending pending')
  case (Cons e es)
  show ?case
  proof (cases "ae_pid e = p")
    case True
    with print_event_own [OF True, of pending pending' decode] Cons.prems Cons.IH show ?thesis
      by (simp add: split_beta)
  next
    case False
    with print_event_other [OF False, of decode pending] Cons.IH Cons.prems show ?thesis
      by (simp add: split_beta)
  qed
qed simp

text \<open>The records of one call, from a state without an entry for the process.\<close>

lemma consume_args:
  "list_all2 (arg_of t) as strs \<Longrightarrow> pending (cur_pid t) = Some (cur_uid t, decode (c_str (t_comm t)), xs) \<Longrightarrow>
   consume (print_event decode) as pending =
     (pending(cur_pid t \<mapsto> (cur_uid t, decode (c_str (t_comm t)), xs @ map decode strs)), [])"
  by (induction as strs arbitrary: pending xs rule: list_all2_induct)
     (auto simp: print_event_def arg_of_def Let_def fun_upd_idem)

lemma consume_call:
  assumes "list_all2 (arg_of t) as strs" "strs \<noteq> []" "pending (cur_pid t) = None"
    and "ae_pid ret = cur_pid t" "ae_type ret = EVENT_RET"
  shows "consume (print_event decode) (as @ [ret]) pending =
    (pending, [(cur_pid t, cur_uid t, decode (c_str (t_comm t)), map decode strs)])"
proof -
  from assms(1,2) obtain a as' s ss where eq: "as = a # as'" "strs = s # ss" "arg_of t a s" "list_all2 (arg_of t) as' ss"
    by (cases strs) (auto simp: list_all2_Cons2)
  let ?pending = "pending(cur_pid t \<mapsto> (cur_uid t, decode (c_str (t_comm t)), [decode s]))"
  have "print_event decode a pending = (?pending, [])"
    using eq(3) assms(3) by (simp add: print_event_def arg_of_def)
  moreover have "consume (print_event decode) as' ?pending =
      (pending(cur_pid t \<mapsto> (cur_uid t, decode (c_str (t_comm t)), map decode strs)), [])"
    using consume_args [OF eq(4), of ?pending decode "[decode s]"] eq(2) by simp
  ultimately show ?thesis
    using assms(3-5) by (simp add: eq(1) consume_append print_event_def EVENT_ARG_def EVENT_RET_def fun_upd_idem)
qed

section \<open>05-argv from the system calls to the lines\<close>

text \<open>A call of execve: the task, how its memory reads, and the arguments of the tracepoint.\<close>

record exec_call =
  xc_task :: task_ctx
  xc_probe :: probe_ops
  xc_args :: "u64 list"

definition exec5_records :: "exec_call \<Rightarrow> arg_event list" where
  "exec5_records x = snd (sys_enter_execve5 (\<lambda>b e. b @ [e]) (xc_probe x) (xc_task x) (xc_args x) [])"

definition data_of :: "task_ctx \<Rightarrow> arg_event \<Rightarrow> bool" where
  "data_of t data \<longleftrightarrow> ae_pid data = cur_pid t \<and> ae_uid data = cur_uid t \<and> ae_comm data = t_comm t \<and>
     ae_type data = EVENT_ARG \<and> length (ae_arg data) = 128"

lemma arg_loop5_sends:
  assumes probe: "bpf_probe probe mem"
  shows "user_argv mem argv k strs \<Longrightarrow> k \<le> 20 \<Longrightarrow> data_of t data \<Longrightarrow>
    \<exists>data' as. arg_loop5 (\<lambda>b e. b @ [e]) probe argv [k..<20] data b = (data', b @ as) \<and> data_of t data' \<and>
      list_all2 (arg_of t) as (take (20 - k) strs)"
proof (induction strs arbitrary: k data b)
  case Nil
  have "k = 20 \<or> [k..<20] = k # [Suc k..<20]"
    using Nil.prems(2) upt_conv_Cons [of k 20] by fastforce
  with argp_end [OF probe Nil.prems(1)] Nil.prems(3) show ?case
    by (auto simp: argp_def)
next
  case (Cons s ss)
  show ?case
  proof (cases "k = 20")
    case False
    with Cons.prems(2) have k: "[k..<20] = k # [Suc k..<20]" "Suc k \<le> 20" "20 - k = Suc (20 - Suc k)"
      by (simp_all add: upt_conv_Cons)
    note argp = argp_next [OF probe Cons.prems(1)]
    let ?data = "data\<lparr>ae_arg := snd (probe_read_user_str probe (argp probe argv k) (ae_arg data))\<rparr>"
    have data: "data_of t ?data" "arg_of t ?data s"
      using Cons.prems(3) argp(3,4) bpf_probe.read_str_length [OF probe] c_str_take [of "ae_arg ?data" 127]
      by (simp_all add: data_of_def arg_of_def)
    from Cons.IH [OF argp(2) k(2) data(1), of "b @ [?data]"] obtain data' as where
      IH: "arg_loop5 (\<lambda>b e. b @ [e]) probe argv [Suc k..<20] ?data (b @ [?data]) = (data', (b @ [?data]) @ as)"
      "data_of t data'" "list_all2 (arg_of t) as (take (20 - Suc k) ss)"
      by blast
    have "arg_loop5 (\<lambda>b e. b @ [e]) probe argv [k..<20] data b = (data', b @ ?data # as)"
      using IH(1) argp(1) by (simp add: k(1) argp_def submit_arg_def Let_def)
    moreover have "list_all2 (arg_of t) (?data # as) (take (20 - k) (s # ss))"
      using IH(3) data(2) unfolding k(3) by (simp only: take_Suc_Cons list_all2_Cons simp_thms)
    ultimately show ?thesis using IH(2) by blast
  qed (use Cons.prems(3) in simp)
qed

text \<open>A call with at least one argument, all of them in the caller's memory.\<close>

definition call_argv :: "exec_call \<Rightarrow> bytes list \<Rightarrow> bool" where
  "call_argv x strs \<longleftrightarrow> strs \<noteq> [] \<and> (\<exists>mem. bpf_probe (xc_probe x) mem \<and> user_argv mem (xc_args x ! 1) 0 strs)"

lemma exec5_records_sent:
  assumes "call_argv x strs"
  shows "\<exists>as ret. exec5_records x = as @ [ret] \<and> list_all2 (arg_of (xc_task x)) as (take 20 strs) \<and>
    ae_pid ret = cur_pid (xc_task x) \<and> ae_type ret = EVENT_RET"
proof -
  let ?t = "xc_task x"
  let ?data = "arg_data_zero\<lparr>ae_pid := cur_pid ?t, ae_uid := cur_uid ?t, ae_comm := t_comm ?t, ae_type := EVENT_ARG\<rparr>"
  from assms obtain mem where mem: "bpf_probe (xc_probe x) mem" "user_argv mem (xc_args x ! 1) 0 strs"
    by (auto simp: call_argv_def)
  have "data_of ?t ?data"
    by (simp add: data_of_def arg_data_zero_def ARGSIZE_def)
  from arg_loop5_sends [OF mem _ this, of "[]"] obtain data' as where
    "arg_loop5 (\<lambda>b e. b @ [e]) (xc_probe x) (xc_args x ! 1) [0..<20] ?data [] = (data', as)" "data_of ?t data'"
    "list_all2 (arg_of ?t) as (take 20 strs)"
    by auto
  then show ?thesis
    by (intro exI [of _ as] exI [of _ "data'\<lparr>ae_type := EVENT_RET\<rparr>"])
       (simp add: exec5_records_def sys_enter_execve5_def MAXARGS_def data_of_def)
qed

lemma arg_of_pid: "list_all2 (arg_of t) as strs \<Longrightarrow> e \<in> set as \<Longrightarrow> ae_pid e = cur_pid t"
  by (induction as strs rule: list_all2_induct) (auto simp: arg_of_def)

lemma exec5_records_pid: "call_argv x strs \<Longrightarrow> e \<in> set (exec5_records x) \<Longrightarrow> ae_pid e = cur_pid (xc_task x)"
  using exec5_records_sent [of x strs] arg_of_pid by fastforce

text \<open>The line a call should give: its first twenty arguments.\<close>

definition exec_line :: "(bytes \<Rightarrow> 'c) \<Rightarrow> (exec_call \<Rightarrow> bytes list) \<Rightarrow> exec_call \<Rightarrow> 'c py_line" where
  "exec_line decode argv_of x =
     (cur_pid (xc_task x), cur_uid (xc_task x), decode (c_str (t_comm (xc_task x))), map decode (take 20 (argv_of x)))"

lemma exec5_calls:
  assumes "\<And>x. x \<in> set xs \<Longrightarrow> call_argv x (argv_of x)"
  shows "consume (print_event decode) (concat (map exec5_records xs)) (\<lambda>_. None) =
    ((\<lambda>_. None), map (exec_line decode argv_of) xs)"
  using assms
proof (induction xs)
  case (Cons x xs)
  from Cons.prems [of x] have argv: "call_argv x (argv_of x)" by simp
  from exec5_records_sent [OF this] obtain as ret where x: "exec5_records x = as @ [ret]"
    "list_all2 (arg_of (xc_task x)) as (take 20 (argv_of x))" "ae_pid ret = cur_pid (xc_task x)" "ae_type ret = EVENT_RET"
    by auto
  have "consume (print_event decode) (exec5_records x) (\<lambda>_. None) = ((\<lambda>_. None), [exec_line decode argv_of x])"
    unfolding x(1) using consume_call [OF x(2) _ _ x(3,4), of "\<lambda>_. None" decode] argv
    by (simp add: exec_line_def call_argv_def)
  with Cons show ?case by (simp add: consume_append)
qed simp

lemma filter_concat_map:
  assumes "\<And>x y. x \<in> set xs \<Longrightarrow> y \<in> set (f x) \<Longrightarrow> P y = Q x"
  shows "filter P (concat (map f xs)) = concat (map f (filter Q xs))"
  using assms
proof (induction xs)
  case (Cons x xs)
  then have "filter P (f x) = (if Q x then f x else [])"
    by (auto simp: filter_empty_conv intro: filter_True)
  with Cons show ?case by simp
qed simp

text \<open>
  C12. 05-argv from the system calls to the lines. Programs run on any number of CPUs, each
  call of execve sending the records of its arguments to the buffer of its CPU, and the consumer
  empties the buffers in any order at any time. If nothing is lost, then for a process that made its
  calls on one CPU the tool prints exactly one line per call, in their order, with its user, name and
  first twenty arguments as they are in the caller's memory.
\<close>

theorem execsnoop5_lines:
  assumes calls: "\<And>c x. x \<in> set (calls c) \<Longrightarrow> call_argv x (argv_of x)"
    and trace: "perf_trace tr q" "q cpu = []" "\<And>c. submitted c tr = concat (map exec5_records (calls c))"
    and one_cpu: "\<And>c x. c \<noteq> cpu \<Longrightarrow> x \<in> set (calls c) \<Longrightarrow> cur_pid (xc_task x) \<noteq> p"
  shows "filter (\<lambda>l. fst l = p) (lines_of (execsnoop5 decode (map snd (delivered tr)))) =
    map (exec_line decode argv_of) (filter (\<lambda>x. cur_pid (xc_task x) = p) (calls cpu))"
proof -
  have pid: "ae_pid e = cur_pid (xc_task x)" if "x \<in> set (calls c)" "e \<in> set (exec5_records x)" for c x e
    using calls [OF that(1)] exec5_records_pid that(2) by blast
  let ?mine = "filter (\<lambda>x. cur_pid (xc_task x) = p) (calls cpu)"
  have "filter (\<lambda>e. ae_pid e = p) (map snd (delivered tr)) = filter (\<lambda>e. ae_pid e = p) (submitted cpu tr)"
    using trace(3) pid one_cpu by (intro perf_one_cpu [OF trace(1,2)]) fastforce
  also have "\<dots> = concat (map exec5_records ?mine)"
    unfolding trace(3) using pid by (intro filter_concat_map) simp
  finally have "filter (\<lambda>e. ae_pid e = p) (map snd (delivered tr)) = concat (map exec5_records ?mine)" .
  moreover have "consume (print_event decode) (concat (map exec5_records ?mine)) (\<lambda>_. None) =
      ((\<lambda>_. None), map (exec_line decode argv_of) ?mine)"
    using calls by (intro exec5_calls) auto
  ultimately show ?thesis
    by (simp add: execsnoop5_def lines_of_process [of "\<lambda>_. None" p "\<lambda>_. None"])
qed

text \<open>A whole list of records submitted on a CPU, or taken from it.\<close>

lemma perf_submits: "perf_trace tr q \<Longrightarrow> q' = q(c := q c @ es) \<Longrightarrow> perf_trace (tr @ map (Submit c) es) q'"
proof (induction es arbitrary: tr q)
  case (Cons e es)
  have "q' = (q(c := q c @ [e]))(c := (q(c := q c @ [e])) c @ es)"
    using Cons.prems(2) by (simp add: fun_eq_iff)
  from Cons.IH [OF perf_trace.submit [OF Cons.prems(1)] this] show ?case by simp
qed (simp add: fun_upd_idem)

lemma perf_delivers:
  "perf_trace tr q \<Longrightarrow> q c = es @ es' \<Longrightarrow> q' = q(c := es') \<Longrightarrow> perf_trace (tr @ map (Deliver c) es) q'"
proof (induction es arbitrary: tr q)
  case (Cons e es)
  have "q c = e # (es @ es')" "(q(c := es @ es')) c = es @ es'" "q' = (q(c := es @ es'))(c := es')"
    using Cons.prems(2,3) by (simp_all add: fun_eq_iff)
  from Cons.IH [OF perf_trace.deliver [OF Cons.prems(1) this(1)] this(2,3)] show ?case by simp
qed (simp add: fun_upd_idem)

lemma perf_label_maps [simp]:
  "submitted c (map (Submit c') es) = (if c' = c then es else [])"
  "submitted c (map (Deliver c') es) = []"
  "delivered (map (Submit c') es) = []"
  "delivered (map (Deliver c') es) = map (Pair c') es"
  by (induction es) (simp_all add: submitted_def delivered_def)

lemma perf_label_append:
  "submitted c (tr @ tr') = submitted c tr @ submitted c tr'"
  "delivered (tr @ tr') = delivered tr @ delivered tr'"
  by (simp_all add: submitted_def delivered_def)

text \<open>Process 7 runs \<open>ls -l\<close> on CPU 0 and process 8 on CPU 1, whose buffer is emptied first.\<close>

definition call_of :: "u32 \<Rightarrow> exec_call" where
  "call_of pid = \<lparr>xc_task = mk_task pid 0 [115, 104, 0] 1, xc_probe = mem_probe argv_mem, xc_args = [0, 4096, 0]\<rparr>"

definition two_cpus :: "arg_event perf_label list" where
  "two_cpus = map (Submit 0) (exec5_records (call_of 7)) @ map (Submit 1) (exec5_records (call_of 8)) @
     map (Deliver 1) (exec5_records (call_of 8)) @ map (Deliver 0) (exec5_records (call_of 7))"

theorem execsnoop5_lines_witness:
  "filter (\<lambda>l. fst l = 7) (lines_of (execsnoop5 id (map snd (delivered two_cpus)))) =
     [(7, 0, [115, 104], [[108, 115], [45, 108]])]"
proof -
  let ?calls = "(\<lambda>_. [])(0 := [call_of 7], Suc 0 := [call_of 8])"
  let ?argv = "\<lambda>_. [[108, 115], [45, 108 :: u8]]"
  have "user_argv argv_mem ([0, 4096, 0] ! 1) 0 [[108, 115], [45, 108]]"
    by code_simp
  then have "call_argv (call_of pid) [[108, 115], [45, 108]]" for pid
    using probe_model.bpf_probe_axioms by (auto simp: call_argv_def call_of_def)
  then have calls: "call_argv x (?argv x)" if "x \<in> set (?calls c)" for c x
    using that by (auto split: if_splits)
  define r7 r8 where "r7 = exec5_records (call_of 7)" and "r8 = exec5_records (call_of 8)"
  let ?q = "\<lambda>a b c. if c = (0 :: nat) then a else if c = 1 then b else []"
  have "perf_trace ([] @ map (Submit 0) r7) (?q r7 [])"
    by (rule perf_submits [OF perf_trace.start]) auto
  then have "perf_trace (([] @ map (Submit 0) r7) @ map (Submit 1) r8) (?q r7 r8)"
    by (rule perf_submits) auto
  then have "perf_trace ((([] @ map (Submit 0) r7) @ map (Submit 1) r8) @ map (Deliver 1) r8) (?q r7 [])"
    by (rule perf_delivers [where es' = "[]"]) auto
  then have "perf_trace (((([] @ map (Submit 0) r7) @ map (Submit 1) r8) @ map (Deliver 1) r8) @ map (Deliver 0) r7) (\<lambda>_. [])"
    by (rule perf_delivers [where es' = "[]"]) auto
  then have tr: "perf_trace two_cpus (\<lambda>_. [])"
    by (simp add: two_cpus_def r7_def r8_def)
  have "filter (\<lambda>l. fst l = 7) (lines_of (execsnoop5 id (map snd (delivered two_cpus)))) =
      map (exec_line id ?argv) (filter (\<lambda>x. cur_pid (xc_task x) = 7) (?calls 0))"
  proof (rule execsnoop5_lines [where calls = ?calls, OF _ tr])
    show "submitted c two_cpus = concat (map exec5_records (?calls c))" for c
      by (simp add: two_cpus_def perf_label_append)
    show "cur_pid (xc_task x) \<noteq> 7" if "c \<noteq> 0" "x \<in> set (?calls c)" for c x
      using that by (auto simp: call_of_def split: if_splits)
  qed (use calls in auto)
  then show ?thesis
    by (simp add: call_of_def exec_line_def c_str_def)
qed

text \<open>
  Without that condition it is wrong: process 7 tries \<open>ls -l\<close> on CPU 0 and, moved to CPU 1,
  \<open>ps\<close>. No record is lost, and the lines printed are \<open>ls ps\<close> and \<open>-l\<close>.
\<close>

definition rec_of :: "int \<Rightarrow> bytes \<Rightarrow> arg_event" where
  "rec_of type arg = \<lparr>ae_pid = 7, ae_uid = 0, ae_comm = [115, 104, 0], ae_type = type, ae_arg = arg @ [0]\<rparr>"

lemma execsnoop5_mixes:
  "\<exists>tr. perf_trace tr (\<lambda>_. []) \<and>
     submitted 0 tr = [rec_of EVENT_ARG [108, 115], rec_of EVENT_ARG [45, 108], rec_of EVENT_RET [45, 108]] \<and>
     submitted 1 tr = [rec_of EVENT_ARG [112, 115], rec_of EVENT_RET [112, 115]] \<and>
     lines_of (execsnoop5 id (map snd (delivered tr))) =
       [(7, 0, [115, 104], [[108, 115], [112, 115]]), (7, 0, [115, 104], [[45, 108]])]"
proof -
  let ?ls = "rec_of EVENT_ARG [108, 115]" and ?l = "rec_of EVENT_ARG [45, 108]" and ?r0 = "rec_of EVENT_RET [45, 108]"
    and ?ps = "rec_of EVENT_ARG [112, 115]" and ?r1 = "rec_of EVENT_RET [112, 115]"
  let ?tr = "map (Submit 0) [?ls, ?l, ?r0] @ map (Submit 1) [?ps, ?r1] @
    map (Deliver 0) [?ls] @ map (Deliver 1) [?ps, ?r1] @ map (Deliver 0) [?l, ?r0]"
  let ?q = "\<lambda>a b c. if c = (0 :: nat) then a else if c = 1 then b else []"
  have "perf_trace ([] @ map (Submit 0) [?ls, ?l, ?r0]) (?q [?ls, ?l, ?r0] [])"
    by (rule perf_submits [OF perf_trace.start]) auto
  then have "perf_trace (([] @ map (Submit 0) [?ls, ?l, ?r0]) @ map (Submit 1) [?ps, ?r1]) (?q [?ls, ?l, ?r0] [?ps, ?r1])"
    by (rule perf_submits) auto
  then have "perf_trace ((([] @ map (Submit 0) [?ls, ?l, ?r0]) @ map (Submit 1) [?ps, ?r1]) @ map (Deliver 0) [?ls])
      (?q [?l, ?r0] [?ps, ?r1])"
    by (rule perf_delivers [where es' = "[?l, ?r0]"]) auto
  then have "perf_trace (((([] @ map (Submit 0) [?ls, ?l, ?r0]) @ map (Submit 1) [?ps, ?r1]) @ map (Deliver 0) [?ls]) @
      map (Deliver 1) [?ps, ?r1]) (?q [?l, ?r0] [])"
    by (rule perf_delivers [where es' = "[]"]) auto
  then have "perf_trace ((((([] @ map (Submit 0) [?ls, ?l, ?r0]) @ map (Submit 1) [?ps, ?r1]) @ map (Deliver 0) [?ls]) @
      map (Deliver 1) [?ps, ?r1]) @ map (Deliver 0) [?l, ?r0]) (\<lambda>_. [])"
    by (rule perf_delivers [where es' = "[]"]) auto
  then have "perf_trace ?tr (\<lambda>_. [])"
    by simp
  moreover have "lines_of (execsnoop5 id [?ls, ?ps, ?r1, ?l, ?r0]) =
      [(7, 0, [115, 104], [[108, 115], [112, 115]]), (7, 0, [115, 104], [[45, 108]])]"
    by (simp add: execsnoop5_def print_event_def rec_of_def EVENT_ARG_def EVENT_RET_def c_str_def)
  ultimately show ?thesis
    by (intro exI [of _ ?tr]) (simp add: submitted_def delivered_def)
qed

section \<open>06-ringbuf from the system call to the line\<close>

lemma execsnoop6_line:
  assumes "bpf_ringbuf ring" "bpf_probe probe mem" "user_argv mem (args ! 1) 0 strs" "strs \<noteq> []"
    and "ring_takes ring (Suc (min 20 (length strs))) r"
  shows "\<exists>es. rb_records ring (sys_enter_execve6 ring probe t args r) = rb_records ring r @ es \<and>
    lines_of (execsnoop6 decode es) =
      [(cur_pid t, cur_uid t, decode (c_str (t_comm t)), map decode (take 20 strs))]"
proof -
  obtain as ret where "rb_records ring (trace_execve ring probe t args r) = rb_records ring r @ as @ [ret]"
    "list_all2 (arg_of t) as (take 20 strs)" "ae_pid ret = cur_pid t" "ae_type ret = EVENT_RET"
    using trace_execve_sends [OF assms(1-3,5)] by blast
  with consume_call [of t as "take 20 strs" "\<lambda>_. None" ret decode] assms(4) show ?thesis
    by (intro exI [of _ "as @ [ret]"]) (simp add: execsnoop6_def sys_enter_execve6_def)
qed

section \<open>04-tracepoint from the system call to the line\<close>

text \<open>The path printed is the one in the caller's memory, up to 255 bytes of it.\<close>

lemma execsnoop4_line:
  assumes "bpf_probe probe mem" "mem_bytes mem (args ! 0) (Suc (length path)) = Some (path @ [0])" "0 \<notin> set path"
  shows "lines_of (execsnoop4 decode (snd (sys_enter_execve4 (\<lambda>b e. b @ [e]) probe t args []))) =
    [(unat (cur_pid t), unat (cur_uid t), decode (c_str (t_comm t)), decode (take 255 path))]"
  using bpf_probe.read_str_prefix [OF assms, of "replicate 256 0", THEN conjunct2]
  by (simp add: execsnoop4_def sys_enter_execve4_def print_event4_def path_data_zero_def line_of_def)

lemma exec_stream_line:
  "lines_of (exec_stream decode (snd (hello3 (\<lambda>b e. b @ [e]) t []))) =
     [(unat (cur_pid t), unat (cur_uid t), decode (c_str (t_comm t)))]"
  by (simp add: exec_stream_def hello3_def print_event3_def line_of_def)

end
