(* ===== verification/Nettop_Kernel.thy ===== *)
theory Nettop_Kernel
  imports Bpf_Maps Bpf_Helpers
begin

text \<open>
  27-nettop, kernel half: the seven kprobe handlers of \<open>nettop.bpf.c\<close> and \<open>account\<close>, which
  keep running totals per process in \<open>proc_stats_map\<close> and the owner of each socket in the LRU
  map \<open>sock_owner\<close>. The theorems show that a process's row is the sum of its traffic, and that
  a retransmission, which runs in no process's context, is charged to the process that last
  used the socket since it was opened, whatever the LRU map evicts.
\<close>

section \<open>State\<close>

definition AF_INET :: u16 where "AF_INET = 2"

definition AF_INET6 :: u16 where "AF_INET6 = 10"

record proc_stats =
  tx_bytes :: u64
  rx_bytes :: u64
  tx_calls :: u64
  rx_calls :: u64
  retrans_pkts :: u64
  last_ns :: u64
  ps_comm :: bytes

text \<open>What the programs read of a \<open>struct sock\<close>: its address and its address family.\<close>

record sock =
  sk_addr :: u64
  skc_family :: u16

record ('m, 'o) nettop =
  proc_stats_map :: 'm
  sock_owner :: 'o

text \<open>The two maps' operations, as arguments of the programs.\<close>

record ('m, 'o) nettop_ops =
  st_ops :: "('m, u32, proc_stats) map_ops"
  ow_ops :: "('o, u64, u32) map_ops"

section \<open>The programs\<close>

definition proc_stats_init :: "bytes \<Rightarrow> proc_stats" where
  "proc_stats_init comm =
     \<lparr>tx_bytes = 0, rx_bytes = 0, tx_calls = 0, rx_calls = 0, retrans_pkts = 0, last_ns = 0,
      ps_comm = comm\<rparr>"

definition bump :: "u64 \<Rightarrow> u64 \<Rightarrow> bool \<Rightarrow> proc_stats \<Rightarrow> proc_stats" where
  "bump now n is_tx ps =
     (if is_tx
      then ps\<lparr>tx_bytes := tx_bytes ps + n, tx_calls := tx_calls ps + 1\<rparr>
      else ps\<lparr>rx_bytes := rx_bytes ps + n, rx_calls := rx_calls ps + 1\<rparr>)\<lparr>last_ns := now\<rparr>"

definition account ::
  "('m, 'o) nettop_ops \<Rightarrow> task_ctx \<Rightarrow> sock \<Rightarrow> u64 \<Rightarrow> bool \<Rightarrow> ('m, 'o) nettop \<Rightarrow> ('m, 'o) nettop" where
  "account ops t sk n is_tx st =
     (let pid = cur_pid t in
      if pid = 0 then st
      else if skc_family sk \<noteq> AF_INET \<and> skc_family sk \<noteq> AF_INET6 then st
      else
        let st1 = st\<lparr>sock_owner := snd (map_update (ow_ops ops) (sock_owner st) (sk_addr sk) pid BPF_ANY)\<rparr>;
            add = (\<lambda>ps st. st\<lparr>proc_stats_map :=
                     map_poke (st_ops ops) (proc_stats_map st) pid (bump (t_ktime t) n is_tx ps)\<rparr>)
        in (case map_lookup (st_ops ops) (proc_stats_map st1) pid of
              Some ps \<Rightarrow> add ps st1
            | None \<Rightarrow>
                let st2 = st1\<lparr>proc_stats_map :=
                      snd (map_update (st_ops ops) (proc_stats_map st1) pid
                             (proc_stats_init (t_comm t)) BPF_NOEXIST)\<rparr>
                in (case map_lookup (st_ops ops) (proc_stats_map st2) pid of
                      None \<Rightarrow> st2
                    | Some ps \<Rightarrow> add ps st2)))"

definition handle_tcp_sendmsg ::
  "('m, 'o) nettop_ops \<Rightarrow> task_ctx \<Rightarrow> sock \<Rightarrow> u64 \<Rightarrow> ('m, 'o) nettop \<Rightarrow> ('m, 'o) nettop" where
  "handle_tcp_sendmsg ops t sk sz st = account ops t sk sz True st"

definition handle_tcp_cleanup_rbuf ::
  "('m, 'o) nettop_ops \<Rightarrow> task_ctx \<Rightarrow> sock \<Rightarrow> u32 \<Rightarrow> ('m, 'o) nettop \<Rightarrow> ('m, 'o) nettop" where
  "handle_tcp_cleanup_rbuf ops t sk copied st =
     (if sint copied \<le> 0 then st else account ops t sk (scast copied) False st)"

definition handle_udp_sendmsg ::
  "('m, 'o) nettop_ops \<Rightarrow> task_ctx \<Rightarrow> sock \<Rightarrow> u64 \<Rightarrow> ('m, 'o) nettop \<Rightarrow> ('m, 'o) nettop" where
  "handle_udp_sendmsg ops t sk len st = account ops t sk len True st"

definition handle_udpv6_sendmsg ::
  "('m, 'o) nettop_ops \<Rightarrow> task_ctx \<Rightarrow> sock \<Rightarrow> u64 \<Rightarrow> ('m, 'o) nettop \<Rightarrow> ('m, 'o) nettop" where
  "handle_udpv6_sendmsg ops t sk len st = account ops t sk len True st"

definition handle_skb_consume_udp ::
  "('m, 'o) nettop_ops \<Rightarrow> task_ctx \<Rightarrow> sock \<Rightarrow> u32 \<Rightarrow> ('m, 'o) nettop \<Rightarrow> ('m, 'o) nettop" where
  "handle_skb_consume_udp ops t sk len st =
     (if sint len \<le> 0 then st else account ops t sk (scast len) False st)"

definition handle_tcp_retransmit ::
  "('m, 'o) nettop_ops \<Rightarrow> sock \<Rightarrow> ('m, 'o) nettop \<Rightarrow> ('m, 'o) nettop" where
  "handle_tcp_retransmit ops sk st =
     (case map_lookup (ow_ops ops) (sock_owner st) (sk_addr sk) of
        None \<Rightarrow> st
      | Some pid \<Rightarrow>
          (case map_lookup (st_ops ops) (proc_stats_map st) pid of
             None \<Rightarrow> st
           | Some ps \<Rightarrow>
               st\<lparr>proc_stats_map :=
                    map_poke (st_ops ops) (proc_stats_map st) pid
                      (ps\<lparr>retrans_pkts := retrans_pkts ps + 1\<rparr>)\<rparr>))"

definition handle_tcp_close ::
  "('m, 'o) nettop_ops \<Rightarrow> sock \<Rightarrow> ('m, 'o) nettop \<Rightarrow> ('m, 'o) nettop" where
  "handle_tcp_close ops sk st =
     st\<lparr>sock_owner := map_delete (ow_ops ops) (sock_owner st) (sk_addr sk)\<rparr>"

section \<open>Sequences of hook firings\<close>

datatype net_event =
    Tcp_sendmsg task_ctx sock u64
  | Tcp_cleanup_rbuf task_ctx sock u32
  | Udp_sendmsg task_ctx sock u64
  | Udpv6_sendmsg task_ctx sock u64
  | Skb_consume_udp task_ctx sock u32
  | Tcp_retransmit sock
  | Tcp_close sock

fun net_step :: "('m, 'o) nettop_ops \<Rightarrow> net_event \<Rightarrow> ('m, 'o) nettop \<Rightarrow> ('m, 'o) nettop" where
  "net_step ops (Tcp_sendmsg t sk n) = handle_tcp_sendmsg ops t sk n"
| "net_step ops (Tcp_cleanup_rbuf t sk n) = handle_tcp_cleanup_rbuf ops t sk n"
| "net_step ops (Udp_sendmsg t sk n) = handle_udp_sendmsg ops t sk n"
| "net_step ops (Udpv6_sendmsg t sk n) = handle_udpv6_sendmsg ops t sk n"
| "net_step ops (Skb_consume_udp t sk n) = handle_skb_consume_udp ops t sk n"
| "net_step ops (Tcp_retransmit sk) = handle_tcp_retransmit ops sk"
| "net_step ops (Tcp_close sk) = handle_tcp_close ops sk"

definition net_run :: "('m, 'o) nettop_ops \<Rightarrow> net_event list \<Rightarrow> ('m, 'o) nettop \<Rightarrow> ('m, 'o) nettop" where
  "net_run ops evs st = foldl (\<lambda>st e. net_step ops e st) st evs"

text \<open>
  Specification side: the accounting a firing asks for, as process, direction and bytes.
  Sockets outside IPv4 and IPv6, kernel threads and empty receives ask for none.
\<close>

definition ip_sock :: "sock \<Rightarrow> bool" where
  "ip_sock sk \<longleftrightarrow> skc_family sk = AF_INET \<or> skc_family sk = AF_INET6"

definition charge :: "task_ctx \<Rightarrow> sock \<Rightarrow> bool \<Rightarrow> u64 \<Rightarrow> (task_ctx \<times> sock \<times> bool \<times> u64) option" where
  "charge t sk is_tx n = (if cur_pid t \<noteq> 0 \<and> ip_sock sk then Some (t, sk, is_tx, n) else None)"

fun charged :: "net_event \<Rightarrow> (task_ctx \<times> sock \<times> bool \<times> u64) option" where
  "charged (Tcp_sendmsg t sk n) = charge t sk True n"
| "charged (Tcp_cleanup_rbuf t sk n) = (if sint n \<le> 0 then None else charge t sk False (scast n))"
| "charged (Udp_sendmsg t sk n) = charge t sk True n"
| "charged (Udpv6_sendmsg t sk n) = charge t sk True n"
| "charged (Skb_consume_udp t sk n) = (if sint n \<le> 0 then None else charge t sk False (scast n))"
| "charged (Tcp_retransmit sk) = None"
| "charged (Tcp_close sk) = None"

text \<open>The row a process should have after a sequence of firings, retransmissions left out.\<close>

definition use_step :: "u32 \<Rightarrow> proc_stats option \<Rightarrow> net_event \<Rightarrow> proc_stats option" where
  "use_step pid r e =
     (case charged e of
        Some (t, sk, is_tx, n) \<Rightarrow>
          if cur_pid t = pid
          then Some (bump (t_ktime t) n is_tx (case r of None \<Rightarrow> proc_stats_init (t_comm t) | Some r \<Rightarrow> r))
          else r
      | None \<Rightarrow> r)"

definition usage :: "net_event list \<Rightarrow> u32 \<Rightarrow> proc_stats option" where
  "usage evs pid = foldl (use_step pid) None evs"

text \<open>The process that last used a socket since it was last closed.\<close>

definition owner_step :: "u64 \<Rightarrow> u32 option \<Rightarrow> net_event \<Rightarrow> u32 option" where
  "owner_step a p e =
     (case charged e of
        Some (t, sk, _, _) \<Rightarrow> if sk_addr sk = a then Some (cur_pid t) else p
      | None \<Rightarrow> (case e of Tcp_close sk \<Rightarrow> if sk_addr sk = a then None else p | _ \<Rightarrow> p))"

definition last_owner :: "net_event list \<Rightarrow> u64 \<Rightarrow> u32 option" where
  "last_owner evs a = foldl (owner_step a) None evs"

lemma spec_snoc [simp]:
  "net_run ops (evs @ [e]) st = net_step ops e (net_run ops evs st)"
  "usage (evs @ [e]) pid = use_step pid (usage evs pid) e"
  "last_owner (evs @ [e]) a = owner_step a (last_owner evs a) e"
  by (simp_all add: net_run_def usage_def last_owner_def)

lemma spec_Nil [simp]: "net_run ops [] st = st" "usage [] pid = None" "last_owner [] a = None"
  by (simp_all add: net_run_def usage_def last_owner_def)

text \<open>The charges of a process, and the totals of its usage.\<close>

definition charges :: "net_event list \<Rightarrow> u32 \<Rightarrow> (task_ctx \<times> sock \<times> bool \<times> u64) list" where
  "charges evs pid = filter (\<lambda>(t, _). cur_pid t = pid) (List.map_filter charged evs)"

definition is_tx_charge :: "task_ctx \<times> sock \<times> bool \<times> u64 \<Rightarrow> bool" where
  "is_tx_charge c = (case c of (t, sk, is_tx, n) \<Rightarrow> is_tx)"

definition is_rx_charge :: "task_ctx \<times> sock \<times> bool \<times> u64 \<Rightarrow> bool" where
  "is_rx_charge c = (case c of (t, sk, is_tx, n) \<Rightarrow> \<not> is_tx)"

definition charge_bytes :: "task_ctx \<times> sock \<times> bool \<times> u64 \<Rightarrow> u64" where
  "charge_bytes c = (case c of (t, sk, is_tx, n) \<Rightarrow> n)"

lemma charge_simps:
  "is_tx_charge (t, sk, is_tx, n) = is_tx" "is_rx_charge (t, sk, is_tx, n) = (\<not> is_tx)"
  "charge_bytes (t, sk, is_tx, n) = n"
  by (simp_all add: is_tx_charge_def is_rx_charge_def charge_bytes_def)

lemma charges_snoc:
  "charges (evs @ [e]) pid = charges evs pid @
     (case charged e of Some (t, sk, is_tx, n) \<Rightarrow> if cur_pid t = pid then [(t, sk, is_tx, n)] else [] | None \<Rightarrow> [])"
  by (auto simp: charges_def map_filter_def split: option.splits)

section \<open>The programs over any maps that keep their promises\<close>

locale nettop_maps =
  stats: bpf_hash "st_ops ops" + owner: bpf_lru "ow_ops ops" for ops :: "('m, 'o) nettop_ops"
begin

abbreviation "row st \<equiv> map_lookup (st_ops ops) (proc_stats_map st)"

abbreviation "own st \<equiv> map_lookup (ow_ops ops) (sock_owner st)"

lemma account_charge:
  "account ops t sk n is_tx st =
     (case charge t sk is_tx n of
        None \<Rightarrow> st
      | Some _ \<Rightarrow>
          let st1 = st\<lparr>sock_owner := snd (map_update (ow_ops ops) (sock_owner st) (sk_addr sk) (cur_pid t) BPF_ANY)\<rparr>;
              st2 = (if row st (cur_pid t) = None
                     then st1\<lparr>proc_stats_map := snd (map_update (st_ops ops) (proc_stats_map st) (cur_pid t)
                                (proc_stats_init (t_comm t)) BPF_NOEXIST)\<rparr> else st1)
          in (case row st2 (cur_pid t) of
                None \<Rightarrow> st2
              | Some ps \<Rightarrow> st2\<lparr>proc_stats_map := map_poke (st_ops ops) (proc_stats_map st2) (cur_pid t)
                                (bump (t_ktime t) n is_tx ps)\<rparr>))"
  by (auto simp: account_def charge_def ip_sock_def Let_def split: option.splits)

text \<open>The process rows after an accounting: a row is bumped, created or (map full) refused.\<close>

lemma account_row:
  assumes "charge t sk is_tx n = Some c"
  shows "row (account ops t sk n is_tx st) =
    (case row st (cur_pid t) of
       Some r \<Rightarrow> (row st)(cur_pid t \<mapsto> bump (t_ktime t) n is_tx r)
     | None \<Rightarrow>
         if row (account ops t sk n is_tx st) (cur_pid t) = None then row st
         else (row st)(cur_pid t \<mapsto> bump (t_ktime t) n is_tx (proc_stats_init (t_comm t))))"
proof (cases "row st (cur_pid t)")
  case (Some r)
  with assms show ?thesis
    by (simp add: account_charge Let_def stats.hash_poke)
next
  case None
  let ?u = "map_update (st_ops ops) (proc_stats_map st) (cur_pid t) (proc_stats_init (t_comm t)) BPF_NOEXIST"
  show ?thesis
  proof (cases "fst ?u = 0")
    case True
    then have "map_lookup (st_ops ops) (snd ?u) = (row st)(cur_pid t \<mapsto> proc_stats_init (t_comm t))"
      by (simp add: stats.hash_update_cases)
    with assms None show ?thesis
      by (simp add: account_charge Let_def stats.hash_poke)
  next
    case False
    then have "map_lookup (st_ops ops) (snd ?u) = row st"
      by (simp add: stats.hash_update_cases)
    with assms None show ?thesis
      by (simp add: account_charge Let_def)
  qed
qed

lemma account_own:
  assumes "charge t sk is_tx n = Some c"
  shows "sock_owner (account ops t sk n is_tx st) =
    snd (map_update (ow_ops ops) (sock_owner st) (sk_addr sk) (cur_pid t) BPF_ANY)"
  using assms by (simp add: account_charge Let_def split: option.splits)

lemma step_charged:
  "charged e = Some (t, sk, is_tx, n) \<Longrightarrow>
   net_step ops e st = account ops t sk n is_tx st \<and> charge t sk is_tx n = Some (t, sk, is_tx, n)"
  by (cases e)
     (auto simp: charge_def handle_tcp_sendmsg_def handle_tcp_cleanup_rbuf_def handle_udp_sendmsg_def
      handle_udpv6_sendmsg_def handle_skb_consume_udp_def split: if_splits)

lemma step_uncharged:
  "charged e = None \<Longrightarrow>
   net_step ops e st =
     (case e of
        Tcp_retransmit sk \<Rightarrow> handle_tcp_retransmit ops sk st
      | Tcp_close sk \<Rightarrow> handle_tcp_close ops sk st
      | _ \<Rightarrow> st)"
  by (cases e)
     (auto simp: handle_tcp_sendmsg_def handle_tcp_cleanup_rbuf_def handle_udp_sendmsg_def
      handle_udpv6_sendmsg_def handle_skb_consume_udp_def account_charge split: if_splits option.splits)

lemma retransmit_row:
  "row (handle_tcp_retransmit ops sk st) =
     (case own st (sk_addr sk) of
        None \<Rightarrow> row st
      | Some p \<Rightarrow>
          (case row st p of
             None \<Rightarrow> row st
           | Some r \<Rightarrow> (row st)(p \<mapsto> r\<lparr>retrans_pkts := retrans_pkts r + 1\<rparr>)))"
  by (auto simp: handle_tcp_retransmit_def stats.hash_poke split: option.splits)

text \<open>One firing, seen by one process and one socket.\<close>

lemma step_row:
  assumes "charged e = Some (t, sk, is_tx, n)"
  shows "row (net_step ops e st) pid =
    (if cur_pid t = pid \<and> row (net_step ops e st) pid \<noteq> None
     then Some (bump (t_ktime t) n is_tx
                  (case row st pid of None \<Rightarrow> proc_stats_init (t_comm t) | Some r \<Rightarrow> r))
     else row st pid)"
proof -
  note st = step_charged [OF assms, of st]
  have "row (net_step ops e st) pid =
      (case row st (cur_pid t) of
         Some r \<Rightarrow> ((row st)(cur_pid t \<mapsto> bump (t_ktime t) n is_tx r)) pid
       | None \<Rightarrow>
           if row (net_step ops e st) (cur_pid t) = None then row st pid
           else ((row st)(cur_pid t \<mapsto> bump (t_ktime t) n is_tx (proc_stats_init (t_comm t)))) pid)"
    using fun_cong [OF account_row [OF conjunct2 [OF st], of st], of pid] conjunct1 [OF st]
    by (auto split: option.splits)
  then show ?thesis
    by (auto split: option.splits if_splits)
qed

lemma step_own:
  assumes "charged e = Some (t, sk, is_tx, n)" "own (net_step ops e st) a = Some p"
  shows "if sk_addr sk = a then p = cur_pid t else own st a = Some p"
proof -
  note st = step_charged [OF assms(1), of st]
  have "sock_owner (net_step ops e st) =
      snd (map_update (ow_ops ops) (sock_owner st) (sk_addr sk) (cur_pid t) BPF_ANY)"
    by (simp only: conjunct1 [OF st] account_own [OF conjunct2 [OF st]])
  with assms(2) have own: "map_lookup (ow_ops ops)
      (snd (map_update (ow_ops ops) (sock_owner st) (sk_addr sk) (cur_pid t) BPF_ANY)) a = Some p"
    by simp
  show ?thesis
  proof (cases "sk_addr sk = a")
    case True
    with own show ?thesis by simp
  next
    case False
    from owner.other_after_update [OF False [symmetric] own] False show ?thesis by simp
  qed
qed

lemma uncharged_row:
  assumes "charged e = None"
  shows "map_option (retrans_pkts_update (\<lambda>_. 0)) (row (net_step ops e st) pid) =
    map_option (retrans_pkts_update (\<lambda>_. 0)) (row st pid)"
proof (cases e)
  case (Tcp_retransmit sk)
  then show ?thesis by (auto simp: retransmit_row split: option.splits)
qed (use assms step_uncharged [OF assms, of st] in \<open>simp_all add: handle_tcp_close_def\<close>)

lemma uncharged_own:
  assumes "charged e = None" "own (net_step ops e st) a = Some p"
  shows "own st a = Some p \<and> (\<forall>sk. e = Tcp_close sk \<longrightarrow> sk_addr sk \<noteq> a)"
proof (cases e)
  case (Tcp_retransmit sk)
  with assms show ?thesis by (auto simp: handle_tcp_retransmit_def split: option.splits)
next
  case (Tcp_close sk)
  with assms show ?thesis by (auto simp: handle_tcp_close_def owner.lookup_delete split: if_splits)
qed (use assms step_uncharged [OF assms(1), of st] in simp_all)

text \<open>Ownership is never stale.\<close>

lemma own_last_owner:
  assumes "\<And>a. own st a = None" "own (net_run ops evs st) a = Some p"
  shows "last_owner evs a = Some p"
  using assms(2)
proof (induction evs arbitrary: p rule: rev_induct)
  case Nil
  with assms(1) show ?case by simp
next
  case (snoc e evs)
  show ?case
  proof (cases "charged e")
    case None
    from uncharged_own [OF None, of "net_run ops evs st"] snoc None show ?thesis
      by (cases e) (auto simp: owner_step_def)
  next
    case (Some c)
    obtain t sk is_tx n where c: "c = (t, sk, is_tx, n)" by (cases c) auto
    from step_own [OF Some [unfolded c], of "net_run ops evs st" a p] snoc Some c show ?thesis
      by (auto simp: owner_step_def split: if_splits)
  qed
qed

text \<open>A process's row is its usage, as long as the map took the row when it was first needed.\<close>

lemma row_usage:
  assumes empty: "\<And>p. row st p = None"
    and admitted: "\<And>k. k \<le> length evs \<Longrightarrow> usage (take k evs) pid \<noteq> None \<Longrightarrow>
                        row (net_run ops (take k evs) st) pid \<noteq> None"
  shows "map_option (retrans_pkts_update (\<lambda>_. 0)) (row (net_run ops evs st) pid) = usage evs pid"
  using admitted
proof (induction evs rule: rev_induct)
  case Nil
  with empty show ?case by simp
next
  case (snoc e evs)
  let ?st = "net_run ops evs st"
  have IH: "map_option (retrans_pkts_update (\<lambda>_. 0)) (row ?st pid) = usage evs pid"
  proof (rule snoc.IH)
    fix k
    assume "k \<le> length evs" "usage (take k evs) pid \<noteq> None"
    with snoc.prems [of k] show "row (net_run ops (take k evs) st) pid \<noteq> None" by simp
  qed
  have bump0: "(bump now n tx r)\<lparr>retrans_pkts := 0\<rparr> = bump now n tx (r\<lparr>retrans_pkts := 0\<rparr>)" for now n tx r
    by (simp add: bump_def)
  show ?case
  proof (cases "charged e")
    case None
    with IH uncharged_row [OF None, of ?st pid] show ?thesis
      by (simp add: use_step_def)
  next
    case (Some c)
    obtain t sk is_tx n where c: "c = (t, sk, is_tx, n)" by (cases c) auto
    have "cur_pid t = pid \<Longrightarrow> row (net_step ops e ?st) pid \<noteq> None"
      using snoc.prems [of "Suc (length evs)"] Some c by (simp add: use_step_def)
    with step_row [OF Some [unfolded c], of ?st pid]
    have "row (net_step ops e ?st) pid =
        (if cur_pid t = pid
         then Some (bump (t_ktime t) n is_tx
                      (case row ?st pid of None \<Rightarrow> proc_stats_init (t_comm t) | Some r \<Rightarrow> r))
         else row ?st pid)" by metis
    with IH [symmetric] Some c show ?thesis
      by (cases "row ?st pid") (auto simp: use_step_def bump0 proc_stats_init_def)
  qed
qed

text \<open>From any state on, a row that exists stays and grows by the process's traffic.\<close>

lemma row_grows:
  assumes "row st pid = Some r"
  shows "\<exists>r'. row (net_run ops evs st) pid = Some r' \<and>
    tx_bytes r' = tx_bytes r + (\<Sum>c\<leftarrow>filter is_tx_charge (charges evs pid). charge_bytes c) \<and>
    rx_bytes r' = rx_bytes r + (\<Sum>c\<leftarrow>filter is_rx_charge (charges evs pid). charge_bytes c)"
proof (induction evs rule: rev_induct)
  case Nil
  with assms show ?case by (simp add: charges_def map_filter_def)
next
  case (snoc e evs)
  then obtain r' where r': "row (net_run ops evs st) pid = Some r'"
    "tx_bytes r' = tx_bytes r + (\<Sum>c\<leftarrow>filter is_tx_charge (charges evs pid). charge_bytes c)"
    "rx_bytes r' = rx_bytes r + (\<Sum>c\<leftarrow>filter is_rx_charge (charges evs pid). charge_bytes c)"
    by blast
  show ?case
  proof (cases "charged e")
    case None
    from uncharged_row [OF None, of "net_run ops evs st" pid] r'(1) obtain r2 where
      "row (net_step ops e (net_run ops evs st)) pid = Some r2"
      "r2\<lparr>retrans_pkts := 0\<rparr> = r'\<lparr>retrans_pkts := 0\<rparr>" by auto
    moreover from this have "tx_bytes r2 = tx_bytes r'" "rx_bytes r2 = rx_bytes r'"
      by (metis proc_stats.select_convs(1,2) proc_stats.surjective proc_stats.update_convs(5))+
    ultimately show ?thesis
      using r' None by (simp add: charges_snoc)
  next
    case (Some c)
    obtain t sk is_tx n where c: "c = (t, sk, is_tx, n)" by (cases c) auto
    have "row (net_step ops e (net_run ops evs st)) pid =
        (if cur_pid t = pid then Some (bump (t_ktime t) n is_tx r') else Some r')"
      using step_row [OF Some [unfolded c], of "net_run ops evs st" pid]
        account_row [OF conjunct2 [OF step_charged [OF Some [unfolded c], of "net_run ops evs st"]],
          of "net_run ops evs st"]
        step_charged [OF Some [unfolded c], of "net_run ops evs st"] r'(1)
      by (auto split: if_splits)
    then show ?thesis
      using r' Some c
      by (auto simp: charges_snoc bump_def charge_simps algebra_simps)
  qed
qed

end

interpretation nettop_model: nettop_maps "\<lparr>st_ops = hash_ops, ow_ops = lru_ops\<rparr>"
  by (simp add: nettop_maps_def hash_model.bpf_hash_axioms lru_model.bpf_lru_axioms)

section \<open>Sums\<close>

definition totals_of :: "(task_ctx \<times> sock \<times> bool \<times> u64) list \<Rightarrow> proc_stats" where
  "totals_of cs =
     \<lparr>tx_bytes = sum_list (map charge_bytes (filter is_tx_charge cs)),
      rx_bytes = sum_list (map charge_bytes (filter is_rx_charge cs)),
      tx_calls = of_nat (length (filter is_tx_charge cs)),
      rx_calls = of_nat (length (filter is_rx_charge cs)),
      retrans_pkts = 0,
      last_ns = t_ktime (fst (last cs)),
      ps_comm = t_comm (fst (hd cs))\<rparr>"

lemma usage_totals:
  "usage evs pid = (if charges evs pid = [] then None else Some (totals_of (charges evs pid)))"
proof (induction evs rule: rev_induct)
  case Nil
  then show ?case by (simp add: charges_def map_filter_def)
next
  case (snoc e evs)
  then show ?case
    by (auto simp: charges_snoc use_step_def totals_of_def bump_def proc_stats_init_def
        charge_simps split: option.splits if_splits)
qed

section \<open>Sample traffic\<close>

definition demo_net :: "((u32, proc_stats) amap, (u64, u32) amap) nettop" where
  "demo_net = \<lparr>proc_stats_map = amap_empty 4, sock_owner = amap_empty 4\<rparr>"

definition demo_ops :: "((u32, proc_stats) amap, (u64, u32) amap) nettop_ops" where
  "demo_ops = \<lparr>st_ops = hash_ops, ow_ops = lru_ops\<rparr>"

definition demo_sock :: sock where
  "demo_sock = \<lparr>sk_addr = 0x1000, skc_family = 2\<rparr>"

definition demo_events :: "net_event list" where
  "demo_events =
     [Tcp_sendmsg (mk_task 7 0 [110, 99] 5) demo_sock 100,
      Udp_sendmsg (mk_task 7 0 [110, 99] 6) demo_sock 20,
      Tcp_cleanup_rbuf (mk_task 7 0 [110, 99] 8) demo_sock 30]"

lemmas demo_net_defs =
  demo_net_def demo_ops_def demo_sock_def demo_events_def account_def handle_tcp_sendmsg_def
  handle_udp_sendmsg_def handle_tcp_cleanup_rbuf_def AF_INET_def AF_INET6_def bump_def
  proc_stats_init_def hash_ops_def lru_ops_def amap_defs

section \<open>Properties\<close>

text \<open>
  C8. The row of a process is the sum of its traffic. After any sequence of hook firings from
  empty maps, a process whose row the map took when it was first needed has exactly: the bytes
  of all its IPv4 and IPv6 sends (TCP and UDP) and of all its non-empty receives, modulo 2^64,
  the numbers of both, the time of its last activity and the name it had at its first. Other
  processes, other address families, retransmissions and socket closes change none of it.
\<close>

theorem nettop_row_totals:
  assumes maps: "nettop_maps ops"
    and empty: "\<And>p. map_lookup (st_ops ops) (proc_stats_map st) p = None"
    and admitted: "\<And>k. k \<le> length evs \<Longrightarrow> charges (take k evs) pid \<noteq> [] \<Longrightarrow>
      map_lookup (st_ops ops) (proc_stats_map (net_run ops (take k evs) st)) pid \<noteq> None"
    and traffic: "charges evs pid \<noteq> []"
  shows "\<exists>r. map_lookup (st_ops ops) (proc_stats_map (net_run ops evs st)) pid = Some r \<and>
    tx_bytes r = (\<Sum>c\<leftarrow>filter is_tx_charge (charges evs pid). charge_bytes c) \<and>
    rx_bytes r = (\<Sum>c\<leftarrow>filter is_rx_charge (charges evs pid). charge_bytes c) \<and>
    tx_calls r = of_nat (length (filter is_tx_charge (charges evs pid))) \<and>
    rx_calls r = of_nat (length (filter is_rx_charge (charges evs pid))) \<and>
    last_ns r = t_ktime (fst (last (charges evs pid))) \<and>
    ps_comm r = t_comm (fst (hd (charges evs pid)))"
proof -
  have "map_lookup (st_ops ops) (proc_stats_map (net_run ops (take k evs) st)) pid \<noteq> None"
    if "k \<le> length evs" "usage (take k evs) pid \<noteq> None" for k
    using admitted [OF that(1)] that(2) by (simp add: usage_totals split: if_splits)
  from nettop_maps.row_usage [OF maps empty this] traffic
  have "map_option (retrans_pkts_update (\<lambda>_. 0))
      (map_lookup (st_ops ops) (proc_stats_map (net_run ops evs st)) pid) = Some (totals_of (charges evs pid))"
    by (simp add: usage_totals)
  then obtain r where r: "map_lookup (st_ops ops) (proc_stats_map (net_run ops evs st)) pid = Some r"
    "r\<lparr>retrans_pkts := 0\<rparr> = totals_of (charges evs pid)"
    by auto
  from arg_cong [OF r(2), of tx_bytes] arg_cong [OF r(2), of rx_bytes] arg_cong [OF r(2), of tx_calls]
    arg_cong [OF r(2), of rx_calls] arg_cong [OF r(2), of last_ns] arg_cong [OF r(2), of ps_comm] r(1)
  show ?thesis by (simp add: totals_of_def)
qed

theorem nettop_row_totals_witness:
  "\<exists>r. map_lookup (st_ops demo_ops) (proc_stats_map (net_run demo_ops demo_events demo_net)) 7 = Some r \<and>
     tx_bytes r = 120 \<and> rx_bytes r = 30 \<and> tx_calls r = 2 \<and> rx_calls r = 1 \<and> last_ns r = 8"
proof -
  have maps: "nettop_maps demo_ops"
    unfolding demo_ops_def by (rule nettop_model.nettop_maps_axioms)
  have ch: "charges demo_events 7 =
      [(mk_task 7 0 [110, 99] 5, demo_sock, True, 100), (mk_task 7 0 [110, 99] 6, demo_sock, True, 20),
       (mk_task 7 0 [110, 99] 8, demo_sock, False, 30)]"
    by (simp add: charges_def demo_events_def map_filter_def charge_def ip_sock_def demo_sock_def
        AF_INET_def ex_bool_eq all_bool_eq)
  have "map_lookup (st_ops demo_ops) (proc_stats_map (net_run demo_ops (take k demo_events) demo_net)) 7 \<noteq> None"
    if "k \<le> length demo_events" "charges (take k demo_events) 7 \<noteq> []" for k
  proof -
    have "k = 0 \<or> k = 1 \<or> k = 2 \<or> k = 3"
      using that(1) by (auto simp: demo_events_def)
    then show ?thesis
      using that(2) by (auto simp: net_run_def demo_net_defs charges_def map_filter_def)
  qed
  moreover have "map_lookup (st_ops demo_ops) (proc_stats_map demo_net) p = None" for p
    by (simp add: demo_net_defs)
  ultimately show ?thesis
    using nettop_row_totals [OF maps, of demo_net demo_events 7]
    by (auto simp: ch charge_simps)
qed

text \<open>
  C23. A retransmission is charged to the right process or to none. Whatever happened before and
  whatever the LRU map evicted, \<open>handle_tcp_retransmit\<close> either changes no row, or adds one to
  the retransmission count of one row, that of the process that last sent or received on this
  socket since the socket was last closed. In particular a socket address reused after
  \<open>tcp_close\<close> is not charged to its former owner.
\<close>

theorem nettop_retransmit_owner:
  assumes maps: "nettop_maps ops"
    and empty: "\<And>a. map_lookup (ow_ops ops) (sock_owner st) a = None"
  shows "map_lookup (st_ops ops) (proc_stats_map (net_run ops (evs @ [Tcp_retransmit sk]) st)) =
      map_lookup (st_ops ops) (proc_stats_map (net_run ops evs st)) \<or>
    (\<exists>p r. last_owner evs (sk_addr sk) = Some p \<and>
       map_lookup (st_ops ops) (proc_stats_map (net_run ops evs st)) p = Some r \<and>
       map_lookup (st_ops ops) (proc_stats_map (net_run ops (evs @ [Tcp_retransmit sk]) st)) =
       (map_lookup (st_ops ops) (proc_stats_map (net_run ops evs st)))
         (p \<mapsto> r\<lparr>retrans_pkts := retrans_pkts r + 1\<rparr>))"
  using nettop_maps.own_last_owner [OF maps empty, of evs "sk_addr sk"]
    nettop_maps.retransmit_row [OF maps, of sk "net_run ops evs st"]
  by (auto split: option.splits)

theorem nettop_retransmit_owner_witness:
  "last_owner demo_events 0x1000 = Some 7 \<and>
   map_option retrans_pkts (map_lookup (st_ops demo_ops)
     (proc_stats_map (net_run demo_ops (demo_events @ [Tcp_retransmit demo_sock]) demo_net)) 7) = Some 1"
proof -
  have maps: "nettop_maps demo_ops"
    unfolding demo_ops_def by (rule nettop_model.nettop_maps_axioms)
  have row: "map_option retrans_pkts
      (map_lookup (st_ops demo_ops) (proc_stats_map (net_run demo_ops demo_events demo_net)) 7) = Some 0"
    "map_option retrans_pkts (map_lookup (st_ops demo_ops)
       (proc_stats_map (net_run demo_ops (demo_events @ [Tcp_retransmit demo_sock]) demo_net)) 7) = Some 1"
    by (simp_all add: net_run_def demo_net_defs handle_tcp_retransmit_def)
  have "map_lookup (ow_ops demo_ops) (sock_owner demo_net) a = None" for a
    by (simp add: demo_net_defs)
  from nettop_retransmit_owner [OF maps this, of demo_events demo_sock] row show ?thesis
    by (auto simp: demo_sock_def split: if_splits)
qed

end
