(* ===== verification/Slot_Table.thy ===== *)
theory Slot_Table
  imports Bpf_Prelude
begin

text \<open>
  Two idioms of the user-space halves on fixed C arrays: squeezing the unwanted entries out of
  the live part of an array in place (\<open>rule_portscan\<close> of \<open>23-ids/ids.c\<close>, \<open>sample\<close> of
  \<open>27-nettop/nettop.c\<close>), and tables of slots.

  Fixed tables of slots searched linearly, the data structure of the user-space halves: the
  flow table and the scan table of \<open>23-ids/ids.c\<close>. A search walks the whole array, remembers
  the first unused slot, and stops at a used slot with the right key; on a miss the remembered
  slot is claimed, and with none the table is full.

  The locale \<open>slot_table\<close> states what such a table is for: as long as no two used slots have
  the same key, it is a finite map from keys to slots, and a claim extends the map at a new
  key. The rules of \<open>ids.c\<close> are proved over that map.
\<close>

section \<open>Compaction in place\<close>

text \<open>
  \<open>for (i = 0; i < n; i++) if (keep(a[i])) a[w++] = a[i];\<close> from \<open>i\<close> and \<open>w\<close> on: the final
  \<open>w\<close> and the array.
\<close>

function compact_loop :: "('a \<Rightarrow> bool) \<Rightarrow> nat \<Rightarrow> nat \<Rightarrow> nat \<Rightarrow> 'a list \<Rightarrow> nat \<times> 'a list" where
  "compact_loop keep n i w a =
     (if i < n then
        if keep (a ! i) then compact_loop keep n (Suc i) (Suc w) (a[w := a ! i])
        else compact_loop keep n (Suc i) w a
      else (w, a))"
  by auto
termination
  by (relation "measure (\<lambda>(keep, n, i, w, a). n - i)") auto

declare compact_loop.simps [simp del]

text \<open>The loop is a \<open>filter\<close> of the live part.\<close>

lemma compact_loop_filter:
  assumes "w \<le> i" "i \<le> n" "n \<le> length a" "compact_loop keep n i w a = (w', a')"
  shows "length a' = length a \<and> w' \<le> n \<and>
    take w' a' = take w a @ filter keep (drop i (take n a))"
  using assms
proof (induction keep n i w a rule: compact_loop.induct)
  case (1 keep n i w a)
  show ?case
  proof (cases "i < n")
    case True
    then have step: "drop i (take n a) = a ! i # drop (Suc i) (take n a)"
      using "1.prems" Cons_nth_drop_Suc [of i "take n a"] by simp
    have keep: "drop (Suc i) (take n (a[w := a ! i])) = drop (Suc i) (take n a)"
      using "1.prems"(1) by (simp add: take_update_swap drop_update_cancel)
    have snoc: "take (Suc w) (a[w := x]) = take w a @ [x]" for x
      using "1.prems" True by (simp add: take_Suc_conv_app_nth)
    show ?thesis
      using "1.IH" "1.prems" True step keep snoc
      by (simp add: compact_loop.simps [of keep n i w] split: if_splits)
  next
    case False
    with "1.prems" show ?thesis by (simp add: compact_loop.simps [of keep n n w])
  qed
qed

lemma compact_filter:
  assumes "n \<le> length a" "compact_loop keep n 0 0 a = (w', a')"
  shows "length a' = length a" "w' \<le> n" "take w' a' = filter keep (take n a)"
  using compact_loop_filter [OF _ _ assms] by simp_all

section \<open>Tables of slots\<close>

datatype slot_res = Hit nat | Free nat | Full

fun find_slot :: "('s \<Rightarrow> bool) \<Rightarrow> ('s \<Rightarrow> bool) \<Rightarrow> nat \<Rightarrow> nat option \<Rightarrow> 's list \<Rightarrow> slot_res" where
  "find_slot is_used matches i free [] = (case free of None \<Rightarrow> Full | Some j \<Rightarrow> Free j)"
| "find_slot is_used matches i free (s # ss) =
     (if \<not> is_used s
      then find_slot is_used matches (Suc i) (case free of None \<Rightarrow> Some i | Some j \<Rightarrow> Some j) ss
      else if matches s then Hit i
      else find_slot is_used matches (Suc i) free ss)"

text \<open>The slot a caller gets: the one found, or the remembered free one, claimed for the key.\<close>

definition get_slot ::
  "('s \<Rightarrow> bool) \<Rightarrow> ('s \<Rightarrow> bool) \<Rightarrow> ('s \<Rightarrow> 's) \<Rightarrow> 's list \<Rightarrow> nat option \<times> 's list" where
  "get_slot is_used matches claim ss =
     (case find_slot is_used matches 0 None ss of
        Hit i \<Rightarrow> (Some i, ss)
      | Free i \<Rightarrow> (Some i, ss[i := claim (ss ! i)])
      | Full \<Rightarrow> (None, ss))"

lemma find_slot_first_index:
  "find_slot is_used matches i free ss =
     (case first_index (\<lambda>s. is_used s \<and> matches s) ss of
        Some j \<Rightarrow> Hit (i + j)
      | None \<Rightarrow>
          (case free of
             Some j \<Rightarrow> Free j
           | None \<Rightarrow> (case first_index (\<lambda>s. \<not> is_used s) ss of None \<Rightarrow> Full | Some j \<Rightarrow> Free (i + j))))"
  by (induction is_used matches i free ss rule: find_slot.induct) (auto split: option.splits)

text \<open>The value a table holds for a key: the first used slot with that key.\<close>

definition slot_map :: "('s \<Rightarrow> bool) \<Rightarrow> ('s \<Rightarrow> 'k) \<Rightarrow> 's list \<Rightarrow> 'k \<Rightarrow> 's option" where
  "slot_map is_used key ss k = map_option ((!) ss) (first_index (\<lambda>s. is_used s \<and> key s = k) ss)"

text \<open>No two used slots share a key.\<close>

definition slots_distinct :: "('s \<Rightarrow> bool) \<Rightarrow> ('s \<Rightarrow> 'k) \<Rightarrow> 's list \<Rightarrow> bool" where
  "slots_distinct is_used key ss \<longleftrightarrow>
     (\<forall>i < length ss. \<forall>j < length ss.
        is_used (ss ! i) \<and> is_used (ss ! j) \<and> key (ss ! i) = key (ss ! j) \<longrightarrow> i = j)"

lemma slots_distinctD:
  "slots_distinct is_used key ss \<Longrightarrow> i < length ss \<Longrightarrow> j < length ss \<Longrightarrow>
   is_used (ss ! i) \<Longrightarrow> is_used (ss ! j) \<Longrightarrow> key (ss ! i) = key (ss ! j) \<Longrightarrow> i = j"
  by (simp add: slots_distinct_def)

lemma first_index_slot:
  assumes "slots_distinct is_used key ss" "i < length ss" "is_used (ss ! i)"
  shows "first_index (\<lambda>s. is_used s \<and> key s = key (ss ! i)) ss = Some i"
  using assms slots_distinctD [OF assms(1)]
  by (intro first_index_eqI) (auto, metis less_trans nat_neq_iff)

lemma slot_map_at:
  "slots_distinct is_used key ss \<Longrightarrow> i < length ss \<Longrightarrow> is_used (ss ! i) \<Longrightarrow>
   slot_map is_used key ss (key (ss ! i)) = Some (ss ! i)"
  by (simp add: slot_map_def first_index_slot)

lemma slot_map_SomeD:
  "slot_map is_used key ss k = Some s \<Longrightarrow> s \<in> set ss \<and> is_used s \<and> key s = k"
  by (auto simp: slot_map_def dest!: first_index_SomeD)

lemma slot_map_None_iff:
  "slot_map is_used key ss k = None \<longleftrightarrow> (\<forall>s \<in> set ss. is_used s \<longrightarrow> key s \<noteq> k)"
  by (auto simp: slot_map_def first_index_None_iff)

lemma slot_map_eqI:
  assumes "slots_distinct is_used key ss" "s \<in> set ss" "is_used s" "key s = k"
  shows "slot_map is_used key ss k = Some s"
  using assms slot_map_at [of is_used key ss] by (auto simp: in_set_conv_nth)

text \<open>Storing a slot whose key is its old one, or new to the table.\<close>

lemma slot_store:
  assumes d: "slots_distinct is_used key ss" and i: "i < length ss" and u: "is_used s"
    and k: "is_used (ss ! i) \<and> key (ss ! i) = key s \<or>
            \<not> is_used (ss ! i) \<and> slot_map is_used key ss (key s) = None"
  shows "slots_distinct is_used key (ss[i := s])"
    and "slot_map is_used key (ss[i := s]) = (slot_map is_used key ss)(key s \<mapsto> s)"
proof -
  have other: "key (ss ! j) \<noteq> key s" if "j < length ss" "j \<noteq> i" "is_used (ss ! j)" for j
    using k slots_distinctD [OF d that(1) i that(3)] that unfolding slot_map_None_iff by (metis nth_mem)
  show d': "slots_distinct is_used key (ss[i := s])"
    using slots_distinctD [OF d] other i unfolding slots_distinct_def
    by (auto simp: nth_list_update) metis+
  show "slot_map is_used key (ss[i := s]) = (slot_map is_used key ss)(key s \<mapsto> s)"
  proof (rule ext)
    fix q
    show "slot_map is_used key (ss[i := s]) q = ((slot_map is_used key ss)(key s \<mapsto> s)) q"
    proof (cases "q = key s")
      case True
      with slot_map_at [OF d', of i] i u show ?thesis by simp
    next
      case False
      show ?thesis
      proof (cases "slot_map is_used key ss q")
        case None
        with False u i have "slot_map is_used key (ss[i := s]) q = None"
          by (auto simp: slot_map_None_iff dest: set_update_subset_insert [THEN subsetD])
        with None False show ?thesis by simp
      next
        case (Some t)
        then obtain j where j: "j < length ss" "t = ss ! j" "is_used t" "key t = q"
          using slot_map_SomeD [OF Some] by (auto simp: in_set_conv_nth)
        with k False have "j \<noteq> i" by auto
        with slot_map_at [OF d', of j] j Some False show ?thesis by simp
      qed
    qed
  qed
qed

section \<open>The interface\<close>

locale slot_table =
  fixes is_used :: "'s \<Rightarrow> bool" and key :: "'s \<Rightarrow> 'k" and matches :: "'k \<Rightarrow> 's \<Rightarrow> bool"
    and claim :: "'k \<Rightarrow> 's \<Rightarrow> 's"
  assumes matches_key: "matches k s \<longleftrightarrow> key s = k"
    and claim_used: "is_used (claim k s)"
    and claim_key: "key (claim k s) = k"
begin

abbreviation "search k ss \<equiv> find_slot is_used (matches k) 0 None ss"

abbreviation "tmap ss \<equiv> slot_map is_used key ss"

lemma search_eq:
  "search k ss =
     (case first_index (\<lambda>s. is_used s \<and> key s = k) ss of
        Some j \<Rightarrow> Hit j
      | None \<Rightarrow> (case first_index (\<lambda>s. \<not> is_used s) ss of None \<Rightarrow> Full | Some j \<Rightarrow> Free j))"
  unfolding find_slot_first_index matches_key by (simp split: option.split)

lemma search_Hit:
  "search k ss = Hit i \<Longrightarrow>
   i < length ss \<and> is_used (ss ! i) \<and> key (ss ! i) = k \<and> tmap ss k = Some (ss ! i)"
  by (auto simp: search_eq slot_map_def split: option.splits dest: first_index_SomeD)

lemma search_Free:
  "search k ss = Free i \<Longrightarrow> i < length ss \<and> \<not> is_used (ss ! i) \<and> tmap ss k = None"
  by (auto simp: search_eq slot_map_def split: option.splits dest: first_index_SomeD)

text \<open>The search gives up only when every slot is taken by another key.\<close>

lemma search_Full:
  "search k ss = Full \<longleftrightarrow> tmap ss k = None \<and> (\<forall>s \<in> set ss. is_used s)"
proof (cases "first_index (\<lambda>s. is_used s \<and> key s = k) ss")
  case None
  then show ?thesis
    using first_index_None_iff [of "\<lambda>s. \<not> is_used s" ss]
    by (auto simp: search_eq slot_map_def split: option.split)
next
  case (Some j)
  then show ?thesis by (simp add: search_eq slot_map_def)
qed

text \<open>A table with fewer keys than slots always has room.\<close>

lemma full_card:
  assumes "slots_distinct is_used key ss" "\<forall>s \<in> set ss. is_used s"
  shows "card (dom (tmap ss)) = length ss"
proof -
  from assms have "distinct (map key ss)"
    by (simp add: distinct_conv_nth) (metis slots_distinctD nth_mem)
  moreover have "dom (tmap ss) = set (map key ss)"
    using assms(2) by (auto simp: dom_def slot_map_None_iff simp flip: not_None_eq)
  ultimately show ?thesis
    by (metis distinct_card length_map)
qed

lemma search_room:
  assumes "slots_distinct is_used key ss" "card (dom (tmap ss)) < length ss"
  shows "search k ss \<noteq> Full"
  using assms full_card by (auto simp: search_Full)

text \<open>
  A table in good order: distinct keys, and the unused slots still as the program's static
  initialisation left them.
\<close>

definition "ok z ss \<longleftrightarrow> slots_distinct is_used key ss \<and> (\<forall>s \<in> set ss. is_used s \<or> s = z)"

text \<open>
  What a caller may rely on: it gets a slot of its key that holds what the table had for the
  key, or a fresh one; writing the slot back is a map update; and every other key is untouched.
\<close>

lemma get_slot_Some:
  assumes ok: "ok z ss" and get: "get_slot is_used (matches k) (claim k) ss = (Some i, ss')"
  shows "i < length ss' \<and> length ss' = length ss \<and>
    ss' ! i = (case tmap ss k of Some s \<Rightarrow> s | None \<Rightarrow> claim k z) \<and>
    (\<forall>s. is_used s \<longrightarrow> key s = k \<longrightarrow>
       ok z (ss'[i := s]) \<and> tmap (ss'[i := s]) = (tmap ss)(k \<mapsto> s))"
proof -
  from get consider (hit) "search k ss = Hit i" "ss' = ss"
    | (free) "search k ss = Free i" "ss' = ss[i := claim k (ss ! i)]"
    by (auto simp: get_slot_def split: slot_res.splits)
  then show ?thesis
  proof cases
    case hit
    with search_Hit [OF hit(1)] ok slot_store [of is_used key ss i] show ?thesis
      by (auto simp: ok_def dest: set_update_subset_insert [THEN subsetD])
  next
    case free
    with search_Free [OF free(1)] ok slot_store [of is_used key ss i] show ?thesis
      by (auto simp: ok_def dest: set_update_subset_insert [THEN subsetD])
  qed
qed

lemma get_slot_None:
  assumes "ok z ss" "get_slot is_used (matches k) (claim k) ss = (None, ss')"
  shows "ss' = ss \<and> tmap ss k = None \<and> (\<forall>s \<in> set ss. is_used s) \<and>
    card (dom (tmap ss)) = length ss"
proof -
  from assms(2) have "search k ss = Full" "ss' = ss"
    by (auto simp: get_slot_def split: slot_res.splits)
  with assms(1) full_card show ?thesis
    by (simp add: search_Full ok_def)
qed

lemma get_slot_full:
  assumes "\<forall>s \<in> set ss. is_used s" "get_slot is_used (matches k) (claim k) ss = (Some i, ss')"
  shows "ss' = ss \<and> tmap ss k \<noteq> None"
  using assms(2) search_Hit [of k ss i] search_Free [of k ss i] assms(1)
  by (auto simp: get_slot_def split: slot_res.splits dest: nth_mem)

lemma empty_table:
  assumes "\<not> is_used z"
  shows "ok z (replicate n z)" "tmap (replicate n z) = Map.empty"
  using assms by (auto simp: ok_def slots_distinct_def slot_map_None_iff fun_eq_iff)

text \<open>
  A table that tracks a history: \<open>H k\<close> are the items seen so far for the key \<open>k\<close>, and \<open>I\<close>
  relates a key and its items to the slot's contents. A slot is never given up, so a key is
  either tracked from its first item on or never.
\<close>

definition "tracks I z H ss \<longleftrightarrow>
  ok z ss \<and>
  (\<forall>k s. tmap ss k = Some s \<longrightarrow> I k (H k) s) \<and>
  (\<forall>k. tmap ss k \<noteq> None \<longrightarrow> H k \<noteq> []) \<and>
  ((\<forall>k. H k \<noteq> [] \<longrightarrow> tmap ss k \<noteq> None) \<or> (\<forall>s \<in> set ss. is_used s))"

lemma tracks_Some:
  assumes t: "tracks I z H ss" and I0: "I k [] (claim k z)"
    and get: "get_slot is_used (matches k) (claim k) ss = (Some i, ss')"
  shows "I k (H k) (ss' ! i)"
    and "is_used s \<Longrightarrow> key s = k \<Longrightarrow> I k (H k @ [x]) s \<Longrightarrow>
         tracks I z (H(k := H k @ [x])) (ss'[i := s])"
proof -
  from t have ok: "ok z ss" by (simp add: tracks_def)
  note g = get_slot_Some [OF ok get]
  have new: "H k = []" if "tmap ss k = None"
    using t get_slot_full [OF _ get] that unfolding tracks_def by blast
  with g t I0 show "I k (H k) (ss' ! i)"
    by (auto simp: tracks_def split: option.splits)
  assume s: "is_used s" "key s = k" "I k (H k @ [x]) s"
  with g have st: "ok z (ss'[i := s])" "tmap (ss'[i := s]) = (tmap ss)(k \<mapsto> s)" by auto
  have "(\<forall>k'. (H(k := H k @ [x])) k' \<noteq> [] \<longrightarrow> tmap (ss'[i := s]) k' \<noteq> None) \<or>
      (\<forall>u \<in> set (ss'[i := s]). is_used u)"
  proof (cases "\<forall>u \<in> set ss. is_used u")
    case True
    with get_slot_full [OF True get] s show ?thesis
      by (auto dest: set_update_subset_insert [THEN subsetD])
  next
    case False
    with t st show ?thesis by (auto simp: tracks_def)
  qed
  with t st s show "tracks I z (H(k := H k @ [x])) (ss'[i := s])"
    unfolding tracks_def by auto
qed

lemma tracks_None:
  assumes "tracks I z H ss" "get_slot is_used (matches k) (claim k) ss = (None, ss')"
  shows "ss' = ss" "tmap ss k = None" "tracks I z (H(k := H k @ [x])) ss"
  using assms get_slot_None [of z ss k ss'] by (auto simp: tracks_def)

text \<open>While there are no more keys than slots, every key is tracked.\<close>

lemma tracks_all:
  assumes t: "tracks I z H ss" and fin: "finite {k. H k \<noteq> []}"
    and card: "card {k. H k \<noteq> []} \<le> length ss" and k: "H k \<noteq> []"
  shows "tmap ss k \<noteq> None"
proof (cases "\<forall>s \<in> set ss. is_used s")
  case True
  with t have "card (dom (tmap ss)) = length ss"
    by (simp add: tracks_def ok_def full_card)
  moreover have "dom (tmap ss) \<subseteq> {k. H k \<noteq> []}"
    using t by (auto simp: tracks_def)
  ultimately have "dom (tmap ss) = {k. H k \<noteq> []}"
    using card fin by (metis card_seteq)
  with k show ?thesis by blast
qed (use t k in \<open>auto simp: tracks_def\<close>)

lemma tracks_init: "\<not> is_used z \<Longrightarrow> tracks I z (\<lambda>k. []) (replicate n z)"
  by (simp add: tracks_def empty_table)

end

text \<open>The items of a sequence that belong to a key.\<close>

definition hist :: "('p \<Rightarrow> 'k) \<Rightarrow> 'p list \<Rightarrow> 'k \<Rightarrow> 'p list" where
  "hist key ps k = filter (\<lambda>p. key p = k) ps"

lemma hist_snoc: "hist key (ps @ [p]) = (hist key ps)(key p := hist key ps (key p) @ [p])"
  by (auto simp: hist_def fun_eq_iff)

lemma hist_Nil: "hist key [] = (\<lambda>k. [])"
  by (simp add: hist_def fun_eq_iff)

lemma hist_keys: "{k. hist key ps k \<noteq> []} = key ` set ps"
  by (auto simp: hist_def filter_empty_conv)

end
