(* ===== verification/Nettop_Sample.thy ===== *)
theory Nettop_Sample
  imports Nettop_Kernel Slot_Table Doubles "HOL-Library.Multiset"
begin

text \<open>
  27-nettop, user half: \<open>sample\<close> of \<open>nettop.c\<close>, which walks the statistics map, reaps dead
  processes, differentiates against the previous sample and sorts, with the comparison and the
  formatting routines.

  The walk uses \<open>bpf_map_get_next_key\<close>. Given a key that is not in the map it starts over at
  the first key, so after the reaper deletes the key it stands on the walk begins again. The
  theorems show that this is harmless: the walk ends, and a row visited again is not listed
  twice. The map is taken to be quiet during one walk.
\<close>

definition MAX_ROWS :: nat where "MAX_ROWS = 4096"

definition REAP_IDLE_NS :: u64 where "REAP_IDLE_NS = 60 * 1000000000"

definition TASK_COMM_LEN :: nat where "TASK_COMM_LEN = 16"

record 'd row =
  rw_pid :: u32
  rw_comm :: bytes
  rw_tx_bps :: 'd
  rw_rx_bps :: 'd
  rw_tx_total :: u64
  rw_rx_total :: u64
  rw_retrans :: u64

record prev_entry =
  pv_pid :: u32
  pv_tx :: u64
  pv_rx :: u64
  pv_retrans :: u64
  pv_seen :: bool

text \<open>The static state of the program and the array it fills, the map behind the descriptor.\<close>

record ('m, 'd) sampler =
  sm_map :: 'm
  sm_prev :: "prev_entry list"
  sm_prev_n :: nat
  sm_rows :: "'d row list"

text \<open>
  Two questions to the system: whether a process is visible in \<open>/proc\<close>, and the monotonic clock,
  given as the seconds and nanoseconds of a \<open>timespec\<close>.
\<close>

definition pid_alive :: "(string \<Rightarrow> int) \<Rightarrow> u32 \<Rightarrow> bool" where
  "pid_alive access pid \<longleftrightarrow> access (snprintf_str 64 (''/proc/'' @ c_dec (unat pid))) = 0"

definition mono_ns :: "int \<times> int \<Rightarrow> u64" where
  "mono_ns ts = of_int (fst ts) * 1000000000 + of_int (snd ts)"

definition libbpf_print_fn :: "bool \<Rightarrow> string \<Rightarrow> string option" where
  "libbpf_print_fn debug_level msg = (if debug_level then None else Some msg)"

text \<open>The path is never cut, and the clock is exact for 544 years.\<close>

lemma pid_alive_path: "pid_alive access pid \<longleftrightarrow> access (''/proc/'' @ c_dec (unat pid)) = 0"
proof -
  have "unat pid < 10 ^ 10"
    using unsigned_less [of pid, where ?'a = nat] by simp
  then have "length (c_dec (unat pid)) \<le> 10"
    by (rule length_c_dec) simp
  then show ?thesis by (simp add: pid_alive_def snprintf_str_def)
qed

lemma mono_ns_exact:
  assumes "0 \<le> s" "s < 2 ^ 34" "0 \<le> n" "n < 1000000000"
  shows "uint (mono_ns (s, n)) = s * 1000000000 + n"
proof -
  have "mono_ns (s, n) = of_int (s * 1000000000 + n)"
    by (simp add: mono_ns_def)
  moreover have "uint (of_int (s * 1000000000 + n) :: u64) = (s * 1000000000 + n) mod 2 ^ 64"
    by (simp only: uint_word_of_int len_of_numeral_defs) simp
  ultimately show ?thesis
    using assms by simp
qed

text \<open>
  What one call is given: the system calls it makes and its arguments. \<open>se_alive\<close> is \<open>pid_alive\<close>
  during the call and \<open>se_now\<close> the \<open>mono_ns\<close> it reads.
\<close>

record ('m, 'd) sample_env =
  se_ops :: "('m, u32, proc_stats) map_ops"
  se_next :: "'m \<Rightarrow> u32 \<Rightarrow> u32 option"
  se_alive :: "u32 \<Rightarrow> bool"
  se_now :: u64
  se_fp :: "'d fp_ops"
  se_elapsed :: 'd
  se_max_rows :: nat
  se_priming :: bool

section \<open>One row\<close>

definition prev_find :: "u32 \<Rightarrow> ('m, 'd) sampler \<Rightarrow> nat option" where
  "prev_find pid s = first_index (\<lambda>p. pv_pid p = pid) (take (sm_prev_n s) (sm_prev s))"

definition reapable :: "('m, 'd) sample_env \<Rightarrow> u32 \<Rightarrow> proc_stats \<Rightarrow> bool" where
  "reapable env key val \<longleftrightarrow>
     \<not> se_alive env key \<and>
     REAP_IDLE_NS < (if last_ns val < se_now env then se_now env - last_ns val else 0)"

definition up_by :: "u64 \<Rightarrow> u64 \<Rightarrow> u64" where
  "up_by now before = (if before \<le> now then now - before else 0)"

definition mk_row :: "('m, 'd) sample_env \<Rightarrow> u32 \<Rightarrow> proc_stats \<Rightarrow> prev_entry \<Rightarrow> 'd row" where
  "mk_row env key val p =
     \<lparr>rw_pid = key,
      rw_comm = (take TASK_COMM_LEN (ps_comm val))[TASK_COMM_LEN - 1 := 0],
      rw_tx_bps = fp_div (se_fp env) (fp_of_u64 (se_fp env) (up_by (tx_bytes val) (pv_tx p))) (se_elapsed env),
      rw_rx_bps = fp_div (se_fp env) (fp_of_u64 (se_fp env) (up_by (rx_bytes val) (pv_rx p))) (se_elapsed env),
      rw_tx_total = tx_bytes val,
      rw_rx_total = rx_bytes val,
      rw_retrans = up_by (retrans_pkts val) (pv_retrans p)\<rparr>"

definition idle_since :: "proc_stats \<Rightarrow> prev_entry \<Rightarrow> bool" where
  "idle_since val p \<longleftrightarrow>
     up_by (tx_bytes val) (pv_tx p) = 0 \<and> up_by (rx_bytes val) (pv_rx p) = 0 \<and>
     up_by (retrans_pkts val) (pv_retrans p) = 0"

definition prev_set :: "u32 \<Rightarrow> proc_stats \<Rightarrow> prev_entry" where
  "prev_set key val =
     \<lparr>pv_pid = key, pv_tx = tx_bytes val, pv_rx = rx_bytes val, pv_retrans = retrans_pkts val,
      pv_seen = True\<rparr>"

text \<open>From the three differences to the end of the loop body, for the entry at index \<open>i\<close>.\<close>

definition emit ::
  "('m, 'd) sample_env \<Rightarrow> u32 \<Rightarrow> proc_stats \<Rightarrow> nat \<Rightarrow> ('m, 'd) sampler \<Rightarrow> ('m, 'd) sampler" where
  "emit env key val i s =
     (let p = sm_prev s ! i;
          s1 = s\<lparr>sm_prev := (sm_prev s)[i :=
                   p\<lparr>pv_tx := tx_bytes val, pv_rx := rx_bytes val, pv_retrans := retrans_pkts val,
                     pv_seen := True\<rparr>]\<rparr>
      in if idle_since val p then s1
         else if se_max_rows env \<le> length (sm_rows s) then s1
         else s1\<lparr>sm_rows := sm_rows s @ [mk_row env key val p]\<rparr>)"

definition visit :: "('m, 'd) sample_env \<Rightarrow> u32 \<Rightarrow> ('m, 'd) sampler \<Rightarrow> ('m, 'd) sampler" where
  "visit env key s =
     (case map_lookup (se_ops env) (sm_map s) key of
        None \<Rightarrow> s
      | Some val \<Rightarrow>
          if reapable env key val then s\<lparr>sm_map := map_delete (se_ops env) (sm_map s) key\<rparr>
          else (case prev_find key s of
             Some i \<Rightarrow> emit env key val i s
           | None \<Rightarrow>
               let n = sm_prev_n s in
               if MAX_ROWS \<le> n then s
               else if se_priming env
               then s\<lparr>sm_prev := (sm_prev s)[n := prev_set key val], sm_prev_n := Suc n\<rparr>
               else emit env key val n
                      (s\<lparr>sm_prev := (sm_prev s)[n :=
                           \<lparr>pv_pid = key, pv_tx = 0, pv_rx = 0, pv_retrans = 0, pv_seen = True\<rparr>],
                         sm_prev_n := Suc n\<rparr>)))"

section \<open>The walk, the compaction and the sort\<close>

text \<open>
  \<open>while (bpf_map_get_next_key(fd, &key, &next) == 0)\<close>. The number of iterations is bounded by
  an argument; running out of it is \<open>None\<close>.
\<close>

fun walk :: "('m, 'd) sample_env \<Rightarrow> nat \<Rightarrow> u32 \<Rightarrow> ('m, 'd) sampler \<Rightarrow> ('m, 'd) sampler option" where
  "walk env 0 key s = None"
| "walk env (Suc fuel) key s =
     (case se_next env (sm_map s) key of
        None \<Rightarrow> Some s
      | Some k \<Rightarrow> walk env fuel k (visit env k s))"

definition clear_seen :: "('m, 'd) sampler \<Rightarrow> ('m, 'd) sampler" where
  "clear_seen s =
     s\<lparr>sm_prev := map (pv_seen_update (\<lambda>_. False)) (take (sm_prev_n s) (sm_prev s)) @
                  drop (sm_prev_n s) (sm_prev s)\<rparr>"

definition prev_compact :: "('m, 'd) sampler \<Rightarrow> ('m, 'd) sampler" where
  "prev_compact s =
     (case compact_loop pv_seen (sm_prev_n s) 0 0 (sm_prev s) of
        (w, a) \<Rightarrow> s\<lparr>sm_prev := a, sm_prev_n := w\<rparr>)"

definition by_traffic :: "'d fp_ops \<Rightarrow> 'd row \<Rightarrow> 'd row \<Rightarrow> int" where
  "by_traffic fp x y =
     (let xt = fp_add fp (rw_tx_bps x) (rw_rx_bps x); yt = fp_add fp (rw_tx_bps y) (rw_rx_bps y)
      in if fp_lt fp yt xt then -1
         else if fp_lt fp xt yt then 1
         else (if rw_pid y < rw_pid x then 1 else 0) - (if rw_pid x < rw_pid y then 1 else 0))"

text \<open>\<open>qsort\<close> by a comparison, as insertion sort.\<close>

fun insert_cmp :: "('a \<Rightarrow> 'a \<Rightarrow> int) \<Rightarrow> 'a \<Rightarrow> 'a list \<Rightarrow> 'a list" where
  "insert_cmp cmp x [] = [x]"
| "insert_cmp cmp x (y # ys) = (if cmp x y \<le> 0 then x # y # ys else y # insert_cmp cmp x ys)"

definition qsort :: "('a \<Rightarrow> 'a \<Rightarrow> int) \<Rightarrow> 'a list \<Rightarrow> 'a list" where
  "qsort cmp xs = foldr (insert_cmp cmp) xs []"

definition sample :: "('m, 'd) sample_env \<Rightarrow> nat \<Rightarrow> ('m, 'd) sampler \<Rightarrow> ('m, 'd) sampler option" where
  "sample env fuel s =
     (case walk env fuel 0 (clear_seen (s\<lparr>sm_rows := []\<rparr>)) of
        None \<Rightarrow> None
      | Some s1 \<Rightarrow>
          let s2 = prev_compact s1
          in Some (s2\<lparr>sm_rows := qsort (by_traffic (se_fp env)) (sm_rows s2)\<rparr>))"

section \<open>Printing and the main loop\<close>

text \<open>
  \<open>fmt_rate\<close> divides by 1024 up to four times. The result is the number printed, whether it is
  printed with a decimal, and the index of the unit in \<open>B K M G T\<close>.
\<close>

fun fmt_loop :: "'d fp_ops \<Rightarrow> nat \<Rightarrow> nat \<Rightarrow> 'd \<Rightarrow> 'd \<times> nat" where
  "fmt_loop fp 0 u bps = (bps, u)"
| "fmt_loop fp (Suc left) u bps =
     (if fp_le fp (fp_lit fp 1024) bps
      then fmt_loop fp left (Suc u) (fp_div fp bps (fp_lit fp 1024))
      else (bps, u))"

definition fmt_rate :: "'d fp_ops \<Rightarrow> 'd \<Rightarrow> 'd \<times> bool \<times> char" where
  "fmt_rate fp bps = (case fmt_loop fp 4 0 bps of (v, u) \<Rightarrow> (v, u \<noteq> 0, ''BKMGT'' ! u))"

text \<open>The screen of one sample: the clear, the count, the lines and the number left out.\<close>

record 'd screen =
  sc_clear :: bool
  sc_count :: int
  sc_lines :: "(u32 \<times> bytes \<times> ('d \<times> bool \<times> char) \<times> ('d \<times> bool \<times> char) \<times> u64) list"
  sc_more :: "int option"

definition print_sample :: "'d fp_ops \<Rightarrow> bool \<Rightarrow> int \<Rightarrow> 'd row list \<Rightarrow> 'd screen" where
  "print_sample fp clear topn rows =
     (let n = int (length rows); shown = (if n < topn then n else topn)
      in \<lparr>sc_clear = clear, sc_count = n,
          sc_lines = map (\<lambda>r. (rw_pid r, c_str (rw_comm r), fmt_rate fp (rw_tx_bps r),
                               fmt_rate fp (rw_rx_bps r), rw_retrans r)) (take (nat shown) rows),
          sc_more = (if shown < n then Some (n - shown) else None)\<rparr>)"

text \<open>The options; a bad interval ends the program in \<open>argp_usage\<close>.\<close>

record 'd nt_env =
  en_interval :: 'd
  en_count :: int
  en_top :: int
  en_clear :: bool

datatype 'd opt_result = Opt_ok "'d nt_env" | Opt_usage | Opt_unknown

definition env_default :: "'d fp_ops \<Rightarrow> 'd nt_env" where
  "env_default fp = \<lparr>en_interval = fp_lit fp 1, en_count = 0, en_top = 20, en_clear = True\<rparr>"

definition parse_opt ::
  "'d fp_ops \<Rightarrow> (string \<Rightarrow> 'd) \<Rightarrow> char \<Rightarrow> string \<Rightarrow> 'd nt_env \<Rightarrow> 'd opt_result" where
  "parse_opt fp strtod key arg env =
     (if key = CHR ''i'' then
        let v = strtod arg in
        if fp_le fp v (fp_of_int fp 0) then Opt_usage else Opt_ok (env\<lparr>en_interval := v\<rparr>)
      else if key = CHR ''c'' then Opt_ok (env\<lparr>en_count := c_atoi arg\<rparr>)
      else if key = CHR ''n'' then Opt_ok (env\<lparr>en_top := c_atoi arg\<rparr>)
      else if key = CHR ''C'' then Opt_ok (env\<lparr>en_clear := False\<rparr>)
      else Opt_unknown)"

text \<open>Attaching the hooks: the results of the seven calls, the warnings, the return value.\<close>

definition hook_names :: "string list" where
  "hook_names = [''tcp_sendmsg'', ''tcp_cleanup_rbuf'', ''udp_sendmsg'', ''udpv6_sendmsg'',
                 ''skb_consume_udp'', ''tcp_retransmit_skb'', ''tcp_close'']"

fun attach_loop :: "(string \<Rightarrow> bool) \<Rightarrow> string list \<Rightarrow> nat \<Rightarrow> string list \<times> nat" where
  "attach_loop ok [] attached = ([], attached)"
| "attach_loop ok (h # hs) attached =
     (if \<not> ok h
      then (case attach_loop ok hs attached of (ws, n) \<Rightarrow> (h # ws, n))
      else attach_loop ok hs (Suc attached))"

definition attach_all :: "(string \<Rightarrow> bool) \<Rightarrow> string list \<times> nat \<times> int" where
  "attach_all ok =
     (case attach_loop ok hook_names 0 of (ws, n) \<Rightarrow> (ws, n, if n = 0 then -1 else 0))"

text \<open>
  The sampling loop of \<open>main\<close>. A tick is one pass: the stop flag when it starts, whether the
  sleep was interrupted, the clock after it, and what the kernel did to the map meanwhile. The
  loop's result is \<open>None\<close> if the ticks run out before it ends.
\<close>

record ('m, 'd) tick =
  tk_exiting :: bool
  tk_eintr :: bool
  tk_sec :: int
  tk_nsec :: int
  tk_kernel :: "'m \<Rightarrow> 'm"
  tk_env :: "('m, 'd) sample_env"

definition tick_elapsed :: "'d fp_ops \<Rightarrow> 'd \<Rightarrow> int \<times> int \<Rightarrow> int \<times> int \<Rightarrow> 'd" where
  "tick_elapsed fp interval prev now =
     (let e = fp_add fp (fp_of_int fp (fst now - fst prev))
                (fp_div fp (fp_of_int fp (snd now - snd prev)) (fp_lit fp 1000000000))
      in if fp_le fp e (fp_of_int fp 0) then interval else e)"

fun nettop_loop ::
  "'d fp_ops \<Rightarrow> 'd nt_env \<Rightarrow> nat \<Rightarrow> ('m, 'd) tick list \<Rightarrow> int \<Rightarrow> int \<times> int \<Rightarrow> ('m, 'd) sampler \<Rightarrow>
   'd screen list option" where
  "nettop_loop fp cfg fuel [] samples t_prev s = None"
| "nettop_loop fp cfg fuel (t # ts) samples t_prev s =
     (if tk_exiting t then Some []
      else if tk_eintr t then Some []
      else
        let t_now = (tk_sec t, tk_nsec t);
            elapsed = tick_elapsed fp (en_interval cfg) t_prev t_now;
            env = (tk_env t)\<lparr>se_fp := fp, se_elapsed := elapsed, se_max_rows := MAX_ROWS, se_priming := False\<rparr>
        in (case sample env fuel (s\<lparr>sm_map := tk_kernel t (sm_map s)\<rparr>) of
              None \<Rightarrow> None
            | Some s' \<Rightarrow>
                let out = print_sample fp (en_clear cfg) (en_top cfg) (sm_rows s')
                in if en_count cfg \<noteq> 0 \<and> en_count cfg \<le> samples + 1 then Some [out]
                   else map_option (Cons out)
                     (nettop_loop fp cfg fuel ts (if en_count cfg \<noteq> 0 then samples + 1 else samples) t_now s')))"

text \<open>
  \<open>main\<close>: the options, the memory, the skeleton and the hooks, then one sample that primes the
  table and the loop. The result is the warnings of the hooks that could not be attached, the
  screens and the exit status; whether the skeleton was destroyed is the same in all runs that
  loaded it.
\<close>

record ('m, 'd) main_env =
  mv_argp :: int
  mv_rows :: bool
  mv_loaded :: bool
  mv_hook :: "string \<Rightarrow> bool"
  mv_start :: "int \<times> int"
  mv_prime :: "('m, 'd) sample_env"

definition nettop_main ::
  "'d fp_ops \<Rightarrow> 'd nt_env \<Rightarrow> ('m, 'd) main_env \<Rightarrow> nat \<Rightarrow> ('m, 'd) tick list \<Rightarrow> ('m, 'd) sampler \<Rightarrow>
   (string list \<times> 'd screen list \<times> int) option" where
  "nettop_main fp cfg env fuel ticks s =
     (if mv_argp env \<noteq> 0 then Some ([], [], mv_argp env)
      else if \<not> mv_rows env then Some ([], [], 1)
      else if \<not> mv_loaded env then Some ([], [], 1)
      else
        (case attach_all (mv_hook env) of
           (ws, n, r) \<Rightarrow>
             if r \<noteq> 0 then Some (ws, [], 1)
             else
               let prime = (mv_prime env)\<lparr>se_fp := fp, se_elapsed := en_interval cfg, se_max_rows := MAX_ROWS,
                              se_priming := True\<rparr>
               in (case sample prime fuel s of
                     None \<Rightarrow> None
                   | Some s' \<Rightarrow>
                       map_option (\<lambda>screens. (ws, screens, 0))
                         (nettop_loop fp cfg fuel ticks 0 (mv_start env) s'))))"

section \<open>The previous-sample table as a map\<close>

definition live :: "('m, 'd) sampler \<Rightarrow> prev_entry list" where
  "live s = take (sm_prev_n s) (sm_prev s)"

definition pmap :: "prev_entry list \<Rightarrow> u32 \<Rightarrow> prev_entry option" where
  "pmap ps = map_of (map (\<lambda>p. (pv_pid p, p)) ps)"

definition prev_ok :: "('m, 'd) sampler \<Rightarrow> bool" where
  "prev_ok s \<longleftrightarrow> length (sm_prev s) = MAX_ROWS \<and> sm_prev_n s \<le> MAX_ROWS \<and>
     distinct (map pv_pid (live s))"

lemma pmap_SomeD: "pmap ps k = Some p \<Longrightarrow> p \<in> set ps \<and> pv_pid p = k"
  by (auto simp: pmap_def dest!: map_of_SomeD)

lemma pmap_eq_None: "pmap ps k = None \<longleftrightarrow> k \<notin> pv_pid ` set ps"
  by (simp add: pmap_def map_of_eq_None_iff image_image)

lemma pmap_eqI: "distinct (map pv_pid ps) \<Longrightarrow> p \<in> set ps \<Longrightarrow> pmap ps (pv_pid p) = Some p"
  by (auto simp: pmap_def map_of_eq_Some_iff comp_def)

lemma pmap_find:
  "first_index (\<lambda>p. pv_pid p = k) ps = Some i \<Longrightarrow> pmap ps k = Some (ps ! i)"
  by (induction ps arbitrary: i) (auto simp: pmap_def split: if_splits)

lemma pmap_find_None: "first_index (\<lambda>p. pv_pid p = k) ps = None \<longleftrightarrow> pmap ps k = None"
  by (auto simp: first_index_None_iff pmap_eq_None)

lemma pmap_update:
  "first_index (\<lambda>p. pv_pid p = k) ps = Some i \<Longrightarrow> pv_pid q = k \<Longrightarrow>
   pmap (ps[i := q]) = (pmap ps)(k \<mapsto> q)"
  by (induction ps arbitrary: i) (auto simp: pmap_def fun_eq_iff split: if_splits)

lemma pmap_append:
  "pmap ps (pv_pid q) = None \<Longrightarrow> pmap (ps @ [q]) = (pmap ps)(pv_pid q \<mapsto> q)"
  by (auto simp: pmap_def map_add_def fun_eq_iff split: option.splits)

lemma pmap_filter:
  assumes "distinct (map pv_pid ps)"
  shows "pmap (filter P ps) k = (case pmap ps k of Some p \<Rightarrow> if P p then Some p else None | None \<Rightarrow> None)"
  using assms
proof (induction ps)
  case (Cons p ps)
  moreover have "pmap (filter P ps) k = None" if "pv_pid p = k"
    using that Cons.prems by (auto simp: pmap_eq_None)
  ultimately show ?case
    by (auto simp: pmap_def split: option.splits)
qed (simp add: pmap_def)

lemma prev_find_live: "prev_find k s = first_index (\<lambda>p. pv_pid p = k) (live s)"
  by (simp add: prev_find_def live_def)

section \<open>One visit\<close>

text \<open>
  The baseline a visit compares with: the entry of the last sample, or the current totals in
  the priming pass, or zero for a process that appeared since.
\<close>

definition baseline :: "('m, 'd) sample_env \<Rightarrow> prev_entry option \<Rightarrow> u32 \<Rightarrow> proc_stats \<Rightarrow> prev_entry" where
  "baseline env p k val =
     (case p of
        Some p \<Rightarrow> p
      | None \<Rightarrow>
          if se_priming env then prev_set k val
          else \<lparr>pv_pid = k, pv_tx = 0, pv_rx = 0, pv_retrans = 0, pv_seen = True\<rparr>)"

definition row_for :: "('m, 'd) sample_env \<Rightarrow> prev_entry option \<Rightarrow> u32 \<Rightarrow> proc_stats \<Rightarrow> 'd row list" where
  "row_for env p k val =
     (if idle_since val (baseline env p k val) then [] else [mk_row env k val (baseline env p k val)])"

lemma up_by_same [simp]: "up_by n n = 0"
  by (simp add: up_by_def)

lemma idle_prev_set [simp]: "idle_since val (prev_set k val)"
  by (simp add: idle_since_def prev_set_def)

lemma set_totals:
  "pv_pid p = k \<Longrightarrow>
   p\<lparr>pv_tx := tx_bytes val, pv_rx := rx_bytes val, pv_retrans := retrans_pkts val, pv_seen := True\<rparr> =
   prev_set k val"
  by (simp add: prev_set_def)

lemma live_update: "live (s\<lparr>sm_prev := (sm_prev s)[i := q]\<rparr>) = (live s)[i := q]"
  by (simp add: live_def take_update_swap)

lemma live_append:
  "prev_ok s \<Longrightarrow> sm_prev_n s < MAX_ROWS \<Longrightarrow>
   live (s\<lparr>sm_prev := (sm_prev s)[sm_prev_n s := q], sm_prev_n := Suc (sm_prev_n s)\<rparr>) = live s @ [q]"
  by (simp add: live_def prev_ok_def take_Suc_conv_app_nth)

lemma prev_ok_update:
  assumes "prev_ok s" "first_index (\<lambda>p. pv_pid p = k) (live s) = Some i" "pv_pid q = k"
  shows "prev_ok (s\<lparr>sm_prev := (sm_prev s)[i := q]\<rparr>)"
proof -
  from first_index_SomeD [OF assms(2)] assms(3) have "i < length (live s)" "pv_pid q = pv_pid (live s ! i)"
    by auto
  with assms(1) show ?thesis
    by (simp add: prev_ok_def live_update distinct_map_list_update)
qed

lemma prev_ok_append:
  assumes "prev_ok s" "sm_prev_n s < MAX_ROWS" "pmap (live s) (pv_pid q) = None"
  shows "prev_ok (s\<lparr>sm_prev := (sm_prev s)[sm_prev_n s := q], sm_prev_n := Suc (sm_prev_n s)\<rparr>)"
  using assms live_append [OF assms(1,2), of q] by (simp add: prev_ok_def pmap_eq_None)

lemma emit_row:
  assumes ok: "prev_ok s" and i: "first_index (\<lambda>p. pv_pid p = k) (live s) = Some i"
    and room: "length (sm_rows s) < se_max_rows env"
  defines "p \<equiv> live s ! i"
  shows "prev_ok (emit env k val i s)" "sm_map (emit env k val i s) = sm_map s"
    "sm_prev_n (emit env k val i s) = sm_prev_n s"
    "pmap (live (emit env k val i s)) = (pmap (live s))(k \<mapsto> prev_set k val)"
    "sm_rows (emit env k val i s) = sm_rows s @ (if idle_since val p then [] else [mk_row env k val p])"
proof -
  from first_index_SomeD [OF i] have "i < length (live s)" and pid: "pv_pid p = k"
    by (auto simp: p_def)
  then have p: "sm_prev s ! i = p"
    by (simp add: p_def live_def)
  define s1 where "s1 = s\<lparr>sm_prev := (sm_prev s)[i := prev_set k val]\<rparr>"
  have eq: "emit env k val i s =
      (if idle_since val p then s1 else s1\<lparr>sm_rows := sm_rows s @ [mk_row env k val p]\<rparr>)"
    using room by (simp add: emit_def Let_def p set_totals [OF pid] s1_def)
  have rows: "live (t\<lparr>sm_rows := r\<rparr>) = live t" "prev_ok (t\<lparr>sm_rows := r\<rparr>) = prev_ok t"
    for t :: "('a, 'b) sampler" and r
    by (simp_all add: live_def prev_ok_def)
  have "prev_ok s1" "pmap (live s1) = (pmap (live s))(k \<mapsto> prev_set k val)"
    using prev_ok_update [OF ok i, of "prev_set k val"] pmap_update [OF i, of "prev_set k val"]
    by (simp_all add: s1_def live_update) (simp_all add: prev_set_def)
  then show "prev_ok (emit env k val i s)" "sm_map (emit env k val i s) = sm_map s"
    "sm_prev_n (emit env k val i s) = sm_prev_n s"
    "pmap (live (emit env k val i s)) = (pmap (live s))(k \<mapsto> prev_set k val)"
    "sm_rows (emit env k val i s) = sm_rows s @ (if idle_since val p then [] else [mk_row env k val p])"
    by (simp_all add: eq rows) (simp_all add: s1_def)
qed

text \<open>A visit of a new process outside priming: its entry is added from zero, and compared.\<close>

lemma visit_new:
  assumes ok: "prev_ok s" and val: "map_lookup (se_ops env) (sm_map s) k = Some val" "\<not> reapable env k val"
    and new: "prev_find k s = None" and lt: "sm_prev_n s < MAX_ROWS" "length (sm_rows s) < se_max_rows env"
    and priming: "\<not> se_priming env"
  shows "prev_ok (visit env k s) \<and> sm_map (visit env k s) = sm_map s \<and>
    pmap (live (visit env k s)) = (pmap (live s))(k \<mapsto> prev_set k val) \<and>
    sm_rows (visit env k s) = sm_rows s @ row_for env None k val \<and>
    sm_prev_n (visit env k s) = Suc (sm_prev_n s)"
proof -
  define z where "z = \<lparr>pv_pid = k, pv_tx = 0, pv_rx = 0, pv_retrans = 0, pv_seen = True\<rparr>"
  define s1 where "s1 = s\<lparr>sm_prev := (sm_prev s)[sm_prev_n s := z], sm_prev_n := Suc (sm_prev_n s)\<rparr>"
  have eq: "visit env k s = emit env k val (sm_prev_n s) s1"
    using val new lt priming by (simp add: visit_def Let_def s1_def z_def)
  have none: "pmap (live s) k = None"
    using new by (simp add: prev_find_live pmap_find_None)
  have z: "pv_pid z = k" "baseline env None k val = z"
    by (simp_all add: z_def baseline_def priming)
  have ok1: "prev_ok s1" and live1: "live s1 = live s @ [z]"
    using prev_ok_append [OF ok lt(1), of z] live_append [OF ok lt(1), of z] none z by (simp_all add: s1_def)
  have len: "length (live s) = sm_prev_n s"
    using ok by (simp add: live_def prev_ok_def)
  have idx: "first_index (\<lambda>p. pv_pid p = k) (live s1) = Some (sm_prev_n s)" and at: "live s1 ! sm_prev_n s = z"
    using new z len by (simp_all add: live1 first_index_snoc prev_find_live nth_append)
  have "length (sm_rows s1) < se_max_rows env" "sm_map s1 = sm_map s" "sm_rows s1 = sm_rows s"
    "sm_prev_n s1 = Suc (sm_prev_n s)"
    using lt(2) by (simp_all add: s1_def)
  with emit_row [OF ok1 idx, of env val] pmap_append [of "live s" z] none z at show ?thesis
    unfolding eq by (simp add: live1 row_for_def)
qed

text \<open>A visit of a living row, when neither table is full.\<close>

lemma visit_row:
  assumes ok: "prev_ok s" and val: "map_lookup (se_ops env) (sm_map s) k = Some val"
    and alive: "\<not> reapable env k val"
    and room: "pmap (live s) k = None \<Longrightarrow> sm_prev_n s < MAX_ROWS" "length (sm_rows s) < se_max_rows env"
  shows "prev_ok (visit env k s) \<and> sm_map (visit env k s) = sm_map s \<and>
    pmap (live (visit env k s)) = (pmap (live s))(k \<mapsto> prev_set k val) \<and>
    sm_rows (visit env k s) = sm_rows s @ row_for env (pmap (live s) k) k val \<and>
    sm_prev_n (visit env k s) = sm_prev_n s + (if pmap (live s) k = None then 1 else 0)"
proof (cases "prev_find k s")
  case (Some i)
  then have i: "first_index (\<lambda>p. pv_pid p = k) (live s) = Some i"
    by (simp add: prev_find_live)
  have "visit env k s = emit env k val i s"
    using val alive Some by (simp add: visit_def)
  with emit_row [OF ok i room(2), of val] pmap_find [OF i] show ?thesis
    by (simp add: row_for_def baseline_def)
next
  case None
  then have new: "pmap (live s) k = None"
    by (simp add: prev_find_live pmap_find_None)
  note lt = room(1) [OF new]
  show ?thesis
  proof (cases "se_priming env")
    case True
    then have "visit env k s =
        s\<lparr>sm_prev := (sm_prev s)[sm_prev_n s := prev_set k val], sm_prev_n := Suc (sm_prev_n s)\<rparr>"
      using val alive None lt by (simp add: visit_def Let_def)
    moreover have "pv_pid (prev_set k val) = k" by (simp add: prev_set_def)
    ultimately show ?thesis
      using True new prev_ok_append [OF ok lt, of "prev_set k val"] live_append [OF ok lt, of "prev_set k val"]
        pmap_append [of "live s" "prev_set k val"]
      by (simp add: row_for_def baseline_def)
  qed (use visit_new [OF ok val alive None lt room(2)] new in simp)
qed

text \<open>A visit of a row that is settled, already compared in this pass, changes nothing.\<close>

definition settled :: "('m, 'd) sample_env \<Rightarrow> ('m, 'd) sampler \<Rightarrow> u32 \<Rightarrow> bool" where
  "settled env s k \<longleftrightarrow>
     (\<exists>val. map_lookup (se_ops env) (sm_map s) k = Some val \<and> \<not> reapable env k val \<and>
            pmap (live s) k = Some (prev_set k val))"

lemma visit_settled:
  assumes "prev_ok s" "settled env s k"
  shows "visit env k s = s"
proof -
  from assms(2) obtain val where val: "map_lookup (se_ops env) (sm_map s) k = Some val"
    "\<not> reapable env k val" "pmap (live s) k = Some (prev_set k val)"
    by (auto simp: settled_def)
  then obtain i where i: "first_index (\<lambda>p. pv_pid p = k) (live s) = Some i"
    by (metis not_None_eq pmap_find_None)
  then have "live s ! i = prev_set k val" "i < length (live s)"
    using pmap_find [OF i] val(3) first_index_SomeD [OF i] by auto
  then have nth: "sm_prev s ! i = prev_set k val"
    by (simp add: live_def)
  then have "(sm_prev s)[i := prev_set k val] = sm_prev s"
    by (metis list_update_id)
  moreover have "(prev_set k val)\<lparr>pv_tx := tx_bytes val, pv_rx := rx_bytes val,
      pv_retrans := retrans_pkts val, pv_seen := True\<rparr> = prev_set k val"
    by (simp add: prev_set_def)
  ultimately have "emit env k val i s = s"
    by (simp add: emit_def nth Let_def)
  with val i show ?thesis
    by (simp add: visit_def prev_find_live)
qed

section \<open>The walk\<close>

text \<open>
  The contract of the walk: the statistics map can be iterated. Its lemmas relate the walk,
  restarts included, to one pass over the keys the map had at the start.
\<close>

locale sampled_map =
  bpf_iter "se_ops env" "se_next env" keys wf_map
  for env :: "('m, 'd) sample_env" and keys :: "'m \<Rightarrow> u32 list" and wf_map :: "'m \<Rightarrow> bool"
begin

abbreviation "look s \<equiv> map_lookup (se_ops env) (sm_map s)"

lemma walk_step:
  assumes "wf_map (sm_map s)" "keys (sm_map s) = ks1 @ ks2" "at_pos ks1 ks2 key"
  shows "walk env (Suc fuel) key s =
    (case ks2 of [] \<Rightarrow> Some s | x # _ \<Rightarrow> walk env fuel x (visit env x s))"
  using assms next_at_pos [of ks1 ks2 key] iter_distinct [OF assms(1)]
  by (simp add: iter_next split: list.splits)

text \<open>Walking again over settled rows costs iterations and nothing else.\<close>

lemma walk_settled:
  assumes "wf_map (sm_map s)" "prev_ok s" "keys (sm_map s) = ks1 @ ks2 @ ks3"
    "at_pos ks1 (ks2 @ ks3) key" "\<forall>k \<in> set ks2. settled env s k"
  shows "walk env (length ks2 + fuel) key s =
    walk env fuel (if ks2 = [] then key else last ks2) s"
  using assms(3-5)
proof (induction ks2 arbitrary: ks1 key)
  case (Cons x xs)
  have "walk env (length (x # xs) + fuel) key s = walk env (length xs + fuel) x s"
    using walk_step [OF assms(1), of ks1 "x # xs @ ks3" key "length xs + fuel"] Cons.prems
      visit_settled [OF assms(2), of env x] by simp
  also have "\<dots> = walk env fuel (if xs = [] then x else last xs) s"
    using Cons.prems by (intro Cons.IH [of "ks1 @ [x]"]) (auto simp: at_pos_def)
  finally show ?case by simp
qed simp

text \<open>What one pass makes of a row.\<close>

definition "reaped s k \<longleftrightarrow> (\<exists>val. look s k = Some val \<and> reapable env k val)"

definition "row_out s k =
  (case look s k of None \<Rightarrow> [] | Some val \<Rightarrow>
     if reapable env k val then [] else row_for env (pmap (live s) k) k val)"

definition "pass_post s ks s' \<longleftrightarrow>
  prev_ok s' \<and> wf_map (sm_map s') \<and>
  sm_rows s' = sm_rows s @ concat (map (row_out s) ks) \<and>
  (\<forall>k. look s' k = (if k \<in> set ks \<and> reaped s k then None else look s k)) \<and>
  (\<forall>k. pmap (live s') k =
     (if k \<in> set ks \<and> \<not> reaped s k then map_option (prev_set k) (look s k) else pmap (live s) k))"

definition "room s ks \<longleftrightarrow>
  sm_prev_n s + length (filter (\<lambda>k. pmap (live s) k = None) ks) \<le> MAX_ROWS \<and>
  length (sm_rows s) + length ks \<le> se_max_rows env"

lemma reap_step:
  assumes "wf_map (sm_map s)" "prev_ok s" "look s x = Some val" "reapable env x val"
  defines "s1 \<equiv> visit env x s"
  shows "wf_map (sm_map s1)" "prev_ok s1" "keys (sm_map s1) = removeAll x (keys (sm_map s))"
    "look s1 = (look s)(x := None)" "live s1 = live s" "sm_rows s1 = sm_rows s" "sm_prev_n s1 = sm_prev_n s"
  using assms
  by (simp_all add: s1_def visit_def iter_delete_wf iter_delete hash_delete prev_ok_def live_def)

lemma row_step:
  assumes "wf_map (sm_map s)" "prev_ok s" "look s x = Some val" "\<not> reapable env x val" "room s (x # xs)"
  defines "s1 \<equiv> visit env x s"
  shows "prev_ok s1" "sm_map s1 = sm_map s" "pmap (live s1) = (pmap (live s))(x \<mapsto> prev_set x val)"
    "sm_rows s1 = sm_rows s @ row_out s x" "x \<notin> set xs \<Longrightarrow> room s1 xs"
proof -
  have "pmap (live s) x = None \<Longrightarrow> sm_prev_n s < MAX_ROWS" "length (sm_rows s) < se_max_rows env"
    using assms(5) by (auto simp: room_def)
  note v = visit_row [OF assms(2,3,4) this, folded s1_def]
  then show "prev_ok s1" "sm_map s1 = sm_map s" "pmap (live s1) = (pmap (live s))(x \<mapsto> prev_set x val)"
    "sm_rows s1 = sm_rows s @ row_out s x"
    using assms(3,4) by (simp_all add: row_out_def)
  assume "x \<notin> set xs"
  then have "filter (\<lambda>k. pmap (live s1) k = None) xs = filter (\<lambda>k. pmap (live s) k = None) xs"
    using v by (intro filter_cong) auto
  moreover have "length (row_for env (pmap (live s) x) x val) \<le> 1"
    by (simp add: row_for_def)
  ultimately show "room s1 xs"
    using v assms(5) by (auto simp: room_def split: if_splits)
qed

lemma pass_post_Cons:
  assumes "x \<notin> set xs" "pass_post s1 xs s'" "look s x = Some val"
    and same: "\<And>k. k \<noteq> x \<Longrightarrow> look s1 k = look s k" "\<And>k. k \<noteq> x \<Longrightarrow> pmap (live s1) k = pmap (live s) k"
    and x: "sm_rows s1 = sm_rows s @ row_out s x"
      "look s1 x = (if reapable env x val then None else Some val)"
      "pmap (live s1) x = (if reapable env x val then pmap (live s) x else Some (prev_set x val))"
  shows "pass_post s (x # xs) s'"
proof -
  have other: "row_out s1 k = row_out s k" "reaped s1 k = reaped s k" if "k \<noteq> x" for k
    using that same by (simp_all add: row_out_def reaped_def split: option.split)
  have rx: "reaped s x = reapable env x val"
    using assms(3) by (simp add: reaped_def)
  note post = assms(2) [unfolded pass_post_def]
  have "concat (map (row_out s1) xs) = concat (map (row_out s) xs)"
    using assms(1) by (intro arg_cong [where f = concat] map_cong refl) (metis other(1))
  then have "sm_rows s' = sm_rows s @ concat (map (row_out s) (x # xs))"
    using post x(1) by simp
  moreover have "look s' k = (if k \<in> set (x # xs) \<and> reaped s k then None else look s k)" for k
    using post other same x(2) rx assms(1,3) by (cases "k = x") simp_all
  moreover have "pmap (live s') k =
      (if k \<in> set (x # xs) \<and> \<not> reaped s k then map_option (prev_set k) (look s k) else pmap (live s) k)" for k
    using post other same x(3) rx assms(1,3) by (cases "k = x") simp_all
  ultimately show ?thesis
    using post unfolding pass_post_def by blast
qed

text \<open>
  A reaped row is gone, so the walk starts over, passes the settled rows again and is back where it was.
\<close>

lemma walk_restart:
  assumes "wf_map (sm_map s)" "prev_ok s" "keys (sm_map s) = ks1 @ xs" "x \<notin> set ks1" "x \<notin> set xs"
    and "\<forall>k \<in> set ks1. settled env s k"
  shows "walk env (length ks1 + f) x s = walk env f (if ks1 = [] then x else last ks1) s"
    and "at_pos ks1 xs (if ks1 = [] then x else last ks1)"
proof -
  show "walk env (length ks1 + f) x s = walk env f (if ks1 = [] then x else last ks1) s"
    using assms(3-) by (intro walk_settled [OF assms(1,2), of "[]" ks1 xs]) (auto simp: at_pos_def)
qed (use assms(5) in \<open>simp add: at_pos_def\<close>)

lemma walk_pass:
  assumes "wf_map (sm_map s)" "prev_ok s" "keys (sm_map s) = ks1 @ ks2" "at_pos ks1 ks2 key"
    "\<forall>k \<in> set ks1. settled env s k" "room s ks2"
    "length ks2 * (length ks1 + length ks2 + 1) < fuel"
  shows "\<exists>s'. walk env fuel key s = Some s' \<and> pass_post s ks2 s'"
  using assms
proof (induction ks2 arbitrary: ks1 key s fuel)
  case Nil
  then obtain f where "fuel = Suc f" by (cases fuel) auto
  with Nil walk_step [OF Nil(1,3,4), of f] show ?case
    by (simp add: pass_post_def)
next
  case (Cons x xs)
  then obtain f where f: "fuel = Suc f" by (cases fuel) auto
  have dist: "x \<notin> set ks1" "x \<notin> set xs"
    using iter_distinct [OF Cons.prems(1)] Cons.prems(3) by auto
  define s1 where "s1 = visit env x s"
  have walk: "walk env fuel key s = walk env f x s1"
    using walk_step [OF Cons.prems(1,3,4), of f] by (simp add: f s1_def)
  obtain val where val: "look s x = Some val"
    using iter_keys [OF Cons.prems(1), of x] Cons.prems(3) by auto
  show ?case
  proof (cases "reapable env x val")
    case True
    note r = reap_step [OF Cons.prems(1,2) val True, folded s1_def]
    have keys1: "keys (sm_map s1) = ks1 @ xs"
      using r(3) Cons.prems(3) dist by (simp add: removeAll_id)
    have set1: "\<forall>k \<in> set ks1. settled env s1 k"
      using Cons.prems(5) dist(1) r(4,5) by (auto simp: settled_def)
    obtain f' where f': "f = length ks1 + f'" "length xs * (length ks1 + length xs + 1) < f'"
      using Cons.prems(7) f by (auto simp: algebra_simps intro!: that [of "f - length ks1"])
    note restart = walk_restart [OF r(1,2) keys1 dist set1]
    have "room s1 xs"
      using Cons.prems(6) r by (auto simp: room_def split: if_splits)
    with Cons.IH [OF r(1,2) keys1 restart(2) set1 _ f'(2)] restart(1)
    obtain s' where "walk env f x s1 = Some s'" "pass_post s1 xs s'"
      unfolding f'(1) by metis
    moreover have "row_out s x = []"
      using val True by (simp add: row_out_def)
    ultimately show ?thesis
      using walk pass_post_Cons [OF dist(2) _ val, of s1 s'] r True by auto
  next
    case False
    note v = row_step [OF Cons.prems(1,2) val False Cons.prems(6), folded s1_def]
    have keys1: "keys (sm_map s1) = (ks1 @ [x]) @ xs"
      using v(2) Cons.prems(3) by simp
    have set1: "\<forall>k \<in> set (ks1 @ [x]). settled env s1 k"
      using Cons.prems(5) dist(1) v(2,3) val False by (auto simp: settled_def)
    have "length xs * (length (ks1 @ [x]) + length xs + 1) < f"
      using Cons.prems(7) f by (simp add: algebra_simps)
    then obtain s' where "walk env f x s1 = Some s'" "pass_post s1 xs s'"
      using Cons.IH [OF _ v(1) keys1 _ set1 v(5) [OF dist(2)], of x f] Cons.prems(1) v(2)
      by (auto simp: at_pos_def)
    then show ?thesis
      using walk pass_post_Cons [OF dist(2) _ val, of s1 s'] v val False by auto
  qed
qed

lemma walk_all:
  assumes "wf_map (sm_map s)" "prev_ok s" "look s 0 = None" "room s (keys (sm_map s))"
    "length (keys (sm_map s)) * (length (keys (sm_map s)) + 1) < fuel"
  shows "\<exists>s'. walk env fuel 0 s = Some s' \<and> pass_post s (keys (sm_map s)) s'"
  using assms iter_keys [OF assms(1), of 0]
  by (intro walk_pass [where ?ks1.0 = "[]"]) (auto simp: at_pos_def)

end

section \<open>Before and after the walk\<close>

lemma clear_seen_live: "prev_ok s \<Longrightarrow> live (clear_seen s) = map (pv_seen_update (\<lambda>_. False)) (live s)"
  by (simp add: live_def clear_seen_def prev_ok_def)

lemma clear_seen_ok: "prev_ok s \<Longrightarrow> prev_ok (clear_seen s)"
  using clear_seen_live [of s] by (simp add: prev_ok_def comp_def) (simp add: clear_seen_def)

lemma pmap_unseen: "pmap (map (pv_seen_update f) ps) k = map_option (pv_seen_update f) (pmap ps k)"
  by (induction ps) (simp_all add: pmap_def)

lemma clear_seen_pmap:
  "prev_ok s \<Longrightarrow> pmap (live (clear_seen s)) k = map_option (pv_seen_update (\<lambda>_. False)) (pmap (live s) k)"
  by (simp add: clear_seen_live pmap_unseen)

lemma row_for_unseen: "row_for env (map_option (pv_seen_update f) p) k val = row_for env p k val"
  by (cases p) (simp_all add: row_for_def baseline_def idle_since_def mk_row_def)

definition sample_start :: "('m, 'd) sampler \<Rightarrow> ('m, 'd) sampler" where
  "sample_start s = clear_seen (s\<lparr>sm_rows := []\<rparr>)"

lemma sample_start_facts:
  assumes "prev_ok s"
  shows "prev_ok (sample_start s)" "sm_map (sample_start s) = sm_map s" "sm_rows (sample_start s) = []"
    "sm_prev_n (sample_start s) = sm_prev_n s"
    "pmap (live (sample_start s)) k = map_option (pv_seen_update (\<lambda>_. False)) (pmap (live s) k)"
    "row_for env (pmap (live (sample_start s)) k) k val = row_for env (pmap (live s) k) k val"
proof -
  have ok: "prev_ok (s\<lparr>sm_rows := []\<rparr>)" "live (s\<lparr>sm_rows := []\<rparr>) = live s"
    using assms by (simp_all add: prev_ok_def live_def)
  show "prev_ok (sample_start s)" "sm_map (sample_start s) = sm_map s" "sm_rows (sample_start s) = []"
    "sm_prev_n (sample_start s) = sm_prev_n s"
    using clear_seen_ok [OF ok(1)] by (simp_all add: sample_start_def) (simp_all add: clear_seen_def)
  show p: "pmap (live (sample_start s)) k = map_option (pv_seen_update (\<lambda>_. False)) (pmap (live s) k)"
    using clear_seen_pmap [OF ok(1)] ok(2) by (simp add: sample_start_def)
  show "row_for env (pmap (live (sample_start s)) k) k val = row_for env (pmap (live s) k) k val"
    by (simp add: p row_for_unseen)
qed

lemma prev_compact_live:
  assumes "prev_ok s"
  shows "live (prev_compact s) = filter pv_seen (live s)" "prev_ok (prev_compact s)"
    "sm_map (prev_compact s) = sm_map s" "sm_rows (prev_compact s) = sm_rows s"
proof -
  obtain w a where c: "compact_loop pv_seen (sm_prev_n s) 0 0 (sm_prev s) = (w, a)" by force
  have "sm_prev_n s \<le> length (sm_prev s)"
    using assms by (simp add: prev_ok_def)
  note cf = compact_filter [OF this c]
  then show live: "live (prev_compact s) = filter pv_seen (live s)"
    by (simp add: prev_compact_def c live_def)
  show "prev_ok (prev_compact s)"
    using assms live cf by (simp add: prev_ok_def distinct_map_filter) (simp add: prev_compact_def c)
  show "sm_map (prev_compact s) = sm_map s" "sm_rows (prev_compact s) = sm_rows s"
    by (simp_all add: prev_compact_def c)
qed

lemma mset_insert_cmp: "mset (insert_cmp cmp x ys) = add_mset x (mset ys)"
  by (induction ys) auto

lemma mset_qsort: "mset (qsort cmp xs) = mset xs"
  by (induction xs) (simp_all add: qsort_def mset_insert_cmp)

section \<open>The order of the rows\<close>

definition traffic :: "real row \<Rightarrow> real" where
  "traffic r = rw_tx_bps r + rw_rx_bps r"

definition row_le :: "real row \<Rightarrow> real row \<Rightarrow> bool" where
  "row_le x y \<longleftrightarrow> traffic y < traffic x \<or> traffic x = traffic y \<and> rw_pid x \<le> rw_pid y"

lemma by_traffic_le: "by_traffic real_fp x y \<le> 0 \<longleftrightarrow> row_le x y"
  by (auto simp: by_traffic_def row_le_def traffic_def real_fp_def Let_def)

lemma row_le_trans: "row_le x y \<Longrightarrow> row_le y z \<Longrightarrow> row_le x z"
  by (auto simp: row_le_def)

lemma row_le_total: "row_le x y \<or> row_le y x"
  by (auto simp: row_le_def)

lemma sorted_insert_cmp:
  assumes "\<And>x y. cmp x y \<le> 0 \<longleftrightarrow> le x y" "\<And>x y z. le x y \<Longrightarrow> le y z \<Longrightarrow> le x z"
    "\<And>x y. le x y \<or> le y x" "sorted_wrt le ys"
  shows "sorted_wrt le (insert_cmp cmp x ys)"
  using assms(4)
proof (induction ys)
  case (Cons y ys)
  have "set (insert_cmp cmp x ys) = insert x (set ys)"
    using mset_insert_cmp [of cmp x ys] by (metis set_mset_add_mset_insert set_mset_mset)
  with Cons assms(1-3) show ?case by (auto intro: assms(2)) blast
qed simp

lemma sorted_qsort: "sorted_wrt row_le (qsort (by_traffic real_fp) xs)"
  by (induction xs)
     (auto simp: qsort_def intro!: sorted_insert_cmp by_traffic_le row_le_total intro: row_le_trans)

section \<open>One process through one sample\<close>

lemma row_for_pid: "r \<in> set (row_for env p k val) \<Longrightarrow> rw_pid r = k"
  by (auto simp: row_for_def mk_row_def split: if_splits)

lemma filter_concat_key:
  assumes "distinct ks" "k \<in> set ks" "\<And>k' r. r \<in> set (f k') \<Longrightarrow> g r = k'"
  shows "filter (\<lambda>r. g r = k) (concat (map f ks)) = f k"
  using assms(1,2)
proof (induction ks)
  case (Cons x xs)
  have "filter (\<lambda>r. g r = k) (f y) = (if y = k then f y else [])" for y
    using assms(3) [of _ y] by (auto simp: filter_id_conv filter_empty_conv)
  moreover have "filter (\<lambda>r. g r = k) (concat (map f xs)) = []" if "k \<notin> set xs"
    using assms(3) that by (auto simp: filter_empty_conv)
  ultimately show ?case
    using Cons by (auto simp: filter_concat)
qed simp

lemma mset_single_eq: "mset xs = mset ys \<Longrightarrow> length ys \<le> 1 \<Longrightarrow> xs = ys"
  by (cases ys) auto

section \<open>One call of sample\<close>

text \<open>Compaction keeps the entries of the rows just seen.\<close>

lemma prev_compact_seen:
  assumes "prev_ok s"
    and "pmap (live s) k = (case v of Some val \<Rightarrow> Some (prev_set k val) | None \<Rightarrow> map_option (pv_seen_update (\<lambda>_. False)) p)"
  shows "pmap (live (prev_compact s)) k = map_option (prev_set k) v"
proof -
  have "distinct (map pv_pid (live s))"
    using assms(1) by (simp add: prev_ok_def)
  from pmap_filter [OF this] assms(2) prev_compact_live(1) [OF assms(1)] show ?thesis
    by (auto simp: prev_set_def split: option.splits)
qed

lemma sample_facts:
  assumes iter: "sampled_map env keys wf_map"
    and map: "wf_map (sm_map s)" "map_lookup (se_ops env) (sm_map s) 0 = None"
    and prev: "prev_ok s"
    and room: "sm_prev_n s + length (filter (\<lambda>k. pmap (live s) k = None) (keys (sm_map s))) \<le> MAX_ROWS"
      "length (keys (sm_map s)) \<le> se_max_rows env"
    and fuel: "length (keys (sm_map s)) * (length (keys (sm_map s)) + 1) < fuel"
  shows "\<exists>s'. sample env fuel s = Some s' \<and> prev_ok s' \<and> wf_map (sm_map s') \<and>
    (\<forall>k. map_lookup (se_ops env) (sm_map s') k =
       (case map_lookup (se_ops env) (sm_map s) k of
          None \<Rightarrow> None | Some val \<Rightarrow> if reapable env k val then None else Some val)) \<and>
    (\<forall>k. pmap (live s') k = map_option (prev_set k) (map_lookup (se_ops env) (sm_map s') k)) \<and>
    mset (sm_rows s') =
      mset (concat (map (\<lambda>k. case map_lookup (se_ops env) (sm_map s) k of
          None \<Rightarrow> [] | Some val \<Rightarrow> if reapable env k val then [] else row_for env (pmap (live s) k) k val)
        (keys (sm_map s))))"
proof -
  define s0 where "s0 = sample_start s"
  note s0 = sample_start_facts [OF prev, folded s0_def]
  have "sampled_map.room env s0 (keys (sm_map s0))"
    using room s0 by (simp add: sampled_map.room_def [OF iter])
  with sampled_map.walk_all [OF iter, of s0 fuel] map fuel s0 obtain s1 where
    s1: "walk env fuel 0 s0 = Some s1" "sampled_map.pass_post env wf_map s0 (keys (sm_map s)) s1"
    by auto
  note post = s1(2) [unfolded sampled_map.pass_post_def [OF iter] sampled_map.reaped_def [OF iter]
    sampled_map.row_out_def [OF iter]]
  note c = prev_compact_live [OF conjunct1 [OF post]]
  have keys: "k \<in> set (keys (sm_map s)) \<longleftrightarrow> map_lookup (se_ops env) (sm_map s) k \<noteq> None" for k
    using bpf_iter.iter_keys [OF sampled_map.axioms [OF iter] map(1)] .
  define s' where "s' = (prev_compact s1)\<lparr>sm_rows := qsort (by_traffic (se_fp env)) (sm_rows (prev_compact s1))\<rparr>"
  have same: "live s' = live (prev_compact s1)" "prev_ok s'" "sm_map s' = sm_map s1"
    "mset (sm_rows s') = mset (sm_rows s1)"
    using c by (simp_all add: s'_def live_def prev_ok_def mset_qsort)
  have "sample env fuel s = Some s'"
    by (simp add: sample_def s1(1) s'_def Let_def flip: sample_start_def s0_def)
  moreover have look: "map_lookup (se_ops env) (sm_map s') k =
      (case map_lookup (se_ops env) (sm_map s) k of
         None \<Rightarrow> None | Some val \<Rightarrow> if reapable env k val then None else Some val)" for k
    using post keys by (auto simp: same s0(2) split: option.split)
  moreover have "pmap (live s') k = map_option (prev_set k) (map_lookup (se_ops env) (sm_map s') k)" for k
    unfolding same(1) using post keys s0(5) [of k] look [of k]
    by (intro prev_compact_seen [where p = "pmap (live s) k"]) (auto simp: s0(2) split: option.splits)
  moreover have "mset (sm_rows s') =
      mset (concat (map (\<lambda>k. case map_lookup (se_ops env) (sm_map s) k of
          None \<Rightarrow> [] | Some val \<Rightarrow> if reapable env k val then [] else row_for env (pmap (live s) k) k val)
        (keys (sm_map s))))"
    using post by (simp add: same s0(2,3,6) cong: option.case_cong if_cong)
  ultimately show ?thesis
    using post same by auto
qed

section \<open>A sample system\<close>

text \<open>Any call whose map is the executable hash map.\<close>

definition on_hash ::
  "((u32, proc_stats) amap, 'd) sample_env \<Rightarrow> ((u32, proc_stats) amap, 'd) sample_env" where
  "on_hash env = env\<lparr>se_ops := hash_ops, se_next := (\<lambda>m. next_in (map fst (am_entries m)))\<rparr>"

interpretation sample_model: sampled_map "on_hash env" "\<lambda>m. map fst (am_entries m)"
  "\<lambda>m. distinct (map fst (am_entries m))"
  unfolding sampled_map_def on_hash_def by (simp add: iter_model.bpf_iter_axioms)

definition demo_env :: "((u32, proc_stats) amap, real) sample_env" where
  "demo_env = on_hash \<lparr>se_ops = hash_ops, se_next = (\<lambda>m k. None), se_alive = (\<lambda>p. p = 7), se_now = 100,
     se_fp = real_fp, se_elapsed = 2, se_max_rows = MAX_ROWS, se_priming = False\<rparr>"

definition demo_row :: proc_stats where
  "demo_row = \<lparr>tx_bytes = 100, rx_bytes = 0, tx_calls = 1, rx_calls = 0, retrans_pkts = 0, last_ns = 5,
     ps_comm = replicate 16 0\<rparr>"

definition demo_prev :: "prev_entry list" where
  "demo_prev = prev_set 7 demo_row # replicate 4095 (prev_set 0 demo_row)"

definition demo_kernel :: "((u32, proc_stats) amap, (u64, u32) amap) nettop" where
  "demo_kernel = \<lparr>proc_stats_map = \<lparr>am_max = 4096, am_entries = [(7, demo_row)]\<rparr>, sock_owner = amap_empty 4\<rparr>"

definition demo_sampler :: "((u32, proc_stats) amap, real) sampler" where
  "demo_sampler = \<lparr>sm_map = proc_stats_map (net_run demo_ops demo_events demo_kernel),
     sm_prev = demo_prev, sm_prev_n = 1, sm_rows = []\<rparr>"

lemma demo_env_iter:
  "sampled_map demo_env (\<lambda>m. map fst (am_entries m)) (\<lambda>m. distinct (map fst (am_entries m)))"
  unfolding demo_env_def by (rule sample_model.sampled_map_axioms)

lemma demo_sampler_facts:
  "map fst (am_entries (sm_map demo_sampler)) = [7]" "live demo_sampler = [prev_set 7 demo_row]"
  "prev_ok demo_sampler" "sm_prev_n demo_sampler = 1" "pmap (live demo_sampler) 7 = Some (prev_set 7 demo_row)"
  "map_lookup (se_ops demo_env) (sm_map demo_sampler) 0 = None" "se_ops demo_env = st_ops demo_ops"
  "se_alive demo_env 7" "se_max_rows demo_env = MAX_ROWS" "se_fp demo_env = real_fp" "se_elapsed demo_env = 2"
  by (simp_all add: demo_sampler_def demo_prev_def live_def prev_ok_def pmap_def demo_kernel_def
      demo_net_defs demo_env_def on_hash_def net_run_def MAX_ROWS_def) (simp_all add: prev_set_def)

text \<open>
  What reaping is for, over the integers: the process cannot be seen and its row was last touched
  more than a minute before now. A row touched after the sample's clock reading (the other CPUs go
  on) is not idle, whatever the unsigned difference would be.
\<close>

definition gone :: "('m, 'd) sample_env \<Rightarrow> u32 \<Rightarrow> proc_stats \<Rightarrow> bool" where
  "gone env key val \<longleftrightarrow> \<not> se_alive env key \<and> unat (last_ns val) + 60 * 10 ^ 9 < unat (se_now env)"

lemma reapable_iff_gone: "reapable env key val \<longleftrightarrow> gone env key val"
  by (auto simp: reapable_def gone_def REAP_IDLE_NS_def word_less_nat_alt unat_sub_if')

section \<open>Properties\<close>

text \<open>
  C5. One call of \<open>sample\<close> on a quiet map. The walk ends (in at most n(n+1)+1 steps for n keys,
  restarts after a reaped key included), and, when the tables have room:
  \<^item> the map loses exactly the rows of processes that cannot be seen and were idle for 60 s;
  \<^item> the previous-sample table afterwards holds exactly the remaining processes, with their
    current totals;
  \<^item> the rows listed are, in some order, one for each remaining process whose counters moved
    against its baseline (the last sample; in the priming pass the current totals; zero for a
    process that appeared since), and none twice.
\<close>

theorem nettop_sample_correct:
  assumes iter: "sampled_map env keys wf_map"
    and map: "wf_map (sm_map s)" "map_lookup (se_ops env) (sm_map s) 0 = None"
    and prev: "prev_ok s"
    and room: "sm_prev_n s + length (filter (\<lambda>k. pmap (live s) k = None) (keys (sm_map s))) \<le> MAX_ROWS"
      "length (keys (sm_map s)) \<le> se_max_rows env"
    and fuel: "length (keys (sm_map s)) * (length (keys (sm_map s)) + 1) < fuel"
  shows "\<exists>s'. sample env fuel s = Some s' \<and> prev_ok s' \<and> wf_map (sm_map s') \<and>
    (\<forall>k. map_lookup (se_ops env) (sm_map s') k =
       (case map_lookup (se_ops env) (sm_map s) k of
          None \<Rightarrow> None | Some val \<Rightarrow> if gone env k val then None else Some val)) \<and>
    (\<forall>k. pmap (live s') k = map_option (prev_set k) (map_lookup (se_ops env) (sm_map s') k)) \<and>
    mset (sm_rows s') =
      mset (concat (map (\<lambda>k. case map_lookup (se_ops env) (sm_map s) k of
          None \<Rightarrow> [] | Some val \<Rightarrow> if gone env k val then [] else row_for env (pmap (live s) k) k val)
        (keys (sm_map s))))"
  using sample_facts [OF assms] unfolding reapable_iff_gone by blast

theorem nettop_sample_correct_witness:
  "\<exists>s'. sample demo_env 3 demo_sampler = Some s' \<and> prev_ok s' \<and>
     distinct (map fst (am_entries (sm_map s')))"
proof -
  note d = demo_sampler_facts
  have "\<exists>s'. sample demo_env 3 demo_sampler = Some s' \<and> prev_ok s' \<and> distinct (map fst (am_entries (sm_map s'))) \<and>
    (\<forall>k. map_lookup (se_ops demo_env) (sm_map s') k =
       (case map_lookup (se_ops demo_env) (sm_map demo_sampler) k of
          None \<Rightarrow> None | Some val \<Rightarrow> if gone demo_env k val then None else Some val)) \<and>
    (\<forall>k. pmap (live s') k = map_option (prev_set k) (map_lookup (se_ops demo_env) (sm_map s') k)) \<and>
    mset (sm_rows s') = mset (concat (map (\<lambda>k. case map_lookup (se_ops demo_env) (sm_map demo_sampler) k of
        None \<Rightarrow> [] | Some val \<Rightarrow> if gone demo_env k val then []
          else row_for demo_env (pmap (live demo_sampler) k) k val) (map fst (am_entries (sm_map demo_sampler)))))"
    by (rule nettop_sample_correct [OF demo_env_iter])
       (use d in \<open>simp_all add: MAX_ROWS_def del: map_map\<close>)
  then show ?thesis by blast
qed

text \<open>
  The order of the display, in exact arithmetic: after \<open>sample\<close> the rows are sorted by total
  traffic, busiest first, and rows with equal traffic by pid.
\<close>

theorem nettop_rows_sorted:
  assumes "sample env fuel s = Some s'" "se_fp env = real_fp"
  shows "sorted_wrt (\<lambda>x y. rw_tx_bps y + rw_rx_bps y < rw_tx_bps x + rw_rx_bps x \<or>
      rw_tx_bps x + rw_rx_bps x = rw_tx_bps y + rw_rx_bps y \<and> rw_pid x \<le> rw_pid y) (sm_rows s')"
proof -
  obtain rows where "sm_rows s' = qsort (by_traffic real_fp) rows"
    using assms by (auto simp: sample_def Let_def split: option.splits)
  with sorted_qsort [of rows] show ?thesis
    by (simp add: row_le_def [abs_def] traffic_def)
qed

theorem nettop_rows_sorted_witness:
  "\<exists>s'. sample demo_env 3 demo_sampler = Some s' \<and>
     sorted_wrt (\<lambda>x y. rw_tx_bps y + rw_rx_bps y < rw_tx_bps x + rw_rx_bps x \<or>
       rw_tx_bps x + rw_rx_bps x = rw_tx_bps y + rw_rx_bps y \<and> rw_pid x \<le> rw_pid y) (sm_rows s')"
proof -
  note d = demo_sampler_facts
  have "\<exists>s'. sample demo_env 3 demo_sampler = Some s'"
    using sample_facts [OF demo_env_iter, of demo_sampler 3] d
    by (auto simp: MAX_ROWS_def simp del: map_map)
  then show ?thesis
    using nettop_rows_sorted [OF _ demo_sampler_facts(10)] by blast
qed

text \<open>
  \<open>fmt_rate\<close> keeps the value, in exact arithmetic: the printed number times 1024 to the
  power of the unit is the rate, the unit is one of the five, a number below the largest unit is
  below 1024, and a scaled number is at least one, so at most four digits stand before the point.
\<close>

theorem fmt_rate_exact:
  fixes bps :: real
  assumes "0 \<le> bps" "fmt_rate real_fp bps = (v, dec, c)"
  shows "\<exists>u \<le> 4. v * 1024 ^ u = bps \<and> c = ''BKMGT'' ! u \<and> dec = (u \<noteq> 0) \<and>
    (u < 4 \<longrightarrow> v < 1024) \<and> (u \<noteq> 0 \<longrightarrow> 1 \<le> v)"
proof -
  have loop: "v * 1024 ^ (u' - u) = b \<and> u \<le> u' \<and> u' \<le> u + n \<and> (u' < u + n \<longrightarrow> v < 1024) \<and>
      (u < u' \<longrightarrow> 1 \<le> v)"
    if "fmt_loop real_fp n u b = (v, u')" for n u u' and b v :: real
    using that
  proof (induction n arbitrary: u b)
    case (Suc n)
    show ?case
    proof (cases "1024 \<le> b")
      case True
      then have "fmt_loop real_fp n (Suc u) (b / 1024) = (v, u')"
        using Suc.prems by (simp add: real_fp_def)
      from Suc.IH [OF this] True have IH: "v * 1024 ^ (u' - Suc u) = b / 1024" "Suc u \<le> u'" "u' \<le> Suc u + n"
        "u' < Suc u + n \<longrightarrow> v < 1024" "Suc u < u' \<longrightarrow> 1 \<le> v" by auto
      then have "u' - u = Suc (u' - Suc u)" by simp
      moreover have "1 \<le> v"
        using IH True by (cases "u' = Suc u") auto
      ultimately show ?thesis
        using IH by simp
    qed (use Suc.prems in \<open>auto simp: real_fp_def\<close>)
  qed simp
  obtain u where "fmt_loop real_fp 4 0 bps = (v, u)" "dec = (u \<noteq> 0)" "c = ''BKMGT'' ! u"
    using assms(2) by (auto simp: fmt_rate_def split: prod.splits)
  with loop [of 4 0 bps v u] show ?thesis by auto
qed

theorem fmt_rate_exact_witness:
  "\<exists>u \<le> 4. (3 / 2 :: real) * 1024 ^ u = 1536 \<and> CHR ''K'' = ''BKMGT'' ! u"
proof -
  have "fmt_rate real_fp 1536 = (3 / 2, True, CHR ''K'')"
    by (simp add: fmt_rate_def real_fp_def numeral_eq_Suc)
  from fmt_rate_exact [OF _ this] show ?thesis by auto
qed

text \<open>
  \<open>attach_all\<close> fails only if no hook attaches: it warns about exactly the hooks that failed,
  in order, counts the others, and returns an error exactly if all seven failed.
\<close>

theorem attach_all_degrades:
  "attach_all ok =
     (filter (\<lambda>h. \<not> ok h) hook_names, length (filter ok hook_names),
      if filter ok hook_names = [] then -1 else 0)"
proof -
  have "attach_loop ok hs n = (filter (\<lambda>h. \<not> ok h) hs, n + length (filter ok hs))" for hs n
    by (induction ok hs n rule: attach_loop.induct) simp_all
  then show ?thesis
    by (simp add: attach_all_def)
qed

text \<open>
  C1. From the hooks to the display: let a process have a row, let the last sample have recorded
  its totals, and let any sequence of hook firings follow. If the process is alive, its counters
  did not wrap and it had traffic, then the next sample lists it exactly once, with the bytes it
  sent and received in between divided by the elapsed time as its rates, whatever the other
  processes did and whatever was reaped during the walk.
\<close>

theorem nettop_rate_end_to_end:
  assumes maps: "nettop_maps ops" and iter: "sampled_map env keys wf_map" and same: "se_ops env = st_ops ops"
    and row: "map_lookup (st_ops ops) (proc_stats_map st) pid = Some r"
    and base: "pmap (live s) pid = Some p" "pv_tx p = tx_bytes r" "pv_rx p = rx_bytes r"
    and now: "sm_map s = proc_stats_map (net_run ops evs st)"
    and alive: "se_alive env pid" "se_priming env = False"
    and sample: "wf_map (sm_map s)" "map_lookup (se_ops env) (sm_map s) 0 = None" "prev_ok s"
      "sm_prev_n s + length (filter (\<lambda>k. pmap (live s) k = None) (keys (sm_map s))) \<le> MAX_ROWS"
      "length (keys (sm_map s)) \<le> se_max_rows env"
      "length (keys (sm_map s)) * (length (keys (sm_map s)) + 1) < fuel"
    and sums: "tx = (\<Sum>c\<leftarrow>filter is_tx_charge (charges evs pid). charge_bytes c)"
      "rx = (\<Sum>c\<leftarrow>filter is_rx_charge (charges evs pid). charge_bytes c)"
    and moved: "tx \<noteq> 0 \<or> rx \<noteq> 0" and nowrap: "tx_bytes r \<le> tx_bytes r + tx" "rx_bytes r \<le> rx_bytes r + rx"
  shows "\<exists>s' q. sample env fuel s = Some s' \<and> filter (\<lambda>q. rw_pid q = pid) (sm_rows s') = [q] \<and>
    rw_tx_bps q = fp_div (se_fp env) (fp_of_u64 (se_fp env) tx) (se_elapsed env) \<and>
    rw_rx_bps q = fp_div (se_fp env) (fp_of_u64 (se_fp env) rx) (se_elapsed env)"
proof -
  obtain val where val: "map_lookup (se_ops env) (sm_map s) pid = Some val"
    "tx_bytes val = tx_bytes r + tx" "rx_bytes val = rx_bytes r + rx"
    using nettop_maps.row_grows [OF maps row, of evs] by (auto simp: same now sums)
  have "\<not> reapable env pid val" using alive by (simp add: reapable_def)
  moreover have "row_for env (Some p) pid val = [mk_row env pid val p]"
    using moved nowrap base val by (auto simp: row_for_def baseline_def idle_since_def up_by_def)
  moreover have "distinct (keys (sm_map s))" "pid \<in> set (keys (sm_map s))"
    using bpf_iter.iter_distinct [OF sampled_map.axioms [OF iter] sample(1)]
      bpf_iter.iter_keys [OF sampled_map.axioms [OF iter] sample(1)] val(1) by auto
  ultimately have one: "filter (\<lambda>q. rw_pid q = pid) (concat (map (\<lambda>k. case map_lookup (se_ops env) (sm_map s) k of
      None \<Rightarrow> [] | Some val \<Rightarrow> if reapable env k val then [] else row_for env (pmap (live s) k) k val)
      (keys (sm_map s)))) = [mk_row env pid val p]"
    using val(1) base(1)
    by (subst filter_concat_key) (auto dest: row_for_pid split: option.splits if_splits)
  obtain s' where s': "sample env fuel s = Some s'"
    "mset (sm_rows s') = mset (concat (map (\<lambda>k. case map_lookup (se_ops env) (sm_map s) k of
      None \<Rightarrow> [] | Some val \<Rightarrow> if reapable env k val then [] else row_for env (pmap (live s) k) k val)
      (keys (sm_map s))))"
    using sample_facts [OF iter sample] by blast
  from arg_cong [OF s'(2), of "filter_mset (\<lambda>q. rw_pid q = pid)"]
  have "filter (\<lambda>q. rw_pid q = pid) (sm_rows s') = [mk_row env pid val p]"
    by (intro mset_single_eq) (simp_all add: one flip: mset_filter)
  then show ?thesis
    using s'(1) base val nowrap by (auto simp: mk_row_def up_by_def)
qed

theorem nettop_rate_end_to_end_witness:
  "\<exists>s' q. sample demo_env 3 demo_sampler = Some s' \<and> filter (\<lambda>q. rw_pid q = 7) (sm_rows s') = [q] \<and>
     rw_tx_bps q = 60 \<and> rw_rx_bps q = 15"
proof -
  note d = demo_sampler_facts
  have maps: "nettop_maps demo_ops"
    unfolding demo_ops_def by (rule nettop_model.nettop_maps_axioms)
  have sums: "(120 :: u64) = (\<Sum>c\<leftarrow>filter is_tx_charge (charges demo_events 7). charge_bytes c)"
    "(30 :: u64) = (\<Sum>c\<leftarrow>filter is_rx_charge (charges demo_events 7). charge_bytes c)"
    by (simp_all add: charges_def demo_events_def map_filter_def charge_def ip_sock_def demo_sock_def
        AF_INET_def ex_bool_eq all_bool_eq charge_simps)
  have "\<exists>s' q. sample demo_env 3 demo_sampler = Some s' \<and> filter (\<lambda>q. rw_pid q = 7) (sm_rows s') = [q] \<and>
    rw_tx_bps q = fp_div (se_fp demo_env) (fp_of_u64 (se_fp demo_env) 120) (se_elapsed demo_env) \<and>
    rw_rx_bps q = fp_div (se_fp demo_env) (fp_of_u64 (se_fp demo_env) 30) (se_elapsed demo_env)"
    by (rule nettop_rate_end_to_end [OF maps demo_env_iter d(7) _ d(5) _ _ _ d(8) _ _ d(6) d(3) _ _ _ sums,
          where st = demo_kernel and r = demo_row])
       (use d in \<open>simp_all add: MAX_ROWS_def demo_row_def prev_set_def demo_sampler_def demo_kernel_def
          demo_ops_def hash_ops_def am_lookup_def demo_env_def on_hash_def del: map_map\<close>)
  then show ?thesis
    by (simp add: d(10,11)) (simp add: real_fp_def)
qed

end
