(* ===== verification/Nettop_Race.thy ===== *)
theory Nettop_Race
  imports Nettop_Kernel
begin

text \<open>
  27-nettop on several CPUs. \<open>account\<close> of \<open>nettop.bpf.c\<close> is not one step: between its lookup, its
  insertion, its second lookup and its three stores other CPUs run theirs, and the loader's
  sampling deletes rows. \<open>acct_micro\<close> is \<open>account\<close> cut at every access to shared memory, and
  \<open>race_step\<close> lets any CPU make its next move.

  The loader deletes a row when it cannot see the process and the row has been idle, which does not
  keep the process from running a hook at that moment. So a row can go while a CPU holds a pointer
  to its element: from then on the pointer names no row, and a store through it is lost. The
  kernel may use the freed element for the row of any other process, and then the store lands
  there: \<open>Reuse\<close> lets a dangling pointer become a pointer to any row of the map, which includes
  what the kernel's free list can do. The retransmission and close hooks are one step each; they
  change no counter these theorems are about.

  The theorems show that the steps of one CPU with nothing in between are \<open>account\<close>, and give an
  exact balance for every interleaving: a row holds what its process asked for since the row was
  last deleted, less what was dropped at the second lookup, plus what dangling pointers left
  there. Without a reaping and with room in the map nothing is dropped and nothing is stray: a
  CPU that loses the race for the insertion finds the winner's row in its second lookup, which the
  counter of 16-bpftool does not have.
\<close>

section \<open>The steps of account\<close>

record acct =
  ac_task :: task_ctx
  ac_sock :: sock
  ac_bytes :: u64
  ac_tx :: bool

text \<open>
  Where a CPU is in \<open>account\<close>, named after what it does next. The pointer \<open>ps\<close> is given by the key of
  the row whose element it points to, \<open>None\<close> when that element has left the map.
\<close>

datatype pc =
    Idle
  | Enter acct
  | Own acct
  | Look acct
  | Create acct
  | Look_again acct
  | Add_bytes "u32 option" acct
  | Add_calls "u32 option" acct
  | Stamp "u32 option" acct

definition add_bytes :: "acct \<Rightarrow> proc_stats \<Rightarrow> proc_stats" where
  "add_bytes c ps =
     (if ac_tx c then ps\<lparr>tx_bytes := tx_bytes ps + ac_bytes c\<rparr> else ps\<lparr>rx_bytes := rx_bytes ps + ac_bytes c\<rparr>)"

definition add_calls :: "acct \<Rightarrow> proc_stats \<Rightarrow> proc_stats" where
  "add_calls c ps =
     (if ac_tx c then ps\<lparr>tx_calls := tx_calls ps + 1\<rparr> else ps\<lparr>rx_calls := rx_calls ps + 1\<rparr>)"

definition stamp :: "acct \<Rightarrow> proc_stats \<Rightarrow> proc_stats" where
  "stamp c ps = ps\<lparr>last_ns := t_ktime (ac_task c)\<rparr>"

abbreviation ac_pid :: "acct \<Rightarrow> u32" where
  "ac_pid c \<equiv> cur_pid (ac_task c)"

definition counted :: "acct \<Rightarrow> bool" where
  "counted c \<longleftrightarrow> ac_pid c \<noteq> 0 \<and> ip_sock (ac_sock c)"

text \<open>A store through a pointer to the row of a process, and through \<open>ps\<close>.\<close>

definition through :: "('m, 'o) nettop_ops \<Rightarrow> u32 \<Rightarrow> (proc_stats \<Rightarrow> proc_stats) \<Rightarrow> ('m, 'o) nettop \<Rightarrow> ('m, 'o) nettop" where
  "through ops pid g st =
     (case map_lookup (st_ops ops) (proc_stats_map st) pid of
        None \<Rightarrow> st
      | Some ps \<Rightarrow> st\<lparr>proc_stats_map := map_poke (st_ops ops) (proc_stats_map st) pid (g ps)\<rparr>)"

fun store_ps :: "('m, 'o) nettop_ops \<Rightarrow> u32 option \<Rightarrow> (proc_stats \<Rightarrow> proc_stats) \<Rightarrow> ('m, 'o) nettop \<Rightarrow> ('m, 'o) nettop" where
  "store_ps ops None g st = st"
| "store_ps ops (Some pid) g st = through ops pid g st"

fun acct_micro :: "('m, 'o) nettop_ops \<Rightarrow> pc \<Rightarrow> ('m, 'o) nettop \<Rightarrow> pc \<times> ('m, 'o) nettop" where
  "acct_micro ops Idle st = (Idle, st)"
| "acct_micro ops (Enter c) st =
     (if ac_pid c = 0 then (Idle, st)
      else if skc_family (ac_sock c) \<noteq> AF_INET \<and> skc_family (ac_sock c) \<noteq> AF_INET6 then (Idle, st)
      else (Own c, st))"
| "acct_micro ops (Own c) st =
     (Look c, st\<lparr>sock_owner := snd (map_update (ow_ops ops) (sock_owner st) (sk_addr (ac_sock c)) (ac_pid c) BPF_ANY)\<rparr>)"
| "acct_micro ops (Look c) st =
     (case map_lookup (st_ops ops) (proc_stats_map st) (ac_pid c) of
        Some ps \<Rightarrow> (Add_bytes (Some (ac_pid c)) c, st) | None \<Rightarrow> (Create c, st))"
| "acct_micro ops (Create c) st =
     (Look_again c, st\<lparr>proc_stats_map := snd (map_update (st_ops ops) (proc_stats_map st) (ac_pid c)
                          (proc_stats_init (t_comm (ac_task c))) BPF_NOEXIST)\<rparr>)"
| "acct_micro ops (Look_again c) st =
     (case map_lookup (st_ops ops) (proc_stats_map st) (ac_pid c) of
        Some ps \<Rightarrow> (Add_bytes (Some (ac_pid c)) c, st) | None \<Rightarrow> (Idle, st))"
| "acct_micro ops (Add_bytes r c) st = (Add_calls r c, store_ps ops r (add_bytes c) st)"
| "acct_micro ops (Add_calls r c) st = (Stamp r c, store_ps ops r (add_calls c) st)"
| "acct_micro ops (Stamp r c) st = (Idle, store_ps ops r (stamp c) st)"

fun pc_pid :: "pc \<Rightarrow> u32 option" where
  "pc_pid Idle = None"
| "pc_pid (Enter c) = Some (ac_pid c)"
| "pc_pid (Own c) = Some (ac_pid c)"
| "pc_pid (Look c) = Some (ac_pid c)"
| "pc_pid (Create c) = Some (ac_pid c)"
| "pc_pid (Look_again c) = Some (ac_pid c)"
| "pc_pid (Add_bytes r c) = Some (ac_pid c)"
| "pc_pid (Add_calls r c) = Some (ac_pid c)"
| "pc_pid (Stamp r c) = Some (ac_pid c)"

text \<open>The row a CPU has a pointer to, and the pointer itself changed.\<close>

fun held :: "pc \<Rightarrow> u32 option" where
  "held (Add_bytes r c) = r"
| "held (Add_calls r c) = r"
| "held (Stamp r c) = r"
| "held _ = None"

fun repoint :: "(u32 option \<Rightarrow> u32 option) \<Rightarrow> pc \<Rightarrow> pc" where
  "repoint g (Add_bytes r c) = Add_bytes (g r) c"
| "repoint g (Add_calls r c) = Add_calls (g r) c"
| "repoint g (Stamp r c) = Stamp (g r) c"
| "repoint g p = p"

definition unlinked :: "u32 \<Rightarrow> pc \<Rightarrow> pc" where
  "unlinked pid = repoint (\<lambda>r. if r = Some pid then None else r)"

fun dangling :: "pc \<Rightarrow> bool" where
  "dangling (Add_bytes r c) = (r = None)"
| "dangling (Add_calls r c) = (r = None)"
| "dangling (Stamp r c) = (r = None)"
| "dangling _ = False"

text \<open>The counted accounting of a process that has not yet found its row.\<close>

fun waiting :: "u32 \<Rightarrow> pc \<Rightarrow> acct list" where
  "waiting pid (Enter c) = (if ac_pid c = pid \<and> counted c then [c] else [])"
| "waiting pid (Own c) = (if ac_pid c = pid \<and> counted c then [c] else [])"
| "waiting pid (Look c) = (if ac_pid c = pid \<and> counted c then [c] else [])"
| "waiting pid (Create c) = (if ac_pid c = pid \<and> counted c then [c] else [])"
| "waiting pid (Look_again c) = (if ac_pid c = pid \<and> counted c then [c] else [])"
| "waiting pid _ = []"

record ('m, 'o) race_state =
  rs_maps :: "('m, 'o) nettop"
  rs_cpus :: "pc list"

text \<open>
  A dropped sample (\<open>map full\<close>) has a label of its own. The label of a deletion carries the
  accountings that have not yet found the row, that of a reuse where the CPU was.
\<close>

datatype race_label =
  Call nat acct | Go nat | Drop nat acct | Softirq net_event | Reap u32 "acct list" | Reuse nat u32 pc

inductive race_step ::
  "('m, 'o) nettop_ops \<Rightarrow> ('m, 'o) race_state \<Rightarrow> race_label \<Rightarrow> ('m, 'o) race_state \<Rightarrow> bool" for ops where
  call: "i < length (rs_cpus s) \<Longrightarrow> rs_cpus s ! i = Idle \<Longrightarrow>
    race_step ops s (Call i c) (s\<lparr>rs_cpus := (rs_cpus s)[i := Enter c]\<rparr>)"
| go: "i < length (rs_cpus s) \<Longrightarrow> acct_micro ops (rs_cpus s ! i) (rs_maps s) = (p, st) \<Longrightarrow>
    \<not> ((\<exists>c. rs_cpus s ! i = Look_again c) \<and> p = Idle) \<Longrightarrow>
    race_step ops s (Go i) (s\<lparr>rs_maps := st, rs_cpus := (rs_cpus s)[i := p]\<rparr>)"
| drop: "i < length (rs_cpus s) \<Longrightarrow> rs_cpus s ! i = Look_again c \<Longrightarrow>
    acct_micro ops (Look_again c) (rs_maps s) = (Idle, st) \<Longrightarrow>
    race_step ops s (Drop i c) (s\<lparr>rs_maps := st, rs_cpus := (rs_cpus s)[i := Idle]\<rparr>)"
| softirq: "e = Tcp_retransmit sk \<or> e = Tcp_close sk \<Longrightarrow>
    race_step ops s (Softirq e) (s\<lparr>rs_maps := net_step ops e (rs_maps s)\<rparr>)"
| reap: "ws = concat (map (waiting pid) (rs_cpus s)) \<Longrightarrow>
    race_step ops s (Reap pid ws)
      (s\<lparr>rs_maps := (rs_maps s)\<lparr>proc_stats_map := map_delete (st_ops ops) (proc_stats_map (rs_maps s)) pid\<rparr>,
         rs_cpus := map (unlinked pid) (rs_cpus s)\<rparr>)"
| reuse: "i < length (rs_cpus s) \<Longrightarrow> rs_cpus s ! i = p \<Longrightarrow> dangling p \<Longrightarrow>
    map_lookup (st_ops ops) (proc_stats_map (rs_maps s)) pid \<noteq> None \<Longrightarrow>
    race_step ops s (Reuse i pid p) (s\<lparr>rs_cpus := (rs_cpus s)[i := repoint (\<lambda>r. Some pid) p]\<rparr>)"

inductive race_trace ::
  "('m, 'o) nettop_ops \<Rightarrow> ('m, 'o) race_state \<Rightarrow> race_label list \<Rightarrow> ('m, 'o) race_state \<Rightarrow> bool" for ops s where
  nil: "race_trace ops s [] s"
| snoc: "race_trace ops s tr s1 \<Longrightarrow> race_step ops s1 l s2 \<Longrightarrow> race_trace ops s (tr @ [l]) s2"

text \<open>The same steps as a function: the state after the step, if it can be made.\<close>

definition full_drop :: "pc \<Rightarrow> pc \<Rightarrow> bool" where
  "full_drop p p' \<longleftrightarrow> (case p of Look_again c \<Rightarrow> p' = Idle | _ \<Rightarrow> False)"

fun race_exec ::
  "('m, 'o) nettop_ops \<Rightarrow> race_label \<Rightarrow> ('m, 'o) race_state \<Rightarrow> ('m, 'o) race_state option" where
  "race_exec ops (Call i c) s =
     (if i < length (rs_cpus s) \<and> rs_cpus s ! i = Idle then Some (s\<lparr>rs_cpus := (rs_cpus s)[i := Enter c]\<rparr>) else None)"
| "race_exec ops (Go i) s =
     (if i < length (rs_cpus s)
      then case acct_micro ops (rs_cpus s ! i) (rs_maps s) of
             (p, st) \<Rightarrow> if full_drop (rs_cpus s ! i) p then None
                       else Some (s\<lparr>rs_maps := st, rs_cpus := (rs_cpus s)[i := p]\<rparr>)
      else None)"
| "race_exec ops (Drop i c) s =
     (if i < length (rs_cpus s) \<and> rs_cpus s ! i = Look_again c
      then case acct_micro ops (Look_again c) (rs_maps s) of
             (p, st) \<Rightarrow> if p = Idle then Some (s\<lparr>rs_maps := st, rs_cpus := (rs_cpus s)[i := Idle]\<rparr>) else None
      else None)"
| "race_exec ops (Softirq e) s =
     (if (case e of Tcp_retransmit sk \<Rightarrow> True | Tcp_close sk \<Rightarrow> True | _ \<Rightarrow> False)
      then Some (s\<lparr>rs_maps := net_step ops e (rs_maps s)\<rparr>) else None)"
| "race_exec ops (Reap pid ws) s =
     (if ws = concat (map (waiting pid) (rs_cpus s))
      then Some (s\<lparr>rs_maps := (rs_maps s)\<lparr>proc_stats_map := map_delete (st_ops ops) (proc_stats_map (rs_maps s)) pid\<rparr>,
                   rs_cpus := map (unlinked pid) (rs_cpus s)\<rparr>)
      else None)"
| "race_exec ops (Reuse i pid p) s =
     (if i < length (rs_cpus s) \<and> rs_cpus s ! i = p \<and> dangling p \<and>
         map_lookup (st_ops ops) (proc_stats_map (rs_maps s)) pid \<noteq> None
      then Some (s\<lparr>rs_cpus := (rs_cpus s)[i := repoint (\<lambda>r. Some pid) p]\<rparr>) else None)"

fun race_run ::
  "('m, 'o) nettop_ops \<Rightarrow> race_label list \<Rightarrow> ('m, 'o) race_state \<Rightarrow> ('m, 'o) race_state option" where
  "race_run ops [] s = Some s"
| "race_run ops (l # ls) s = (case race_exec ops l s of None \<Rightarrow> None | Some s \<Rightarrow> race_run ops ls s)"

lemma race_exec_iff: "race_exec ops l s = Some s' \<longleftrightarrow> race_step ops s l s'"
proof (cases l)
  case (Softirq e)
  then show ?thesis by (cases e) (auto simp: race_step.simps)
qed (auto simp: race_step.simps full_drop_def split: prod.splits pc.splits)

lemma race_run_append:
  "race_run ops (ls @ ls') s = (case race_run ops ls s of None \<Rightarrow> None | Some s \<Rightarrow> race_run ops ls' s)"
  by (induction ls arbitrary: s) (auto split: option.split)

lemma race_run_iff: "race_run ops tr s = Some s' \<longleftrightarrow> race_trace ops s tr s'"
proof (induction tr arbitrary: s' rule: rev_induct)
  case Nil
  show ?case by (auto intro: race_trace.nil elim: race_trace.cases)
next
  case (snoc l tr)
  show ?case
    by (subst race_trace.simps) (auto simp: race_run_append simp flip: snoc.IH race_exec_iff split: option.splits)
qed

text \<open>
  What counts for a row since it was last deleted: the accountings of its process, those waiting
  for their row at the deletion included, those dropped, and the moves of CPUs whose dangling
  pointer became a pointer to this row.
\<close>

fun asked_step :: "u32 \<Rightarrow> acct list \<Rightarrow> race_label \<Rightarrow> acct list" where
  "asked_step pid cs (Call i c) = (if ac_pid c = pid \<and> counted c then cs @ [c] else cs)"
| "asked_step pid cs (Reap p ws) = (if p = pid then ws else cs)"
| "asked_step pid cs _ = cs"

fun dropped_step :: "u32 \<Rightarrow> acct list \<Rightarrow> race_label \<Rightarrow> acct list" where
  "dropped_step pid cs (Drop i c) = (if ac_pid c = pid then cs @ [c] else cs)"
| "dropped_step pid cs (Reap p ws) = (if p = pid then [] else cs)"
| "dropped_step pid cs _ = cs"

fun stray_step :: "u32 \<Rightarrow> pc list \<Rightarrow> race_label \<Rightarrow> pc list" where
  "stray_step pid qs (Reuse i p q) = (if p = pid then qs @ [q] else qs)"
| "stray_step pid qs (Reap p ws) = (if p = pid then [] else qs)"
| "stray_step pid qs _ = qs"

definition asked :: "race_label list \<Rightarrow> u32 \<Rightarrow> acct list" where
  "asked tr pid = foldl (asked_step pid) [] tr"

definition dropped :: "race_label list \<Rightarrow> u32 \<Rightarrow> acct list" where
  "dropped tr pid = foldl (dropped_step pid) [] tr"

definition strays :: "race_label list \<Rightarrow> u32 \<Rightarrow> pc list" where
  "strays tr pid = foldl (stray_step pid) [] tr"

lemma since_snoc [simp]:
  "asked (tr @ [l]) pid = asked_step pid (asked tr pid) l"
  "dropped (tr @ [l]) pid = dropped_step pid (dropped tr pid) l"
  "strays (tr @ [l]) pid = stray_step pid (strays tr pid) l"
  "asked [] pid = []" "dropped [] pid = []" "strays [] pid = []"
  by (simp_all add: asked_def dropped_def strays_def)

text \<open>What a move with a pointer has still to add, to the bytes and to the calls of a direction.\<close>

fun stray_bytes :: "bool \<Rightarrow> pc \<Rightarrow> u64" where
  "stray_bytes tx (Add_bytes r c) = (if ac_tx c = tx then ac_bytes c else 0)"
| "stray_bytes tx _ = 0"

fun stray_calls :: "bool \<Rightarrow> pc \<Rightarrow> u64" where
  "stray_calls tx (Add_bytes r c) = of_bool (ac_tx c = tx)"
| "stray_calls tx (Add_calls r c) = of_bool (ac_tx c = tx)"
| "stray_calls tx _ = 0"

section \<open>One CPU alone\<close>

text \<open>Nine moves of one CPU are \<open>account\<close>.\<close>

fun alone :: "('m, 'o) nettop_ops \<Rightarrow> nat \<Rightarrow> pc \<times> ('m, 'o) nettop \<Rightarrow> pc \<times> ('m, 'o) nettop" where
  "alone ops 0 s = s"
| "alone ops (Suc n) s = alone ops n (case_prod (acct_micro ops) s)"

lemma alone_idle [simp]: "alone ops n (Idle, st) = (Idle, st)"
  by (induction n) auto

lemma bump_split: "bump (t_ktime (ac_task c)) (ac_bytes c) (ac_tx c) ps = stamp c (add_calls c (add_bytes c ps))"
  by (simp add: bump_def stamp_def add_calls_def add_bytes_def)

locale race_maps = stats: bpf_hash "st_ops ops" for ops :: "('m, 'o) nettop_ops"
begin

abbreviation "row st \<equiv> map_lookup (st_ops ops) (proc_stats_map st)"

lemma row_through: "row (through ops pid g st) = (row st)(pid := map_option g (row st pid))"
  by (auto simp: through_def stats.hash_poke split: option.split)

lemma row_store: "row (store_ps ops r g st) = (\<lambda>k. if r = Some k then map_option g (row st k) else row st k)"
  by (cases r) (auto simp: row_through)

lemma own_through [simp]: "sock_owner (through ops pid g st) = sock_owner st"
  by (simp add: through_def split: option.split)

lemma alone_account:
  assumes "alone ops 9 (Enter c, st) = (p, st')"
    and "st'' = account ops (ac_task c) (ac_sock c) (ac_bytes c) (ac_tx c) st"
  shows "p = Idle \<and> row st' = row st'' \<and> sock_owner st' = sock_owner st''"
  using assms
  by (auto simp: eval_nat_numeral account_def Let_def row_through bump_split stats.hash_poke fun_eq_iff
      split: option.splits if_splits)

lemma softirq_row:
  "row (handle_tcp_close ops sk st) = row st"
  "row (handle_tcp_retransmit ops sk st) pid =
     map_option (\<lambda>r. if map_lookup (ow_ops ops) (sock_owner st) (sk_addr sk) = Some pid
                     then r\<lparr>retrans_pkts := retrans_pkts r + 1\<rparr> else r) (row st pid)"
  by (cases "row st pid"; auto simp: handle_tcp_close_def handle_tcp_retransmit_def stats.hash_poke
      split: option.splits)+

lemma micro_keeps: "row st pid \<noteq> None \<Longrightarrow> row (snd (acct_micro ops p st)) pid \<noteq> None"
  by (cases p) (auto simp: row_store stats.hash_update_cases split: option.split)

text \<open>A pointer that is not dangling points to a row that is there.\<close>

lemma micro_pins:
  "(\<And>pid. held p = Some pid \<Longrightarrow> row st pid \<noteq> None) \<Longrightarrow> held (fst (acct_micro ops p st)) = Some pid \<Longrightarrow>
   row (snd (acct_micro ops p st)) pid \<noteq> None"
  by (cases p) (auto simp: row_store row_through split: option.splits if_splits)

definition pins_ok :: "('m, 'o) race_state \<Rightarrow> bool" where
  "pins_ok s \<longleftrightarrow> (\<forall>p \<in> set (rs_cpus s). \<forall>pid. held p = Some pid \<longrightarrow> row (rs_maps s) pid \<noteq> None)"

lemma held_repoint: "held (repoint g p) = Some pid \<Longrightarrow> g (held p) = Some pid"
  by (cases p) auto

lemma step_pins: "race_step ops s l s' \<Longrightarrow> pins_ok s \<Longrightarrow> pins_ok s'"
proof (induction rule: race_step.induct)
  case (call i s c)
  then show ?case
    by (auto simp: pins_ok_def dest!: set_update_subset_insert [THEN subsetD])
next
  case (go i s p st)
  have "row st pid \<noteq> None" if "held q = Some pid" "q \<in> set ((rs_cpus s)[i := p])" for q pid
  proof (cases "q = p")
    case True
    have "held (rs_cpus s ! i) = Some k \<Longrightarrow> row (rs_maps s) k \<noteq> None" for k
      using go(1,4) nth_mem [OF go(1)] unfolding pins_ok_def by blast
    with True that(1) go(2) micro_pins [of "rs_cpus s ! i" "rs_maps s" pid] show ?thesis by simp
  next
    case False
    with that go(4) have "row (rs_maps s) pid \<noteq> None"
      by (auto simp: pins_ok_def dest!: set_update_subset_insert [THEN subsetD])
    with micro_keeps [of "rs_maps s" pid "rs_cpus s ! i"] go(2) show ?thesis by simp
  qed
  then show ?case by (auto simp: pins_ok_def)
next
  case (drop i s c st)
  then show ?case
    by (auto simp: pins_ok_def dest!: set_update_subset_insert [THEN subsetD] split: option.splits)
next
  case (softirq e sk s)
  then show ?case
    by (auto simp: pins_ok_def softirq_row)
next
  case (reap ws pid s)
  then show ?case
    by (auto simp: pins_ok_def unlinked_def stats.hash_delete dest!: held_repoint split: if_splits)
next
  case (reuse i s p pid)
  then show ?case
    by (auto simp: pins_ok_def dest!: set_update_subset_insert [THEN subsetD] held_repoint)
qed

end

section \<open>Every interleaving\<close>

definition owed :: "(acct \<Rightarrow> u64) \<Rightarrow> u32 \<Rightarrow> acct \<Rightarrow> u64" where
  "owed w pid c = (if ac_pid c = pid \<and> counted c then w c else 0)"

text \<open>
  What the accounting a CPU is in has still to add to a counter, \<open>early\<close> saying whether the counter
  is changed by the first of the two additions.
\<close>

fun due :: "(acct \<Rightarrow> u64) \<Rightarrow> bool \<Rightarrow> u32 \<Rightarrow> pc \<Rightarrow> u64" where
  "due w early pid Idle = 0"
| "due w early pid (Enter c) = owed w pid c"
| "due w early pid (Own c) = owed w pid c"
| "due w early pid (Look c) = owed w pid c"
| "due w early pid (Create c) = owed w pid c"
| "due w early pid (Look_again c) = owed w pid c"
| "due w early pid (Add_bytes r c) = (if r = Some pid then w c else 0)"
| "due w early pid (Add_calls r c) = (if r = Some pid \<and> \<not> early then w c else 0)"
| "due w early pid (Stamp r c) = 0"

text \<open>What a CPU that has a pointer has still to add to a counter, wherever the pointer leads.\<close>

fun stray_due :: "(acct \<Rightarrow> u64) \<Rightarrow> bool \<Rightarrow> pc \<Rightarrow> u64" where
  "stray_due w early (Add_bytes r c) = w c"
| "stray_due w early (Add_calls r c) = (if early then 0 else w c)"
| "stray_due w early _ = 0"

lemma due_unlinked:
  "due w early pid (unlinked q p) = (if q = pid then (\<Sum>c\<leftarrow>waiting pid p. w c) else due w early pid p)"
  by (cases p) (auto simp: unlinked_def owed_def)

lemma due_repoint:
  "dangling p \<Longrightarrow> due w early pid (repoint (\<lambda>r. Some q) p) = (if q = pid then stray_due w early p else 0)"
  "dangling p \<Longrightarrow> due w early pid p = 0"
  by (cases p; simp)+

lemma sum_list_concat_map: "(\<Sum>c\<leftarrow>concat (map g ps). w c) = (\<Sum>p\<leftarrow>ps. \<Sum>c\<leftarrow>g p. w c)"
  by (induction ps) auto

text \<open>Past the guards, an accounting is one that counts.\<close>

fun passed :: "pc \<Rightarrow> bool" where
  "passed Idle = True"
| "passed (Enter c) = True"
| "passed (Own c) = counted c"
| "passed (Look c) = counted c"
| "passed (Create c) = counted c"
| "passed (Look_again c) = counted c"
| "passed (Add_bytes r c) = True"
| "passed (Add_calls r c) = True"
| "passed (Stamp r c) = True"

text \<open>
  One of the four counters \<open>f\<close>, what an accounting adds to it, and whether that happens in the
  first of the two additions.
\<close>

locale meter = race_maps ops for ops :: "('m, 'o) nettop_ops" +
  fixes f :: "proc_stats \<Rightarrow> u64" and w :: "acct \<Rightarrow> u64" and early :: bool
  assumes meter_bytes: "f (add_bytes c ps) = f ps + (if early then w c else 0)"
    and meter_calls: "f (add_calls c ps) = f ps + (if early then 0 else w c)"
    and meter_stamp: "f (stamp c ps) = f ps"
    and meter_init: "f (proc_stats_init comm) = 0"
    and meter_retrans: "f (ps\<lparr>retrans_pkts := n\<rparr>) = f ps"
begin

definition "kept st pid = (case row st pid of None \<Rightarrow> 0 | Some ps \<Rightarrow> f ps)"

definition "balance s tr pid =
  kept (rs_maps s) pid + (\<Sum>p\<leftarrow>rs_cpus s. due w early pid p) + (\<Sum>c\<leftarrow>dropped tr pid. w c)"

lemma passed_repoint [simp]: "passed (repoint g p) = passed p"
  by (cases p) auto

lemma micro_passed: "passed p \<Longrightarrow> passed (fst (acct_micro ops p st))"
  by (cases p) (auto simp: counted_def ip_sock_def split: option.split)

lemma step_passed: "race_step ops s l s' \<Longrightarrow> (\<forall>p \<in> set (rs_cpus s). passed p) \<Longrightarrow> (\<forall>p \<in> set (rs_cpus s'). passed p)"
proof (induction rule: race_step.induct)
  case (go i s p st)
  with micro_passed [of "rs_cpus s ! i" "rs_maps s"] show ?case
    by (auto dest!: set_update_subset_insert [THEN subsetD])
qed (auto simp: unlinked_def dest!: set_update_subset_insert [THEN subsetD])

text \<open>A move of a CPU keeps what is in the row together with what is due.\<close>

lemma micro_balance:
  assumes "passed p" "\<And>pid. held p = Some pid \<Longrightarrow> row st pid \<noteq> None" "acct_micro ops p st = (p', st')"
    and "\<not> ((\<exists>c. p = Look_again c) \<and> p' = Idle)"
  shows "kept st' pid + due w early pid p' = kept st pid + due w early pid p"
proof (cases p)
  case (Create c)
  have "map_lookup (st_ops ops) (proc_stats_map st) (ac_pid c) = None"
    if "fst (map_update (st_ops ops) (proc_stats_map st) (ac_pid c) (proc_stats_init (t_comm (ac_task c))) BPF_NOEXIST) = 0"
    using stats.hash_update_noexist [of "proc_stats_map st" "ac_pid c"] that by (metis not_Some_eq)
  with Create assms show ?thesis
    by (auto simp: kept_def stats.hash_update_cases meter_init)
next
  case (Add_bytes r c)
  with assms show ?thesis
    by (cases "row st pid") (auto simp: kept_def row_store row_through meter_bytes)
next
  case (Add_calls r c)
  with assms show ?thesis
    by (cases "row st pid") (auto simp: kept_def row_store row_through meter_calls)
next
  case (Stamp r c)
  with assms show ?thesis
    by (cases "row st pid") (auto simp: kept_def row_store row_through meter_stamp)
qed (use assms in \<open>auto simp: kept_def owed_def counted_def ip_sock_def split: option.splits if_splits\<close>)

text \<open>What the row of a process has to account for.\<close>

definition "claimed tr pid = (\<Sum>c\<leftarrow>asked tr pid. w c) + (\<Sum>p\<leftarrow>strays tr pid. stray_due w early p)"

lemma step_balance:
  assumes "race_step ops s l s'" "pins_ok s" "\<forall>p \<in> set (rs_cpus s). passed p"
    and "balance s tr pid = claimed tr pid"
  shows "balance s' (tr @ [l]) pid = claimed (tr @ [l]) pid"
  using assms(1)
proof (cases rule: race_step.cases)
  case (call i c)
  with assms(4) show ?thesis
    by (simp add: balance_def claimed_def sum_list_update_word owed_def algebra_simps)
next
  case (go i p st)
  have "rs_cpus s ! i \<in> set (rs_cpus s)" using go(3) by simp
  then have "kept st pid + due w early pid p = kept (rs_maps s) pid + due w early pid (rs_cpus s ! i)"
    using micro_balance [OF _ _ go(4,5), of pid] assms(2,3) by (auto simp: pins_ok_def)
  then have now: "kept st pid = kept (rs_maps s) pid + due w early pid (rs_cpus s ! i) - due w early pid p"
    by (simp only: eq_diff_eq)
  have "balance s' (tr @ [l]) pid = balance s tr pid"
    using go(3) by (simp add: balance_def go(1,2) sum_list_update_word now)
  with assms(4) go(1) show ?thesis by (simp add: claimed_def)
next
  case (drop i c st)
  then have "counted c" using assms(3) by (metis nth_mem passed.simps(6))
  with assms(4) drop show ?thesis
    by (auto simp: balance_def claimed_def sum_list_update_word owed_def algebra_simps split: option.splits)
next
  case (softirq e sk)
  with assms(4) show ?thesis
    by (auto simp: balance_def claimed_def kept_def softirq_row meter_retrans split: option.splits)
next
  case (reap ws p)
  with assms(4) show ?thesis
    by (auto simp: balance_def claimed_def kept_def stats.hash_delete due_unlinked sum_list_concat_map comp_def)
next
  case (reuse i p q)
  with assms(4) show ?thesis
    by (auto simp: balance_def claimed_def sum_list_update_word due_repoint algebra_simps)
qed

lemma trace_balance:
  assumes "race_trace ops s tr s'" "rs_cpus s = replicate n Idle" "row (rs_maps s) pid = None"
  shows "balance s' tr pid = claimed tr pid \<and> pins_ok s' \<and> (\<forall>p \<in> set (rs_cpus s'). passed p)"
  using assms(1)
proof (induction rule: race_trace.induct)
  case nil
  show ?case using assms(2,3)
    by (auto simp: balance_def claimed_def kept_def pins_ok_def sum_list_replicate)
next
  case (snoc tr s1 l s2)
  then show ?case using step_balance step_pins step_passed by blast
qed

text \<open>When all CPUs are idle, the row is what was asked and strayed here less what was dropped.\<close>

lemma meter_exact:
  assumes "race_trace ops s tr s'" "rs_cpus s = replicate n Idle" "row (rs_maps s) pid = None"
    and "rs_cpus s' = replicate n Idle"
  shows "kept (rs_maps s') pid + (\<Sum>c\<leftarrow>dropped tr pid. w c) = claimed tr pid"
  using trace_balance [OF assms(1-3)] assms(4) by (simp add: balance_def sum_list_replicate)

end

text \<open>The four counters of a row.\<close>

definition tx_weight :: "acct \<Rightarrow> u64" where
  "tx_weight c = (if ac_tx c then ac_bytes c else 0)"

definition rx_weight :: "acct \<Rightarrow> u64" where
  "rx_weight c = (if ac_tx c then 0 else ac_bytes c)"

lemmas meter_simps = add_bytes_def add_calls_def stamp_def proc_stats_init_def tx_weight_def rx_weight_def

sublocale race_maps \<subseteq> tx: meter ops tx_bytes tx_weight True
  by unfold_locales (simp_all add: meter_simps)

sublocale race_maps \<subseteq> rx: meter ops rx_bytes rx_weight True
  by unfold_locales (simp_all add: meter_simps)

sublocale race_maps \<subseteq> txc: meter ops tx_calls "\<lambda>c. of_bool (ac_tx c)" False
  by unfold_locales (simp_all add: meter_simps)

sublocale race_maps \<subseteq> rxc: meter ops rx_calls "\<lambda>c. of_bool (\<not> ac_tx c)" False
  by unfold_locales (simp_all add: meter_simps)

definition the_row :: "('m, 'o) nettop_ops \<Rightarrow> ('m, 'o) nettop \<Rightarrow> u32 \<Rightarrow> proc_stats" where
  "the_row ops st pid =
     (case map_lookup (st_ops ops) (proc_stats_map st) pid of None \<Rightarrow> proc_stats_init [] | Some ps \<Rightarrow> ps)"

lemma strays_sums:
  "(\<Sum>p\<leftarrow>ps. stray_due tx_weight True p) = (\<Sum>p\<leftarrow>ps. stray_bytes True p)"
  "(\<Sum>p\<leftarrow>ps. stray_due rx_weight True p) = (\<Sum>p\<leftarrow>ps. stray_bytes False p)"
  "(\<Sum>p\<leftarrow>ps. stray_due (\<lambda>c. of_bool (ac_tx c)) False p) = (\<Sum>p\<leftarrow>ps. stray_calls True p)"
  "(\<Sum>p\<leftarrow>ps. stray_due (\<lambda>c. of_bool (\<not> ac_tx c)) False p) = (\<Sum>p\<leftarrow>ps. stray_calls False p)"
proof -
  have "stray_due tx_weight True = stray_bytes True" "stray_due rx_weight True = stray_bytes False"
    "stray_due (\<lambda>c. of_bool (ac_tx c)) False = stray_calls True"
    "stray_due (\<lambda>c. of_bool (\<not> ac_tx c)) False = stray_calls False"
    by (rule ext; rename_tac p; case_tac p; simp add: tx_weight_def rx_weight_def)+
  then show
    "(\<Sum>p\<leftarrow>ps. stray_due tx_weight True p) = (\<Sum>p\<leftarrow>ps. stray_bytes True p)"
    "(\<Sum>p\<leftarrow>ps. stray_due rx_weight True p) = (\<Sum>p\<leftarrow>ps. stray_bytes False p)"
    "(\<Sum>p\<leftarrow>ps. stray_due (\<lambda>c. of_bool (ac_tx c)) False p) = (\<Sum>p\<leftarrow>ps. stray_calls True p)"
    "(\<Sum>p\<leftarrow>ps. stray_due (\<lambda>c. of_bool (\<not> ac_tx c)) False p) = (\<Sum>p\<leftarrow>ps. stray_calls False p)"
    by simp_all
qed

text \<open>The bytes and the calls of a list of accountings in one direction.\<close>

definition bytes_of :: "bool \<Rightarrow> acct list \<Rightarrow> u64" where
  "bytes_of tx cs = (\<Sum>c\<leftarrow>filter (\<lambda>c. ac_tx c = tx) cs. ac_bytes c)"

definition calls_of :: "bool \<Rightarrow> acct list \<Rightarrow> u64" where
  "calls_of tx cs = of_nat (length (filter (\<lambda>c. ac_tx c = tx) cs))"

lemma weight_sums:
  "(\<Sum>c\<leftarrow>cs. tx_weight c) = bytes_of True cs" "(\<Sum>c\<leftarrow>cs. rx_weight c) = bytes_of False cs"
  "(\<Sum>c\<leftarrow>cs. of_bool (ac_tx c)) = calls_of True cs" "(\<Sum>c\<leftarrow>cs. of_bool (\<not> ac_tx c)) = calls_of False cs"
  by (induction cs) (simp_all add: bytes_of_def calls_of_def tx_weight_def rx_weight_def)

context race_maps
begin

lemma row_exact:
  assumes "race_trace ops s tr s'" "rs_cpus s = replicate n Idle" "row (rs_maps s) pid = None"
    and "rs_cpus s' = replicate n Idle"
  shows "tx_bytes (the_row ops (rs_maps s') pid) + bytes_of True (dropped tr pid) =
      bytes_of True (asked tr pid) + (\<Sum>p\<leftarrow>strays tr pid. stray_bytes True p)"
    "rx_bytes (the_row ops (rs_maps s') pid) + bytes_of False (dropped tr pid) =
      bytes_of False (asked tr pid) + (\<Sum>p\<leftarrow>strays tr pid. stray_bytes False p)"
    "tx_calls (the_row ops (rs_maps s') pid) + calls_of True (dropped tr pid) =
      calls_of True (asked tr pid) + (\<Sum>p\<leftarrow>strays tr pid. stray_calls True p)"
    "rx_calls (the_row ops (rs_maps s') pid) + calls_of False (dropped tr pid) =
      calls_of False (asked tr pid) + (\<Sum>p\<leftarrow>strays tr pid. stray_calls False p)"
  using tx.meter_exact [OF assms] rx.meter_exact [OF assms] txc.meter_exact [OF assms] rxc.meter_exact [OF assms]
  by (auto simp: the_row_def tx.kept_def rx.kept_def txc.kept_def rxc.kept_def proc_stats_init_def
      tx.claimed_def rx.claimed_def txc.claimed_def rxc.claimed_def strays_sums weight_sums
      split: option.splits)

text \<open>Only a deletion makes a pointer dangle.\<close>

lemma micro_dangling: "\<not> dangling p \<Longrightarrow> \<not> dangling (fst (acct_micro ops p st))"
  by (cases p) (auto split: option.split)

lemma step_dangling:
  assumes "race_step ops s l s'" "\<forall>p \<in> set (rs_cpus s). \<not> dangling p" "\<forall>p ws. l \<noteq> Reap p ws"
  shows "(\<forall>p \<in> set (rs_cpus s'). \<not> dangling p) \<and> stray_step pid qs l = qs"
  using assms
proof (cases rule: race_step.cases)
  case (go i p st)
  with assms(2) micro_dangling [of "rs_cpus s ! i" "rs_maps s"] show ?thesis
    by (auto dest!: set_update_subset_insert [THEN subsetD])
next
  case (reuse i p q)
  with assms(2) show ?thesis by (metis nth_mem)
qed (auto dest!: set_update_subset_insert [THEN subsetD])

lemma trace_dangling:
  assumes "race_trace ops s tr s'" "rs_cpus s = replicate n Idle" "\<forall>p ws. Reap p ws \<notin> set tr"
  shows "(\<forall>p \<in> set (rs_cpus s'). \<not> dangling p) \<and> strays tr pid = []"
  using assms(1,3)
proof (induction rule: race_trace.induct)
  case nil
  show ?case using assms(2) by simp
next
  case (snoc tr s1 l s2)
  then show ?case using step_dangling [OF snoc.hyps(2), of pid "strays tr pid"] by auto
qed

end

section \<open>A map with room\<close>

text \<open>The processes that call into the hooks during a trace.\<close>

definition callers :: "race_label list \<Rightarrow> u32 set" where
  "callers tr = (\<Union>l \<in> set tr. case l of Call i c \<Rightarrow> {ac_pid c} | _ \<Rightarrow> {})"

lemma finite_callers [simp]: "finite (callers tr)"
  by (auto simp: callers_def split: race_label.split)

lemma callers_mono: "callers tr \<subseteq> callers (tr @ [l])" "l = Call i c \<Longrightarrow> ac_pid c \<in> callers (tr @ [l])"
  by (auto simp: callers_def)

locale race_bounded = bounded: bpf_bounded "st_ops ops" cap wf_map
  for ops :: "('m, 'o) nettop_ops" and cap wf_map

sublocale race_bounded \<subseteq> race_maps ops ..

context race_bounded
begin

text \<open>
  All rows and all CPUs belong to processes of \<open>K\<close>, and a CPU that has tried to create the row of
  one process finds it.
\<close>

definition fits :: "u32 set \<Rightarrow> u32 \<Rightarrow> ('m, 'o) race_state \<Rightarrow> bool" where
  "fits K pid s \<longleftrightarrow> wf_map (proc_stats_map (rs_maps s)) \<and> dom (row (rs_maps s)) \<subseteq> K \<and>
     (\<forall>p \<in> set (rs_cpus s). \<forall>k. pc_pid p = Some k \<longrightarrow> k \<in> K) \<and>
     (\<forall>c. Look_again c \<in> set (rs_cpus s) \<longrightarrow> ac_pid c = pid \<longrightarrow> row (rs_maps s) pid \<noteq> None)"

lemma dom_sub: "dom m \<subseteq> K \<Longrightarrow> m k = Some v \<Longrightarrow> k \<in> K"
  by blast

lemma through_wf: "wf_map (proc_stats_map st) \<Longrightarrow> wf_map (proc_stats_map (through ops pid g st))"
  by (auto simp: through_def bounded.bounded_poke_wf split: option.split)

lemma through_dom [simp]: "dom (row (through ops pid g st)) = dom (row st)"
  by (auto simp: row_through dom_def)

lemma store_wf: "wf_map (proc_stats_map st) \<Longrightarrow> wf_map (proc_stats_map (store_ps ops r g st))"
  by (cases r) (auto simp: through_wf)

lemma store_dom [simp]: "dom (row (store_ps ops r g st)) = dom (row st)"
  by (cases r) auto

lemma pid_repoint [simp]: "pc_pid (repoint g p) = pc_pid p"
  by (cases p) auto

lemma look_repoint [simp]: "repoint g p = Look_again c \<longleftrightarrow> p = Look_again c"
  "Look_again c = repoint g p \<longleftrightarrow> p = Look_again c"
  by (cases p; auto)+

lemma softirq_wf:
  "wf_map (proc_stats_map st) \<Longrightarrow> wf_map (proc_stats_map (handle_tcp_retransmit ops sk st))"
  "proc_stats_map (handle_tcp_close ops sk st) = proc_stats_map st"
  by (auto simp: handle_tcp_retransmit_def handle_tcp_close_def bounded.bounded_poke_wf split: option.split)

lemma micro_pid: "pc_pid (fst (acct_micro ops p st)) \<in> {None, pc_pid p}"
  by (cases p) (auto split: option.split)

lemma micro_fits:
  assumes "finite K" "card K \<le> cap" "wf_map (proc_stats_map st)" "dom (row st) \<subseteq> K"
    and "\<And>k. pc_pid p = Some k \<Longrightarrow> k \<in> K" and "acct_micro ops p st = (p', st')"
  shows "wf_map (proc_stats_map st')" "dom (row st') \<subseteq> K" "p' = Look_again c \<Longrightarrow> row st' (ac_pid c) \<noteq> None"
proof -
  have "wf_map (proc_stats_map st') \<and> dom (row st') \<subseteq> K \<and> (p' = Look_again c \<longrightarrow> row st' (ac_pid c) \<noteq> None)"
  proof (cases p)
    case (Create d)
    let ?u = "map_update (st_ops ops) (proc_stats_map st) (ac_pid d) (proc_stats_init (t_comm (ac_task d))) BPF_NOEXIST"
    have "fst ?u = 0" if "row st (ac_pid d) = None"
      using bounded.bounded_fits [OF assms(3,4,1,2) _ that] assms(5) Create by simp
    then have "map_lookup (st_ops ops) (snd ?u) =
        (if row st (ac_pid d) = None then (row st)(ac_pid d \<mapsto> proc_stats_init (t_comm (ac_task d))) else row st)"
      using bounded.hash_update_noexist [of "proc_stats_map st" "ac_pid d"]
      by (auto simp: bounded.hash_update_cases)
    with Create assms show ?thesis
      by (auto simp: bounded.bounded_update_wf dest: dom_sub split: if_splits)
  qed (use assms in \<open>auto simp: store_wf row_store dest: dom_sub split: option.splits if_splits\<close>)
  then show "wf_map (proc_stats_map st')" "dom (row st') \<subseteq> K"
    "p' = Look_again c \<Longrightarrow> row st' (ac_pid c) \<noteq> None" by auto
qed

lemma step_fits:
  assumes "race_step ops s l s'" "fits K pid s" "finite K" "card K \<le> cap" "\<And>i c. l = Call i c \<Longrightarrow> ac_pid c \<in> K"
    and "\<And>ws. l \<noteq> Reap pid ws"
  shows "fits K pid s' \<and> (\<forall>i c. l = Drop i c \<longrightarrow> ac_pid c \<noteq> pid)"
  using assms(1)
proof (cases rule: race_step.cases)
  case (call i c)
  with assms(2,5) show ?thesis
    by (auto simp: fits_def dest!: set_update_subset_insert [THEN subsetD])
next
  case (go i p st)
  have at: "rs_cpus s ! i \<in> set (rs_cpus s)" using go(3) by simp
  note f = assms(2) [unfolded fits_def]
  have k: "\<And>k. pc_pid (rs_cpus s ! i) = Some k \<Longrightarrow> k \<in> K" using f at by blast
  note m = micro_fits [OF assms(3,4) conjunct1 [OF f] _ k go(4)]
  have "pc_pid p \<in> {None, pc_pid (rs_cpus s ! i)}"
    using micro_pid [of "rs_cpus s ! i" "rs_maps s"] go(4) by simp
  moreover have "row st pid \<noteq> None" if "row (rs_maps s) pid \<noteq> None"
    using micro_keeps [OF that, of "rs_cpus s ! i"] go(4) by simp
  ultimately show ?thesis
    using f m k go by (fastforce simp: fits_def dest!: set_update_subset_insert [THEN subsetD])
next
  case (drop i c st)
  then have "Look_again c \<in> set (rs_cpus s)" by (metis nth_mem)
  with assms(2) drop show ?thesis
    by (auto simp: fits_def dest!: set_update_subset_insert [THEN subsetD] split: option.splits)
next
  case (softirq e sk)
  then show ?thesis
    using assms(2) by (auto simp: fits_def softirq_wf softirq_row dest: dom_sub)
next
  case (reap ws p)
  with assms(2,6) show ?thesis
    by (auto simp: fits_def unlinked_def bounded.hash_delete bounded.bounded_delete_wf image_iff domIff split: if_splits)
next
  case (reuse i p q)
  then have "p \<in> set (rs_cpus s)" by auto
  with assms(2) reuse show ?thesis
    by (auto simp: fits_def dest!: set_update_subset_insert [THEN subsetD])
qed

lemma trace_fits:
  assumes "race_trace ops s tr s'" "rs_cpus s = replicate n Idle" "wf_map (proc_stats_map (rs_maps s))"
    and "\<And>pid. row (rs_maps s) pid = None" and "finite K" "callers tr \<subseteq> K" "card K \<le> cap"
    and "\<forall>ws. Reap pid ws \<notin> set tr"
  shows "fits K pid s' \<and> dropped tr pid = []"
  using assms(1,6,8)
proof (induction rule: race_trace.induct)
  case nil
  show ?case using assms(2,3,4)
    by (auto simp: fits_def domIff)
next
  case (snoc tr s1 l s2)
  have "callers tr \<subseteq> K" and call: "\<And>i c. l = Call i c \<Longrightarrow> ac_pid c \<in> K"
    using snoc.prems(1) callers_mono(1) [of tr l] callers_mono(2) [of l _ _ tr] by blast+
  moreover have "\<And>ws. l \<noteq> Reap pid ws" using snoc.prems(2) by auto
  ultimately show ?case
    using snoc.IH snoc.prems step_fits [OF snoc.hyps(2) _ assms(5,7) call] by (cases l) auto
qed

end

interpretation race_model: race_bounded
  "\<lparr>st_ops = hash_ops, ow_ops = ow\<rparr> :: ((u32, proc_stats) amap, 'o) nettop_ops" n "amap_wf n"
  by (rule race_bounded.intro) (simp add: bounded_model.bpf_bounded_axioms)

text \<open>The map as the program declares it.\<close>

definition MAX_PROCS :: nat where "MAX_PROCS = 4096"

definition proc_stats_map_decl :: "(u32, proc_stats) amap" where
  "proc_stats_map_decl = amap_empty MAX_PROCS"

text \<open>
  C3. Every interleaving of the CPUs with each other, with retransmissions, with closing sockets
  and with the loader's deletions, which may come at any moment: once the CPUs are between
  calls, each of the four counters of a process's row is, modulo \<open>2 ^ 64\<close>, the sum over the
  accountings of the process since its row was last deleted (those that had not found the row
  at that moment included), less those dropped at the second lookup, plus what other
  accountings add through pointers that the kernel's reuse of a deleted row's element made point
  to this one. So a deletion costs exactly the additions of the CPUs that held a pointer to the
  row. As long as no more processes send and receive than the map has rows for, nothing is
  dropped unless the row itself is deleted, and without a deletion nothing is stray: then no
  update is lost, the race for the creation of the row included.
\<close>

theorem nettop_race_exact:
  assumes maps: "bpf_bounded (st_ops ops) cap wf_map" "wf_map (proc_stats_map st)"
      "\<And>p. map_lookup (st_ops ops) (proc_stats_map st) p = None"
    and tr: "race_trace ops \<lparr>rs_maps = st, rs_cpus = replicate n Idle\<rparr> tr s" "rs_cpus s = replicate n Idle"
  shows "tx_bytes (the_row ops (rs_maps s) pid) + bytes_of True (dropped tr pid) =
      bytes_of True (asked tr pid) + (\<Sum>p\<leftarrow>strays tr pid. stray_bytes True p) \<and>
    rx_bytes (the_row ops (rs_maps s) pid) + bytes_of False (dropped tr pid) =
      bytes_of False (asked tr pid) + (\<Sum>p\<leftarrow>strays tr pid. stray_bytes False p) \<and>
    tx_calls (the_row ops (rs_maps s) pid) + calls_of True (dropped tr pid) =
      calls_of True (asked tr pid) + (\<Sum>p\<leftarrow>strays tr pid. stray_calls True p) \<and>
    rx_calls (the_row ops (rs_maps s) pid) + calls_of False (dropped tr pid) =
      calls_of False (asked tr pid) + (\<Sum>p\<leftarrow>strays tr pid. stray_calls False p) \<and>
    (card (callers tr) \<le> cap \<longrightarrow> (\<forall>ws. Reap pid ws \<notin> set tr) \<longrightarrow> dropped tr pid = []) \<and>
    ((\<forall>p ws. Reap p ws \<notin> set tr) \<longrightarrow> strays tr pid = [])"
proof -
  note b = race_bounded.intro [OF maps(1)]
  note r = race_maps.intro [OF bpf_bounded.axioms(1) [OF maps(1)]]
  have "dropped tr pid = []" if "card (callers tr) \<le> cap" "\<forall>ws. Reap pid ws \<notin> set tr"
    using race_bounded.trace_fits [OF b tr(1), of n "callers tr" pid] maps that by simp
  moreover have "strays tr pid = []" if "\<forall>p ws. Reap p ws \<notin> set tr"
    using race_maps.trace_dangling [OF r tr(1), of n pid] that by simp
  ultimately show ?thesis
    using race_maps.row_exact [OF r tr(1), of n pid] maps(3) tr(2) by simp
qed

text \<open>
  Two CPUs send for process 7 at once: both miss in the lookup, the second insertion fails with
  \<open>-EEXIST\<close>, and both sends are counted. Then CPU 0 sends 5 more bytes for process 7 and has found
  the row when the loader deletes it; process 9 sends 3 bytes from CPU 1, its new row takes the
  freed element, and the 5 bytes land there.
\<close>

definition race_ops :: "((u32, proc_stats) amap, (u64, u32) amap) nettop_ops" where
  "race_ops = \<lparr>st_ops = hash_ops, ow_ops = lru_ops\<rparr>"

definition race_send :: "u32 \<Rightarrow> u64 \<Rightarrow> acct" where
  "race_send p n = \<lparr>ac_task = mk_task p 0 [] 5, ac_sock = \<lparr>sk_addr = 64, skc_family = 2\<rparr>, ac_bytes = n, ac_tx = True\<rparr>"

definition race_both :: "race_label list" where
  "race_both =
     [Call 0 (race_send 7 100), Call 1 (race_send 7 20), Go 0, Go 0, Go 0, Go 1, Go 1, Go 1, Go 1, Go 0, Go 0, Go 0,
      Go 1, Go 1, Go 1, Go 1, Go 0, Go 0]"

definition race_reaped :: "race_label list" where
  "race_reaped =
     [Call 0 (race_send 7 5), Go 0, Go 0, Go 0, Call 1 (race_send 9 3), Reap 7 [], Go 1, Go 1, Go 1, Go 1, Go 1,
      Reuse 0 9 (Add_bytes None (race_send 7 5)), Go 0, Go 1, Go 0, Go 1, Go 0, Go 1]"

definition race_start :: "((u32, proc_stats) amap, (u64, u32) amap) race_state" where
  "race_start = \<lparr>rs_maps = \<lparr>proc_stats_map = proc_stats_map_decl, sock_owner = amap_empty 10240\<rparr>,
     rs_cpus = replicate 2 Idle\<rparr>"

lemmas race_demo_simps = race_both_def race_reaped_def race_start_def race_ops_def race_send_def
  proc_stats_map_decl_def MAX_PROCS_def hash_ops_def lru_ops_def amap_defs through_def full_drop_def
  unlinked_def counted_def ip_sock_def AF_INET_def AF_INET6_def

lemma two_idle: "replicate 2 Idle = [Idle, Idle]"
  by (simp add: numeral_2_eq_2)

theorem nettop_race_exact_witness:
  "\<exists>s s'. race_run race_ops race_both race_start = Some s \<and>
     tx_bytes (the_row race_ops (rs_maps s) 7) = 120 \<and> tx_calls (the_row race_ops (rs_maps s) 7) = 2 \<and>
     race_run race_ops (race_both @ race_reaped) race_start = Some s' \<and>
     tx_bytes (the_row race_ops (rs_maps s') 7) = 0 \<and> tx_bytes (the_row race_ops (rs_maps s') 9) = 8"
proof -
  have run: "\<exists>s. race_run race_ops race_both race_start = Some s \<and> rs_cpus s = replicate 2 Idle"
    by (simp add: race_demo_simps two_idle)
  then obtain s where s: "race_run race_ops race_both race_start = Some s" "rs_cpus s = replicate 2 Idle"
    by blast
  have "\<exists>s. race_run race_ops (race_both @ race_reaped) race_start = Some s \<and> rs_cpus s = replicate 2 Idle"
    by (simp add: race_demo_simps two_idle)
  then obtain s' where s': "race_run race_ops (race_both @ race_reaped) race_start = Some s'"
    "rs_cpus s' = replicate 2 Idle" by blast
  have bounded: "bpf_bounded (st_ops race_ops) MAX_PROCS (amap_wf MAX_PROCS)"
    by (simp add: race_ops_def bounded_model.bpf_bounded_axioms)
  have empty: "map_lookup (st_ops race_ops) (proc_stats_map (rs_maps race_start)) p = None" for p
    by (simp add: race_ops_def race_start_def proc_stats_map_decl_def hash_ops_def)
  have wf: "amap_wf MAX_PROCS (proc_stats_map (rs_maps race_start))"
    by (simp add: race_start_def proc_stats_map_decl_def)
  have "race_trace race_ops \<lparr>rs_maps = rs_maps race_start, rs_cpus = replicate 2 Idle\<rparr> race_both s"
    using s(1) by (simp add: race_run_iff race_start_def)
  from nettop_race_exact [OF bounded wf empty this s(2), of 7]
  have one: "tx_bytes (the_row race_ops (rs_maps s) 7) = 120 \<and> tx_calls (the_row race_ops (rs_maps s) 7) = 2"
    by (simp add: asked_def dropped_def strays_def bytes_of_def calls_of_def race_demo_simps)
  have two: "race_trace race_ops \<lparr>rs_maps = rs_maps race_start, rs_cpus = replicate 2 Idle\<rparr> (race_both @ race_reaped) s'"
    using s'(1) by (simp add: race_run_iff race_start_def)
  from nettop_race_exact [OF bounded wf empty two s'(2), of 7]
  have "tx_bytes (the_row race_ops (rs_maps s') 7) = 0"
    by (simp add: asked_def dropped_def strays_def bytes_of_def calls_of_def race_demo_simps)
  moreover from nettop_race_exact [OF bounded wf empty two s'(2), of 9]
  have "tx_bytes (the_row race_ops (rs_maps s') 9) = 8"
    by (simp add: asked_def dropped_def strays_def bytes_of_def calls_of_def race_demo_simps)
  ultimately show ?thesis using s(1) s'(1) one by blast
qed

end
