(* ===== verification/Packet.thy ===== *)
theory Packet
  imports Bpf_Prelude "HOL-Library.Monad_Syntax"
begin

text \<open>
  Packet bytes and bounds-checked header access, shared by the three datapath programs
  (17-xdp, 21-firewall, 23-ids). A frame is the byte list between \<open>ctx->data\<close> and
  \<open>ctx->data_end\<close>. A field read outside it is \<open>None\<close>: the invalid packet access for which
  the verifier rejects a program. A program that reads a field is therefore partial, and that
  it never faults is a theorem about its bounds checks.

  The locale \<open>packet_observer\<close> is the contract of a program that only looks: on every frame
  and state it finishes without a fault and returns one fixed verdict.
\<close>

section \<open>Constants and layouts\<close>

definition ETH_P_IP :: u16 where "ETH_P_IP = 0x0800"

definition ETH_P_IPV6 :: u16 where "ETH_P_IPV6 = 0x86DD"

definition ETH_P_ARP :: u16 where "ETH_P_ARP = 0x0806"

definition IPPROTO_ICMP :: u8 where "IPPROTO_ICMP = 1"

definition IPPROTO_TCP :: u8 where "IPPROTO_TCP = 6"

definition IPPROTO_UDP :: u8 where "IPPROTO_UDP = 17"

definition IPPROTO_ICMPV6 :: u8 where "IPPROTO_ICMPV6 = 58"

text \<open>
  Sizes and offsets of \<open>struct ethhdr\<close>, \<open>iphdr\<close>, \<open>ipv6hdr\<close>, \<open>udphdr\<close> and \<open>tcphdr\<close>
  (wire formats, from the kernel's \<open>vmlinux.h\<close>).
\<close>

abbreviation (input) sizeof_ethhdr :: nat where "sizeof_ethhdr \<equiv> 14"

abbreviation (input) sizeof_iphdr :: nat where "sizeof_iphdr \<equiv> 20"

abbreviation (input) sizeof_ipv6hdr :: nat where "sizeof_ipv6hdr \<equiv> 40"

abbreviation (input) sizeof_udphdr :: nat where "sizeof_udphdr \<equiv> 8"

abbreviation (input) sizeof_tcphdr :: nat where "sizeof_tcphdr \<equiv> 20"

abbreviation (input) off_h_proto :: nat where "off_h_proto \<equiv> 12"

abbreviation (input) off_protocol :: nat where "off_protocol \<equiv> 9"

abbreviation (input) off_nexthdr :: nat where "off_nexthdr \<equiv> 6"

abbreviation (input) off_saddr :: nat where "off_saddr \<equiv> 12"

abbreviation (input) off_daddr :: nat where "off_daddr \<equiv> 16"

abbreviation (input) off_dest :: nat where "off_dest \<equiv> 2"

lemmas packet_consts =
  ETH_P_IP_def ETH_P_IPV6_def ETH_P_ARP_def IPPROTO_ICMP_def IPPROTO_TCP_def IPPROTO_UDP_def
  IPPROTO_ICMPV6_def

datatype xdp_action = XDP_ABORTED | XDP_DROP | XDP_PASS | XDP_TX | XDP_REDIRECT

section \<open>Reading a frame\<close>

text \<open>
  \<open>hdr_past_end\<close> is \<open>(void *)(hdr + 1) > data_end\<close> for a header of \<open>n\<close> bytes at offset
  \<open>off\<close>. The reads give the host-order (little-endian) value of the bytes, as a C load does.
\<close>

definition hdr_past_end :: "bytes \<Rightarrow> nat \<Rightarrow> nat \<Rightarrow> bool" where
  "hdr_past_end data off n \<longleftrightarrow> length data < off + n"

definition rd8 :: "bytes \<Rightarrow> nat \<Rightarrow> u8 option" where
  "rd8 data i = (if i < length data then Some (data ! i) else None)"

definition rd16 :: "bytes \<Rightarrow> nat \<Rightarrow> u16 option" where
  "rd16 data i = (if i + 1 < length data then Some (le16 (data ! i) (data ! (i + 1))) else None)"

definition rd32 :: "bytes \<Rightarrow> nat \<Rightarrow> u32 option" where
  "rd32 data i =
     (if i + 3 < length data
      then Some (le32 (data ! i) (data ! (i + 1)) (data ! (i + 2)) (data ! (i + 3))) else None)"

lemma rd8_in [simp]: "i < length data \<Longrightarrow> rd8 data i = Some (data ! i)"
  by (simp add: rd8_def)

lemma rd16_in [simp]: "i + 1 < length data \<Longrightarrow> rd16 data i = Some (le16 (data ! i) (data ! (i + 1)))"
  by (simp add: rd16_def)

lemma rd32_in [simp]:
  "i + 3 < length data \<Longrightarrow>
   rd32 data i = Some (le32 (data ! i) (data ! (i + 1)) (data ! (i + 2)) (data ! (i + 3)))"
  by (simp add: rd32_def)

lemma not_hdr_past_end [simp]: "\<not> hdr_past_end data off n \<longleftrightarrow> off + n \<le> length data"
  by (auto simp: hdr_past_end_def)

text \<open>The two bytes of a big-endian field, as the wire has them, are the swapped host value.\<close>

definition be16_at :: "bytes \<Rightarrow> nat \<Rightarrow> u16" where
  "be16_at data i = le16 (data ! (i + 1)) (data ! i)"

lemma bswap16_field [simp]: "bswap16 (le16 (data ! i) (data ! Suc i)) = be16_at data i"
  by (simp add: be16_at_def)

lemma field_eq_htons: "le16 a b = bswap16 w \<longleftrightarrow> le16 b a = w"
  by (metis bswap16_bswap16 bswap16_le16)

text \<open>
  Frames as the wire has them: twelve bytes of MAC addresses, a big-endian ethertype, a
  payload. Every frame long enough to hold an Ethernet header has this form.
\<close>

definition eth_frame :: "bytes \<Rightarrow> u16 \<Rightarrow> bytes \<Rightarrow> bytes" where
  "eth_frame macs ethertype payload = macs @ [byte_at 1 ethertype, byte_at 0 ethertype] @ payload"

lemma eth_frame_length [simp]: "length (eth_frame macs et pl) = length macs + 2 + length pl"
  by (simp add: eth_frame_def)

lemma eth_frame_proto:
  "length macs = 12 \<Longrightarrow> be16_at (eth_frame macs et pl) 12 = et"
  by (simp add: eth_frame_def be16_at_def nth_append)

lemma eth_frame_payload:
  "length macs = 12 \<Longrightarrow> i < length pl \<Longrightarrow> eth_frame macs et pl ! (14 + i) = pl ! i"
  by (simp add: eth_frame_def nth_append)

lemma eth_frame_exhaust:
  assumes "14 \<le> length data"
  obtains macs et pl where "data = eth_frame macs et pl" "length macs = 12"
proof
  have "drop 12 data = [data ! 12, data ! 13] @ drop 14 data"
    using assms by (simp add: Cons_nth_drop_Suc numeral_eq_Suc)
  then show "data = eth_frame (take 12 data) (be16_at data 12) (drop 14 data)"
    using append_take_drop_id [of 12 data] by (simp add: eth_frame_def be16_at_def)
qed (use assms in simp)

section \<open>Programs that only observe\<close>

text \<open>Feeding a list of packets through a program, verdicts collected in order.\<close>

fun run_frames :: "('p \<Rightarrow> 's \<Rightarrow> ('v \<times> 's) option) \<Rightarrow> 'p list \<Rightarrow> 's \<Rightarrow> ('v list \<times> 's) option" where
  "run_frames prog [] s = Some ([], s)"
| "run_frames prog (p # ps) s =
     do { (v, s') \<leftarrow> prog p s; (vs, s'') \<leftarrow> run_frames prog ps s'; Some (v # vs, s'') }"

locale packet_observer =
  fixes prog :: "'p \<Rightarrow> 's \<Rightarrow> ('v \<times> 's) option" and verdict :: 'v
  assumes observes: "\<exists>s'. prog p s = Some (verdict, s')"
begin

lemma run_observes: "\<exists>s'. run_frames prog ps s = Some (replicate (length ps) verdict, s')"
proof (induction ps arbitrary: s)
  case (Cons p ps)
  from observes [of p s] obtain s1 where s1: "prog p s = Some (verdict, s1)" by blast
  from Cons.IH [of s1] obtain s2 where
    "run_frames prog ps s1 = Some (replicate (length ps) verdict, s2)" by blast
  with s1 show ?case by simp
qed simp

end

section \<open>Per-CPU tallies\<close>

text \<open>
  A \<open>PERCPU_ARRAY\<close> is one array per CPU. A program running on CPU \<open>c\<close> changes that CPU's
  copy only; user space reads the copies of all \<open>n\<close> CPUs and adds them up. The contract of
  one CPU's step is that it adds a known weight to every slot; the sum over the CPUs then
  counts all events, wherever they ran.
\<close>

fun percpu_run :: "('e \<Rightarrow> 'm \<Rightarrow> 'm) \<Rightarrow> (nat \<times> 'e) list \<Rightarrow> (nat \<Rightarrow> 'm) \<Rightarrow> (nat \<Rightarrow> 'm)" where
  "percpu_run step [] cpus = cpus"
| "percpu_run step ((c, e) # es) cpus = percpu_run step es (cpus(c := step e (cpus c)))"

locale percpu_tally =
  fixes read_slot :: "'m \<Rightarrow> 'k \<Rightarrow> 'a::len word"
    and step :: "'e \<Rightarrow> 'm \<Rightarrow> 'm"
    and weight :: "'e \<Rightarrow> 'k \<Rightarrow> 'a word"
  assumes read_step: "read_slot (step e m) k = read_slot m k + weight e k"
begin

lemma sum_cpus_step:
  assumes "c < n"
  shows "(\<Sum>d\<leftarrow>[0..<n]. read_slot ((cpus(c := step e (cpus c))) d) k) =
         (\<Sum>d\<leftarrow>[0..<n]. read_slot (cpus d) k) + weight e k"
proof -
  have "(\<Sum>d\<in>{0..<n}. read_slot ((cpus(c := step e (cpus c))) d) k) =
      read_slot (step e (cpus c)) k + (\<Sum>d\<in>{0..<n} - {c}. read_slot (cpus d) k)"
    using assms by (simp add: sum.remove [of _ c])
  also have "\<dots> = (\<Sum>d\<in>{0..<n}. read_slot (cpus d) k) + weight e k"
    using assms by (simp add: sum.remove [of "{0..<n}" c] read_step algebra_simps)
  finally show ?thesis
    by (simp add: sum_list_distinct_conv_sum_set)
qed

lemma sum_cpus_run:
  "(\<And>c e. (c, e) \<in> set es \<Longrightarrow> c < n) \<Longrightarrow>
   (\<Sum>d\<leftarrow>[0..<n]. read_slot (percpu_run step es cpus d) k) =
   (\<Sum>d\<leftarrow>[0..<n]. read_slot (cpus d) k) + (\<Sum>e\<leftarrow>map snd es. weight e k)"
proof (induction es arbitrary: cpus)
  case (Cons ce es)
  obtain c e where ce: "ce = (c, e)" by (cases ce)
  with Cons.prems have "c < n" by auto
  note sum_cpus_step [OF this, of cpus e k]
  moreover have "\<And>c e. (c, e) \<in> set es \<Longrightarrow> c < n"
    using Cons.prems by auto
  note Cons.IH [OF this]
  ultimately show ?case
    using ce by (simp add: algebra_simps del: fun_upd_apply)
qed simp

end

end
