(* ===== verification/Xdp_Count.thy ===== *)
theory Xdp_Count
  imports Packet Bpf_Maps
begin

text \<open>
  17-xdp: the XDP packet counter. \<open>xdp_classify\<close> and \<open>xdp_count\<close> are the kernel program
  \<open>xdp_count\<close> of \<open>xdpcount.bpf.c\<close>, \<open>xdp_report\<close> is one pass of the printing loop of
  \<open>xdpcount.c\<close>, \<open>default_iface\<close> its choice of an interface. The theorems show that the
  program never faults and never drops, which category each frame gets, and that the totals
  printed are the numbers of frames counted on all CPUs.
\<close>

section \<open>Categories\<close>

definition CAT_OTHER :: u32 where "CAT_OTHER = 0"

definition CAT_TCP :: u32 where "CAT_TCP = 1"

definition CAT_UDP :: u32 where "CAT_UDP = 2"

definition CAT_ICMP :: u32 where "CAT_ICMP = 3"

definition CAT_IPV4_OTHER :: u32 where "CAT_IPV4_OTHER = 4"

definition CAT_IPV6_OTHER :: u32 where "CAT_IPV6_OTHER = 5"

definition CAT_ARP :: u32 where "CAT_ARP = 6"

definition CAT_MAX :: nat where "CAT_MAX = 7"

lemmas cat_defs =
  CAT_OTHER_def CAT_TCP_def CAT_UDP_def CAT_ICMP_def CAT_IPV4_OTHER_def CAT_IPV6_OTHER_def
  CAT_ARP_def CAT_MAX_def

definition labels :: "u32 \<Rightarrow> string" where
  "labels cat =
     (if cat = CAT_OTHER then ''other'' else if cat = CAT_TCP then ''TCP''
      else if cat = CAT_UDP then ''UDP'' else if cat = CAT_ICMP then ''ICMP''
      else if cat = CAT_IPV4_OTHER then ''IPv4-other''
      else if cat = CAT_IPV6_OTHER then ''IPv6-other''
      else if cat = CAT_ARP then ''ARP'' else [])"

section \<open>The kernel program\<close>

text \<open>
  The parse up to the label \<open>done\<close>: the category the frame is counted in, \<open>None\<close> if a field
  were read outside the frame.
\<close>

definition xdp_classify :: "bytes \<Rightarrow> u32 option" where
  "xdp_classify data =
     (if hdr_past_end data 0 sizeof_ethhdr then Some CAT_OTHER
      else do {
        p \<leftarrow> rd16 data off_h_proto;
        let h_proto = bswap16 p;
        if h_proto = ETH_P_ARP then Some CAT_ARP
        else if h_proto = ETH_P_IP then
          (if hdr_past_end data sizeof_ethhdr sizeof_iphdr then Some CAT_OTHER
           else do {
             protocol \<leftarrow> rd8 data (sizeof_ethhdr + off_protocol);
             Some (if protocol = IPPROTO_TCP then CAT_TCP
                   else if protocol = IPPROTO_UDP then CAT_UDP
                   else if protocol = IPPROTO_ICMP then CAT_ICMP
                   else CAT_IPV4_OTHER)
           })
        else if h_proto = ETH_P_IPV6 then
          (if hdr_past_end data sizeof_ethhdr sizeof_ipv6hdr then Some CAT_IPV6_OTHER
           else do {
             nexthdr \<leftarrow> rd8 data (sizeof_ethhdr + off_nexthdr);
             Some (if nexthdr = IPPROTO_TCP then CAT_TCP
                   else if nexthdr = IPPROTO_UDP then CAT_UDP
                   else if nexthdr = IPPROTO_ICMPV6 then CAT_ICMP
                   else CAT_IPV6_OTHER)
           })
        else Some CAT_OTHER
      })"

definition xdp_count :: "('m, u32, u64) map_ops \<Rightarrow> bytes \<Rightarrow> 'm \<Rightarrow> (xdp_action \<times> 'm) option" where
  "xdp_count ops data m =
     do {
       cat \<leftarrow> xdp_classify data;
       Some (XDP_PASS,
             case map_lookup ops m cat of
               Some c \<Rightarrow> map_poke ops m cat (c + 1)
             | None \<Rightarrow> m)
     }"

section \<open>User space\<close>

text \<open>
  One round of the reporting loop: for each category read the per-CPU values (a failed read
  skips the category) and print the label with their sum, a 64-bit addition.
\<close>

definition xdp_report :: "('m, u32, u64) map_ops \<Rightarrow> nat \<Rightarrow> (nat \<Rightarrow> 'm) \<Rightarrow> (string \<times> u64) list" where
  "xdp_report ops ncpu cpus =
     concat (map (\<lambda>i. let cat = of_nat i in
         case those (map (\<lambda>c. map_lookup ops (cpus c) cat) [0..<ncpu]) of
           None \<Rightarrow> []
         | Some vals \<Rightarrow> [(labels cat, foldl (+) 0 vals)])
       [0..<CAT_MAX])"

text \<open>
  The first interface of \<open>if_nameindex\<close> that is not \<open>lo\<close>, cut to \<open>IF_NAMESIZE - 1\<close>
  characters; \<open>lo\<close> if there is none or the call failed. The list ends at its null entry.
\<close>

fun first_iface :: "(nat \<times> string option) list \<Rightarrow> string option" where
  "first_iface [] = None"
| "first_iface ((idx, name) # es) =
     (if idx \<noteq> 0 \<or> name \<noteq> None then
        (case name of
           Some s \<Rightarrow> if s \<noteq> ''lo'' then Some (snprintf_str 16 s) else first_iface es
         | None \<Rightarrow> first_iface es)
      else None)"

definition default_iface :: "(nat \<times> string option) list option \<Rightarrow> string" where
  "default_iface idx =
     (case idx of
        None \<Rightarrow> ''lo''
      | Some es \<Rightarrow> (case first_iface es of Some s \<Rightarrow> s | None \<Rightarrow> ''lo''))"

section \<open>Classification\<close>

text \<open>The category of a frame by what its ethertype and payload say, with no offsets.\<close>

definition frame_category :: "u16 \<Rightarrow> bytes \<Rightarrow> u32" where
  "frame_category et pl =
     (if et = ETH_P_ARP then CAT_ARP
      else if et = ETH_P_IP then
        (if length pl < 20 then CAT_OTHER
         else if pl ! 9 = 6 then CAT_TCP else if pl ! 9 = 17 then CAT_UDP
         else if pl ! 9 = 1 then CAT_ICMP else CAT_IPV4_OTHER)
      else if et = ETH_P_IPV6 then
        (if length pl < 40 then CAT_IPV6_OTHER
         else if pl ! 6 = 6 then CAT_TCP else if pl ! 6 = 17 then CAT_UDP
         else if pl ! 6 = 58 then CAT_ICMP else CAT_IPV6_OTHER)
      else CAT_OTHER)"

lemma xdp_classify_short: "length data < 14 \<Longrightarrow> xdp_classify data = Some CAT_OTHER"
  by (simp add: xdp_classify_def hdr_past_end_def)

lemma xdp_classify_frame:
  assumes "length macs = 12"
  shows "xdp_classify (eth_frame macs et pl) = Some (frame_category et pl)"
proof -
  define d where "d = eth_frame macs et pl"
  have len: "length d = 14 + length pl" and et: "be16_at d 12 = et"
    using assms by (simp_all add: d_def eth_frame_proto)
  have ip: "rd8 d 23 = Some (pl ! 9)" if "20 \<le> length pl"
    using eth_frame_payload [OF assms, of 9 pl et] that len by (simp flip: d_def)
  have ip6: "rd8 d 20 = Some (pl ! 6)" if "40 \<le> length pl"
    using eth_frame_payload [OF assms, of 6 pl et] that len by (simp flip: d_def)
  have "rd16 d 12 = Some (bswap16 et)"
    using len by (simp add: rd16_def be16_at_def flip: et)
  then show ?thesis
    using len ip ip6
    by (cases "20 \<le> length pl"; cases "40 \<le> length pl")
       (simp_all add: xdp_classify_def frame_category_def hdr_past_end_def not_le
          IPPROTO_ICMP_def IPPROTO_TCP_def IPPROTO_UDP_def IPPROTO_ICMPV6_def flip: d_def)
qed

lemma frame_category_bound: "unat (frame_category et pl) < CAT_MAX"
  by (simp add: frame_category_def cat_defs)

lemma xdp_classify_total: "\<exists>cat. xdp_classify data = Some cat \<and> unat cat < CAT_MAX"
proof (cases "length data < 14")
  case True
  then show ?thesis by (simp add: xdp_classify_short cat_defs)
next
  case False
  then obtain macs et pl where "data = eth_frame macs et pl" "length macs = 12"
    by (metis eth_frame_exhaust not_less)
  then show ?thesis
    using xdp_classify_frame frame_category_bound by blast
qed

section \<open>The observer contract\<close>

interpretation xdp_obs: packet_observer "xdp_count ops" XDP_PASS
proof
  fix data m
  show "\<exists>m'. xdp_count ops data m = Some (XDP_PASS, m')"
    using xdp_classify_total [of data] by (auto simp: xdp_count_def)
qed

section \<open>Counting on every CPU\<close>

text \<open>The change a frame makes to the counters of the CPU that received it.\<close>

definition xdp_cpu_step :: "('m, u32, u64) map_ops \<Rightarrow> bytes \<Rightarrow> 'm \<Rightarrow> 'm" where
  "xdp_cpu_step ops data m = (case xdp_count ops data m of Some (_, m') \<Rightarrow> m' | None \<Rightarrow> m)"

definition slot_value :: "('m, u32, 'v) map_ops \<Rightarrow> 'v \<Rightarrow> 'm \<Rightarrow> u32 \<Rightarrow> 'v" where
  "slot_value ops d m k = (case map_lookup ops m k of Some v \<Rightarrow> v | None \<Rightarrow> d)"

locale xdp_counts_map = bpf_array ops CAT_MAX for ops :: "('m, u32, u64) map_ops"

sublocale xdp_counts_map \<subseteq> tally: percpu_tally "slot_value ops 0" "xdp_cpu_step ops"
    "\<lambda>p k. if xdp_classify p = Some k then 1 else 0"
proof
  fix data m and k :: u32
  obtain cat where cat: "xdp_classify data = Some cat" "unat cat < CAT_MAX"
    using xdp_classify_total by blast
  then obtain c where c: "map_lookup ops m cat = Some c"
    using array_present by blast
  show "slot_value ops 0 (xdp_cpu_step ops data m) k =
      slot_value ops 0 m k + (if xdp_classify data = Some k then 1 else 0)"
    using cat c array_poke [OF c] by (auto simp: slot_value_def xdp_cpu_step_def xdp_count_def)
qed

context xdp_counts_map
begin

lemma report_sums:
  "xdp_report ops n cpus =
     map (\<lambda>i. (labels (of_nat i), \<Sum>c\<leftarrow>[0..<n]. slot_value ops 0 (cpus c) (of_nat i))) [0..<CAT_MAX]"
proof -
  have row: "those (map (\<lambda>c. map_lookup ops (cpus c) (of_nat i)) cs) =
      Some (map (\<lambda>c. slot_value ops 0 (cpus c) (of_nat i)) cs)" if "i < CAT_MAX" for i cs
  proof (induction cs)
    case (Cons c cs)
    have "unat (of_nat i :: u32) < CAT_MAX"
      using that by (simp add: CAT_MAX_def unat_of_nat)
    with array_present obtain v where "map_lookup ops (cpus c) (of_nat i) = Some v" by blast
    with Cons show ?case by (simp add: slot_value_def)
  qed simp
  show ?thesis
    unfolding xdp_report_def Let_def
    by (rule concat_map_singleton) (simp add: row foldl_plus_sum_list)
qed

lemma report_run:
  assumes "\<And>c k. unat k < CAT_MAX \<Longrightarrow> map_lookup ops (cpus c) k = Some 0"
    and "\<And>c p. (c, p) \<in> set rx \<Longrightarrow> c < n"
  shows "xdp_report ops n (percpu_run (xdp_cpu_step ops) rx cpus) =
    map (\<lambda>i. (labels (of_nat i),
              of_nat (length (filter (\<lambda>p. xdp_classify p = Some (of_nat i)) (map snd rx)))))
      [0..<CAT_MAX]"
proof -
  have zero: "slot_value ops 0 (cpus c) (of_nat i) = 0" if "i < CAT_MAX" for c i
    using assms(1) [of "of_nat i" c] that by (simp add: slot_value_def CAT_MAX_def unat_of_nat)
  show ?thesis
    unfolding report_sums
    by (rule map_cong [OF refl])
       (simp add: tally.sum_cpus_run [OF assms(2)] zero sum_list_indicator comp_def)
qed

end

interpretation xdp_model: xdp_counts_map "array_ops CAT_MAX :: (u32 \<Rightarrow> u64, u32, u64) map_ops"
  by unfold_locales

section \<open>Properties\<close>

text \<open>
  The counter is a pure observer: on any sequence of received frames, of any length and
  content, it never reads outside a frame and lets every frame pass.
\<close>

theorem xdp_count_never_drops:
  "\<exists>m'. run_frames (xdp_count ops) frames m = Some (replicate (length frames) XDP_PASS, m')"
  by (rule xdp_obs.run_observes)

text \<open>The category of any sequence of bytes on the wire; one too short for an Ethernet header is other.\<close>

definition wire_category :: "bytes \<Rightarrow> u32" where
  "wire_category data =
     (if length data < 14 then CAT_OTHER else frame_category (be16_at data 12) (drop 14 data))"

lemma xdp_classify_wire: "xdp_classify data = Some (wire_category data)"
proof (cases "length data < 14")
  case False
  then obtain macs et pl where "data = eth_frame macs et pl" "length macs = 12"
    using eth_frame_exhaust [of data] by (auto simp: not_less)
  then show ?thesis
    using xdp_classify_frame [of macs et pl] by (simp add: wire_category_def eth_frame_proto) (simp add: eth_frame_def)
qed (simp add: wire_category_def xdp_classify_short)

text \<open>
  C16. The printed table is exact: starting from cleared counters, after frames received on any
  of the CPUs in any order, the row of each category is the number of frames of that category,
  modulo the 64-bit counter. The category is decided by the ethertype and the protocol byte of the
  IPv4 or IPv6 header; a frame too short for its IPv4 header counts as other, one too short for
  its IPv6 header as IPv6-other.
\<close>

theorem xdp_report_counts_frames:
  assumes "bpf_array ops CAT_MAX"
    and "\<And>c k. unat k < CAT_MAX \<Longrightarrow> map_lookup ops (cpus c) k = Some 0"
    and "\<And>c p. (c, p) \<in> set rx \<Longrightarrow> c < ncpu"
  shows "xdp_report ops ncpu (percpu_run (xdp_cpu_step ops) rx cpus) =
    map (\<lambda>i. (labels (of_nat i), of_nat (length (filter (\<lambda>p. wire_category p = of_nat i) (map snd rx)))))
      [0..<CAT_MAX]"
proof -
  have "xdp_counts_map ops"
    using assms(1) by (simp add: xdp_counts_map_def)
  from xdp_counts_map.report_run [OF this assms(2,3)] show ?thesis
    by (simp add: xdp_classify_wire)
qed

theorem xdp_report_counts_frames_witness:
  "xdp_report (array_ops CAT_MAX) 2
     (percpu_run (xdp_cpu_step (array_ops CAT_MAX)) [(1, []), (0, [1]), (1, [2])] (\<lambda>_ _. 0)) =
   map (\<lambda>i. (labels (of_nat i), if i = 0 then 3 else 0)) [0..<CAT_MAX]"
proof -
  have "xdp_report (array_ops CAT_MAX) 2
      (percpu_run (xdp_cpu_step (array_ops CAT_MAX)) [(1, []), (0, [1]), (1, [2])] (\<lambda>_ _. 0)) =
    map (\<lambda>i. (labels (of_nat i), of_nat (length (filter (\<lambda>p. wire_category p = of_nat i) [[], [1], [2]]))))
      [0..<CAT_MAX]"
    by (subst xdp_report_counts_frames [OF array_model.bpf_array_axioms])
       (auto simp: array_ops_def arr_lookup_def)
  also have "\<dots> = map (\<lambda>i. (labels (of_nat i), if i = 0 then 3 else 0)) [0..<CAT_MAX]"
    by (rule map_cong [OF refl])
       (auto simp: wire_category_def CAT_OTHER_def CAT_MAX_def of_nat_eq_0_iff word_of_nat_eq_0_iff dvd_def)
  finally show ?thesis .
qed

end
