(* ===== verification/Xdp_Firewall.thy ===== *)
theory Xdp_Firewall
  imports Packet Bpf_Maps
begin

text \<open>
  21-firewall: the XDP firewall. \<open>xdp_fw\<close> is the kernel program of \<open>xdpfw.bpf.c\<close>;
  \<open>fw_ports\<close>, \<open>fw_install\<close> and \<open>fw_report\<close> are the argument loop, the rule installation
  and one round of the reporting loop of \<open>main\<close> in \<open>xdpfw.c\<close>. The theorems show that the
  program never reads outside a frame, that it drops exactly the IPv4 TCP and UDP frames
  whose destination port has a rule, and that the printed counters are the numbers of
  dropped frames.
\<close>

definition MAX_RULES :: nat where "MAX_RULES = 64"

section \<open>The kernel program\<close>

text \<open>
  The destination port of the layer-4 header, which is taken to start right after a 20-byte
  IP header. The outer option is a fault; the inner one is the early \<open>return XDP_PASS\<close>.
\<close>

definition fw_l4_dport :: "bytes \<Rightarrow> u8 \<Rightarrow> u16 option option" where
  "fw_l4_dport data protocol =
     (let l4 = sizeof_ethhdr + sizeof_iphdr in
      if protocol = IPPROTO_UDP then
        (if hdr_past_end data l4 sizeof_udphdr then Some None
         else do { d \<leftarrow> rd16 data (l4 + off_dest); Some (Some (bswap16 d)) })
      else if protocol = IPPROTO_TCP then
        (if hdr_past_end data l4 sizeof_tcphdr then Some None
         else do { d \<leftarrow> rd16 data (l4 + off_dest); Some (Some (bswap16 d)) })
      else Some None)"

definition xdp_fw :: "('m, u16, u64) map_ops \<Rightarrow> bytes \<Rightarrow> 'm \<Rightarrow> (xdp_action \<times> 'm) option" where
  "xdp_fw ops data m =
     (if hdr_past_end data 0 sizeof_ethhdr then Some (XDP_PASS, m)
      else do {
        h_proto \<leftarrow> rd16 data off_h_proto;
        if h_proto \<noteq> bswap16 ETH_P_IP then Some (XDP_PASS, m)
        else if hdr_past_end data sizeof_ethhdr sizeof_iphdr then Some (XDP_PASS, m)
        else do {
          protocol \<leftarrow> rd8 data (sizeof_ethhdr + off_protocol);
          l4 \<leftarrow> fw_l4_dport data protocol;
          case l4 of
            None \<Rightarrow> Some (XDP_PASS, m)
          | Some dport \<Rightarrow>
              (case map_lookup ops m dport of
                 Some dropped \<Rightarrow> Some (XDP_DROP, map_poke ops m dport (dropped + 1))
               | None \<Rightarrow> Some (XDP_PASS, m))
        }
      })"

section \<open>User space\<close>

text \<open>
  The ports to block: \<open>argv[2..]\<close>, at most \<open>MAX_RULES\<close> of them, or 11111. An argument whose value does
  not fit an \<open>int\<close>, for which C leaves \<open>atoi\<close> undefined, is taken modulo \<open>2 ^ 16\<close> here, as the
  truncation of a \<open>long\<close> gives.
\<close>

definition fw_ports :: "string list \<Rightarrow> u16 list" where
  "fw_ports argv =
     (let ports = map (\<lambda>a. of_int (c_atoi a)) (take MAX_RULES (drop 2 argv))
      in if ports = [] then [11111] else ports)"

text \<open>Installing the rules stops at the first failing update; the result is \<open>err\<close>.\<close>

fun fw_install :: "('m, u16, u64) map_ops \<Rightarrow> u16 list \<Rightarrow> 'm \<Rightarrow> int \<times> 'm" where
  "fw_install ops [] m = (0, m)"
| "fw_install ops (p # ps) m =
     (let (r, m') = map_update ops m p 0 BPF_ANY in if r \<noteq> 0 then (1, m') else fw_install ops ps m')"

definition fw_report :: "('m, u16, u64) map_ops \<Rightarrow> u16 list \<Rightarrow> 'm \<Rightarrow> (u16 \<times> u64) list" where
  "fw_report ops ports m =
     map (\<lambda>p. (p, case map_lookup ops m p of Some cnt \<Rightarrow> cnt | None \<Rightarrow> 0)) ports"

section \<open>What the firewall matches\<close>

text \<open>
  The destination port of a frame by what its fields say: an IPv4 ethertype, a complete IP
  header with protocol 17 or 6, and a complete UDP or TCP header behind it.
\<close>

definition l4_dport :: "u16 \<Rightarrow> bytes \<Rightarrow> u16 option" where
  "l4_dport et pl =
     (if et = 0x0800 \<and> (20 \<le> length pl \<and> pl ! 9 = 17 \<and> 28 \<le> length pl
                        \<or> 20 \<le> length pl \<and> pl ! 9 = 6 \<and> 40 \<le> length pl)
      then Some (be16_at pl 22) else None)"

definition frame_dport :: "bytes \<Rightarrow> u16 option" where
  "frame_dport data = (if length data < 14 then None else l4_dport (be16_at data 12) (drop 14 data))"

definition fw_decide :: "('m, u16, u64) map_ops \<Rightarrow> u16 option \<Rightarrow> 'm \<Rightarrow> xdp_action \<times> 'm" where
  "fw_decide ops port m =
     (case port of
        None \<Rightarrow> (XDP_PASS, m)
      | Some p \<Rightarrow> (case map_lookup ops m p of
           None \<Rightarrow> (XDP_PASS, m)
         | Some c \<Rightarrow> (XDP_DROP, map_poke ops m p (c + 1))))"

lemma frame_dport_eth: "length macs = 12 \<Longrightarrow> frame_dport (eth_frame macs et pl) = l4_dport et pl"
  by (simp add: frame_dport_def eth_frame_proto) (simp add: eth_frame_def)

lemma be16_at_drop: "n \<le> length data \<Longrightarrow> be16_at (drop n data) i = be16_at data (n + i)"
  by (simp add: be16_at_def)

text \<open>The program is the field-level decision: the bounds checks suffice and change nothing.\<close>

lemma xdp_fw_decide: "xdp_fw ops data m = Some (fw_decide ops (frame_dport data) m)"
proof (cases "length data < 14")
  case True
  then show ?thesis
    by (simp add: xdp_fw_def frame_dport_def hdr_past_end_def fw_decide_def)
next
  case False
  define pl where "pl = drop 14 data"
  have len: "length data = 14 + length pl" and pl: "\<And>i. i < length pl \<Longrightarrow> data ! (14 + i) = pl ! i"
    using False by (auto simp: pl_def)
  have proto: "rd8 data 23 = Some (pl ! 9)" if "20 \<le> length pl"
    using pl [of 9] len that by simp
  have port: "rd16 data 36 = Some (bswap16 (be16_at pl 22))" if "28 \<le> length pl"
    using pl [of 22] pl [of 23] len that by (simp add: be16_at_def)
  have et: "rd16 data 12 = Some (bswap16 (be16_at data 12))"
    using len by (simp add: be16_at_def)
  show ?thesis
    using False len et proto port
    by (cases "20 \<le> length pl"; cases "28 \<le> length pl"; cases "40 \<le> length pl")
       (auto simp: xdp_fw_def fw_l4_dport_def frame_dport_def l4_dport_def fw_decide_def
          hdr_past_end_def packet_consts Let_def not_le simp flip: pl_def split: option.splits)
qed

text \<open>
  The verdicts and the map at each report, when \<open>bursts\<close> are the frames received between one report
  and the next.
\<close>

fun fw_snaps :: "('m, u16, u64) map_ops \<Rightarrow> bytes list list \<Rightarrow> 'm \<Rightarrow> (xdp_action list \<times> 'm) list" where
  "fw_snaps ops [] m = []"
| "fw_snaps ops (fs # bursts) m =
     (case run_frames (xdp_fw ops) fs m of None \<Rightarrow> [] | Some (vs, m') \<Rightarrow> (vs, m') # fw_snaps ops bursts m')"

text \<open>The verdict the rules name for a frame.\<close>

definition rule_verdict :: "u16 list \<Rightarrow> bytes \<Rightarrow> xdp_action" where
  "rule_verdict ports f = (if \<exists>p \<in> set ports. frame_dport f = Some p then XDP_DROP else XDP_PASS)"

text \<open>The frames to a port that were dropped, by the verdicts they got.\<close>

definition dropped_on :: "u16 \<Rightarrow> xdp_action list \<Rightarrow> bytes list \<Rightarrow> nat" where
  "dropped_on p vs fs = length (filter (\<lambda>(v, f). v = XDP_DROP \<and> frame_dport f = Some p) (zip vs fs))"

definition frames_to :: "u16 \<Rightarrow> bytes list \<Rightarrow> nat" where
  "frames_to p fs = length (filter (\<lambda>f. frame_dport f = Some p) fs)"

section \<open>Rules installed in a hash map\<close>

locale fw_rules = bpf_hash ops for ops :: "('m, u16, u64) map_ops"
begin

lemma install_lookup:
  "fw_install ops ps m = (0, m') \<Longrightarrow>
   map_lookup ops m' = (\<lambda>p. if p \<in> set ps then Some 0 else map_lookup ops m p)"
proof (induction ps arbitrary: m)
  case (Cons p ps)
  obtain r m1 where u: "map_update ops m p 0 BPF_ANY = (r, m1)" by (cases "map_update ops m p 0 BPF_ANY")
  with Cons.prems have "r = 0" and rest: "fw_install ops ps m1 = (0, m')"
    by (auto split: if_splits)
  with u have "map_lookup ops m1 = (map_lookup ops m)(p \<mapsto> 0)"
    by (simp add: hash_update)
  with Cons.IH [OF rest] show ?case by auto
qed auto

text \<open>One frame: the verdict, and every counter after it.\<close>

lemma decide_lookup:
  "map_lookup ops (snd (fw_decide ops port m)) p =
     map_option (\<lambda>c. if port = Some p then c + 1 else c) (map_lookup ops m p)"
  by (cases "map_lookup ops m p")
     (auto simp: fw_decide_def hash_poke split: option.splits)

lemma decide_verdict:
  "fst (fw_decide ops port m) =
     (if \<exists>p. port = Some p \<and> p \<in> dom (map_lookup ops m) then XDP_DROP else XDP_PASS)"
  by (auto simp: fw_decide_def split: option.splits)

lemma run_counts:
  "\<exists>m'. run_frames (xdp_fw ops) fs m =
      Some (map (\<lambda>f. if \<exists>p. frame_dport f = Some p \<and> p \<in> dom (map_lookup ops m)
                     then XDP_DROP else XDP_PASS) fs, m') \<and>
    (\<forall>p. map_lookup ops m' p =
       map_option (\<lambda>c. c + of_nat (length (filter (\<lambda>f. frame_dport f = Some p) fs))) (map_lookup ops m p))"
proof (induction fs arbitrary: m)
  case Nil
  then show ?case by (simp add: option.map_ident)
next
  case (Cons f fs)
  define m1 where "m1 = snd (fw_decide ops (frame_dport f) m)"
  have look: "map_lookup ops m1 p =
      map_option (\<lambda>c. if frame_dport f = Some p then c + 1 else c) (map_lookup ops m p)" for p
    by (simp add: m1_def decide_lookup)
  then have dom: "dom (map_lookup ops m1) = dom (map_lookup ops m)"
    by (auto simp: dom_def)
  have step: "xdp_fw ops f m = Some (fst (fw_decide ops (frame_dport f) m), m1)"
    by (simp add: xdp_fw_decide m1_def)
  from Cons.IH [of m1] obtain m' where m':
    "run_frames (xdp_fw ops) fs m1 =
      Some (map (\<lambda>f. if \<exists>p. frame_dport f = Some p \<and> p \<in> dom (map_lookup ops m)
                     then XDP_DROP else XDP_PASS) fs, m')"
    "\<And>p. map_lookup ops m' p =
       map_option (\<lambda>c. c + of_nat (length (filter (\<lambda>f. frame_dport f = Some p) fs))) (map_lookup ops m1 p)"
    unfolding dom by blast
  show ?case
  proof (intro exI [of _ m'] conjI allI)
    show "run_frames (xdp_fw ops) (f # fs) m =
      Some (map (\<lambda>f. if \<exists>p. frame_dport f = Some p \<and> p \<in> dom (map_lookup ops m)
                     then XDP_DROP else XDP_PASS) (f # fs), m')"
      using step m'(1) by (simp add: decide_verdict)
    show "map_lookup ops m' p =
       map_option (\<lambda>c. c + of_nat (length (filter (\<lambda>f. frame_dport f = Some p) (f # fs))))
         (map_lookup ops m p)" for p
      using m'(2) [of p] look [of p] by (cases "map_lookup ops m p") (auto simp: algebra_simps)
  qed
qed

text \<open>The verdicts and the reports over a run: each report shows the frames to its ports so far.\<close>

lemma snaps_report:
  "(\<And>p. map_lookup ops m p = (if p \<in> set ports then Some (of_nat (frames_to p fs)) else None)) \<Longrightarrow>
   map fst (fw_snaps ops bursts m) = map (map (rule_verdict ports)) bursts \<and>
   map (fw_report ops ports \<circ> snd) (fw_snaps ops bursts m) =
   map (\<lambda>i. map (\<lambda>p. (p, of_nat (frames_to p (fs @ concat (take (Suc i) bursts))))) ports) [0..<length bursts]"
proof (induction bursts arbitrary: m fs)
  case (Cons b bs)
  have "(\<lambda>f. if \<exists>p. frame_dport f = Some p \<and> p \<in> dom (map_lookup ops m) then XDP_DROP else XDP_PASS) = rule_verdict ports"
    by (auto simp: rule_verdict_def fun_eq_iff Cons.prems split: if_splits)
  with run_counts [of b m] obtain m' where m': "run_frames (xdp_fw ops) b m = Some (map (rule_verdict ports) b, m')"
    "\<And>p. map_lookup ops m' p = map_option (\<lambda>c. c + of_nat (frames_to p b)) (map_lookup ops m p)"
    by (auto simp: frames_to_def)
  then have look: "map_lookup ops m' p = (if p \<in> set ports then Some (of_nat (frames_to p (fs @ b))) else None)" for p
    using Cons.prems [of p] by (simp add: frames_to_def)
  note rest = Cons.IH [OF look]
  moreover have "fw_report ops ports m' = map (\<lambda>p. (p, of_nat (frames_to p (fs @ b)))) ports"
    by (simp add: fw_report_def look)
  moreover have "[0..<length (b # bs)] = 0 # map Suc [0..<length bs]"
    by (simp only: length_Cons map_Suc_upt upt_conv_Cons zero_less_Suc)
  ultimately show ?case
    using m'(1) by (simp del: upt_Suc)
qed simp

lemma dropped_frames: "p \<in> set ports \<Longrightarrow> dropped_on p (map (rule_verdict ports) fs) fs = frames_to p fs"
  by (induction fs) (auto simp: dropped_on_def frames_to_def rule_verdict_def)

end

interpretation fw_model: fw_rules "hash_ops :: ((u16, u64) amap, u16, u64) map_ops"
  by unfold_locales

text \<open>The blocklist as the program declares it has an entry for every port the loader takes.\<close>

definition blocklist_map :: "(u16, u64) amap" where
  "blocklist_map = amap_empty MAX_RULES"

lemma length_fw_ports: "length (fw_ports argv) \<le> MAX_RULES"
  by (auto simp: fw_ports_def Let_def MAX_RULES_def)

locale fw_bounded = bounded: bpf_bounded ops cap wf_map for ops :: "('m, u16, u64) map_ops" and cap wf_map

sublocale fw_bounded \<subseteq> fw_rules ops ..

context fw_bounded
begin

lemma install_fits:
  "wf_map m \<Longrightarrow> dom (map_lookup ops m) \<subseteq> K \<Longrightarrow> set ps \<subseteq> K \<Longrightarrow> finite K \<Longrightarrow> card K \<le> cap \<Longrightarrow>
   fst (fw_install ops ps m) = 0"
proof (induction ps arbitrary: m)
  case (Cons p ps)
  let ?u = "map_update ops m p 0 BPF_ANY"
  have "fst ?u = 0"
    using bounded.bounded_fits [of m K p 0 BPF_ANY] bounded.hash_overwrite [of m p] Cons.prems
    by (cases "map_lookup ops m p") auto
  moreover have "dom (map_lookup ops (snd ?u)) \<subseteq> K"
    using bounded.bounded_any [of m K p 0] Cons.prems by auto
  ultimately show ?case
    using Cons.IH [of "snd ?u"] Cons.prems bounded.bounded_update_wf [of m p 0 BPF_ANY]
    by (simp add: split_beta)
qed simp

text \<open>The rules of any command line can be installed.\<close>

lemma install_argv:
  assumes "wf_map m" "\<And>p. map_lookup ops m p = None" "MAX_RULES \<le> cap"
  shows "\<exists>m'. fw_install ops (fw_ports argv) m = (0, m') \<and>
    map_lookup ops m' = (\<lambda>p. if p \<in> set (fw_ports argv) then Some 0 else None)"
proof -
  have "card (set (fw_ports argv)) \<le> cap"
    using card_length [of "fw_ports argv"] length_fw_ports [of argv] assms(3) by linarith
  moreover have "dom (map_lookup ops m) = {}"
    using assms(2) by (auto simp: domIff)
  ultimately have "fst (fw_install ops (fw_ports argv) m) = 0"
    using install_fits [of m "set (fw_ports argv)" "fw_ports argv"] assms(1) by simp
  then obtain m' where m': "fw_install ops (fw_ports argv) m = (0, m')"
    by (metis prod.collapse)
  with install_lookup [OF m'] assms(2) show ?thesis by (auto simp: fun_eq_iff)
qed

end

interpretation fw_bounded_model: fw_bounded "hash_ops :: ((u16, u64) amap, u16, u64) map_ops" n "amap_wf n"
  by (rule fw_bounded.intro) (rule bounded_model.bpf_bounded_axioms)

section \<open>Properties\<close>

text \<open>
  The firewall drops exactly the frames its rules name: a frame with an Ethernet header is
  dropped if and only if its ethertype is IPv4, it has a complete IP header with protocol UDP or
  TCP and a complete header of that protocol, and the destination port is a key of the
  blocklist; every other frame passes and leaves the blocklist untouched. No read leaves the
  frame on any input, so a verdict is always returned.
\<close>

theorem xdp_fw_drops_exactly:
  assumes "length macs = 12"
  shows "xdp_fw ops (eth_frame macs ethertype payload) m =
    (case l4_dport ethertype payload of
       Some port \<Rightarrow> (case map_lookup ops m port of
           Some n \<Rightarrow> Some (XDP_DROP, map_poke ops m port (n + 1))
         | None \<Rightarrow> Some (XDP_PASS, m))
     | None \<Rightarrow> Some (XDP_PASS, m))"
  using assms by (simp add: xdp_fw_decide frame_dport_eth fw_decide_def split: option.splits)

theorem xdp_fw_drops_exactly_witness:
  "xdp_fw hash_ops (eth_frame (replicate 12 0) 0x0800
       (replicate 9 0 @ [17] @ replicate 12 0 @ [0x2B, 0x67] @ replicate 4 0))
     \<lparr>am_max = 64, am_entries = [(11111, 4)]\<rparr> =
   Some (XDP_DROP, \<lparr>am_max = 64, am_entries = [(11111, 5)]\<rparr>)"
  by (subst xdp_fw_drops_exactly)
     (simp_all add: l4_dport_def nth_append be16_at_def le16_def hash_ops_def amap_defs)



end
