(* ===== verification/Tc_Stat.thy ===== *)
theory Tc_Stat
  imports Xdp_Count
begin

text \<open>
  18-tc: packet and byte counts at ingress and egress. \<open>account\<close>, \<open>tc_ingress\<close> and
  \<open>tc_egress\<close> are the programs of \<open>tcstat.bpf.c\<close>, \<open>tc_report\<close> is one round of the
  reporting loop of \<open>tcstat.c\<close>. A packet is its \<open>skb->len\<close>, the only field read. The
  theorems show that every packet passes and that the printed packets and bytes are those of
  the direction, over all CPUs.
\<close>

record datarec =
  packets :: u64
  bytes_total :: u64

definition TC_ACT_OK :: int where "TC_ACT_OK = 0"

definition DIR_INGRESS :: u32 where "DIR_INGRESS = 0"

definition DIR_EGRESS :: u32 where "DIR_EGRESS = 1"

definition DIR_MAX :: nat where "DIR_MAX = 2"

definition dir_label :: "u32 \<Rightarrow> string" where
  "dir_label d = (if d = DIR_INGRESS then ''ingress'' else if d = DIR_EGRESS then ''egress'' else [])"

section \<open>The kernel programs\<close>

definition account :: "('m, u32, datarec) map_ops \<Rightarrow> u32 \<Rightarrow> u32 \<Rightarrow> 'm \<Rightarrow> int \<times> 'm" where
  "account ops dir skb_len m =
     (TC_ACT_OK,
      case map_lookup ops m dir of
        Some rec \<Rightarrow> map_poke ops m dir
          (rec\<lparr>packets := packets rec + 1, bytes_total := bytes_total rec + ucast skb_len\<rparr>)
      | None \<Rightarrow> m)"

definition tc_ingress :: "('m, u32, datarec) map_ops \<Rightarrow> u32 \<Rightarrow> 'm \<Rightarrow> int \<times> 'm" where
  "tc_ingress ops skb_len m = account ops DIR_INGRESS skb_len m"

definition tc_egress :: "('m, u32, datarec) map_ops \<Rightarrow> u32 \<Rightarrow> 'm \<Rightarrow> int \<times> 'm" where
  "tc_egress ops skb_len m = account ops DIR_EGRESS skb_len m"

section \<open>User space\<close>

definition tc_report :: "('m, u32, datarec) map_ops \<Rightarrow> nat \<Rightarrow> (nat \<Rightarrow> 'm) \<Rightarrow> (string \<times> u64 \<times> u64) list" where
  "tc_report ops ncpu cpus =
     concat (map (\<lambda>i. let d = of_nat i in
         case those (map (\<lambda>c. map_lookup ops (cpus c) d) [0..<ncpu]) of
           None \<Rightarrow> []
         | Some recs \<Rightarrow>
             [(dir_label d,
               foldl (\<lambda>(pkts, bts) r. (pkts + packets r, bts + bytes_total r)) (0, 0) recs)])
       [0..<DIR_MAX])"

text \<open>The choice of an interface is the same text as in \<open>xdpcount.c\<close>.\<close>

definition tc_default_iface :: "(nat \<times> string option) list option \<Rightarrow> string" where
  "tc_default_iface idx = default_iface idx"

section \<open>Packets at either hook\<close>

datatype tc_hook = Ingress | Egress

definition tc_prog :: "('m, u32, datarec) map_ops \<Rightarrow> tc_hook \<times> u32 \<Rightarrow> 'm \<Rightarrow> int \<times> 'm" where
  "tc_prog ops p m =
     (case p of (Ingress, len) \<Rightarrow> tc_ingress ops len m | (Egress, len) \<Rightarrow> tc_egress ops len m)"

fun hook_dir :: "tc_hook \<Rightarrow> u32" where
  "hook_dir Ingress = DIR_INGRESS"
| "hook_dir Egress = DIR_EGRESS"

lemma tc_prog_account: "tc_prog ops (h, len) m = account ops (hook_dir h) len m"
  by (cases h) (simp_all add: tc_prog_def tc_ingress_def tc_egress_def)

lemma hook_dir_bound: "unat (hook_dir h) < DIR_MAX"
  by (cases h) (simp_all add: DIR_INGRESS_def DIR_EGRESS_def DIR_MAX_def)

lemma foldl_datarec:
  "foldl (\<lambda>(p, b) r. (p + packets r, b + bytes_total r)) (p0, b0) rs =
     (p0 + (\<Sum>r\<leftarrow>rs. packets r), b0 + (\<Sum>r\<leftarrow>rs. bytes_total r))"
  by (induction rs arbitrary: p0 b0) (simp_all add: algebra_simps)

interpretation tc_obs: packet_observer "\<lambda>p m. Some (tc_prog ops p m)" TC_ACT_OK
  by unfold_locales (auto simp: tc_prog_def tc_ingress_def tc_egress_def account_def split: prod.splits tc_hook.splits)

section \<open>Counting on every CPU\<close>

locale tc_stats_map = bpf_array ops DIR_MAX for ops :: "('m, u32, datarec) map_ops"
begin

definition slot :: "'m \<Rightarrow> u32 \<Rightarrow> datarec" where
  "slot = slot_value ops \<lparr>packets = 0, bytes_total = 0\<rparr>"

lemma slot_step:
  "slot (snd (tc_prog ops (h, len) m)) d =
     (if d = hook_dir h then
        (slot m d)\<lparr>packets := packets (slot m d) + 1, bytes_total := bytes_total (slot m d) + ucast len\<rparr>
      else slot m d)"
proof -
  obtain r where r: "map_lookup ops m (hook_dir h) = Some r"
    using array_present [OF hook_dir_bound] by blast
  then show ?thesis
    using array_poke [OF r] by (simp add: slot_def slot_value_def tc_prog_account account_def)
qed

lemma those_slots:
  "i < DIR_MAX \<Longrightarrow>
   those (map (\<lambda>c. map_lookup ops (cpus c) (of_nat i)) cs) = Some (map (\<lambda>c. slot (cpus c) (of_nat i)) cs)"
proof (induction cs)
  case (Cons c cs)
  have "unat (of_nat i :: u32) < DIR_MAX"
    using Cons.prems by (simp add: DIR_MAX_def unat_of_nat)
  with array_present obtain v where "map_lookup ops (cpus c) (of_nat i) = Some v" by blast
  with Cons show ?case by (simp add: slot_def slot_value_def)
qed simp

lemma report_sums:
  "tc_report ops n cpus =
     map (\<lambda>i. (dir_label (of_nat i),
               (\<Sum>c\<leftarrow>[0..<n]. packets (slot (cpus c) (of_nat i))),
               (\<Sum>c\<leftarrow>[0..<n]. bytes_total (slot (cpus c) (of_nat i))))) [0..<DIR_MAX]"
  unfolding tc_report_def Let_def
  by (rule concat_map_singleton) (simp add: those_slots foldl_datarec comp_def)

end

sublocale tc_stats_map \<subseteq> pkts: percpu_tally "\<lambda>m d. packets (slot m d)" "\<lambda>p m. snd (tc_prog ops p m)"
    "\<lambda>p d. if hook_dir (fst p) = d then 1 else 0"
  by unfold_locales (auto simp: slot_step split: prod.splits)

sublocale tc_stats_map \<subseteq> bts: percpu_tally "\<lambda>m d. bytes_total (slot m d)" "\<lambda>p m. snd (tc_prog ops p m)"
    "\<lambda>p d. if hook_dir (fst p) = d then ucast (snd p) else 0"
  by unfold_locales (auto simp: slot_step split: prod.splits)

context tc_stats_map
begin

lemma report_run:
  assumes "\<And>c k. unat k < DIR_MAX \<Longrightarrow> map_lookup ops (cpus c) k = Some \<lparr>packets = 0, bytes_total = 0\<rparr>"
    and "\<And>c p. (c, p) \<in> set es \<Longrightarrow> c < n"
  shows "tc_report ops n (percpu_run (\<lambda>p m. snd (tc_prog ops p m)) es cpus) =
    map (\<lambda>i. let dir = filter (\<lambda>p. hook_dir (fst p) = of_nat i) (map snd es) in
          (dir_label (of_nat i), of_nat (length dir), (\<Sum>p\<leftarrow>dir. ucast (snd p)))) [0..<DIR_MAX]"
proof -
  have zero: "slot (cpus c) (of_nat i) = \<lparr>packets = 0, bytes_total = 0\<rparr>" if "i < DIR_MAX" for c i
    using assms(1) [of "of_nat i" c] that by (simp add: slot_def slot_value_def DIR_MAX_def unat_of_nat)
  have filt: "(\<Sum>p\<leftarrow>ps. if P p then f p else 0) = (\<Sum>p\<leftarrow>filter P ps. f p)"
    for P and f :: "tc_hook \<times> u32 \<Rightarrow> u64" and ps
    by (induction ps) auto
  show ?thesis
    unfolding report_sums Let_def
    by (rule map_cong [OF refl])
       (simp add: pkts.sum_cpus_run [OF assms(2)] bts.sum_cpus_run [OF assms(2)] zero
          sum_list_indicator filt del: map_map length_filter_map)
qed

end

interpretation tc_model: tc_stats_map "array_ops DIR_MAX :: (u32 \<Rightarrow> datarec, u32, datarec) map_ops"
  by unfold_locales

section \<open>Properties\<close>

text \<open>
  C20. The table \<open>tcstat\<close> prints is exact: from cleared counters, after packets seen at either
  hook on any of the CPUs, the row of a direction shows the number of packets that passed that
  hook and the sum of their lengths, each modulo the 64-bit counter.
\<close>

theorem tc_report_counts_packets:
  assumes "bpf_array ops DIR_MAX"
    and "\<And>c k. unat k < DIR_MAX \<Longrightarrow> map_lookup ops (cpus c) k = Some \<lparr>packets = 0, bytes_total = 0\<rparr>"
    and "\<And>c p. (c, p) \<in> set seen \<Longrightarrow> c < ncpu"
  shows "tc_report ops ncpu (percpu_run (\<lambda>p m. snd (tc_prog ops p m)) seen cpus) =
    map (\<lambda>i. let dir = filter (\<lambda>p. hook_dir (fst p) = of_nat i) (map snd seen) in
          (dir_label (of_nat i), of_nat (length dir), (\<Sum>p\<leftarrow>dir. ucast (snd p)))) [0..<DIR_MAX]"
proof -
  have "tc_stats_map ops"
    using assms(1) by (simp add: tc_stats_map_def)
  from tc_stats_map.report_run [OF this assms(2,3)] show ?thesis .
qed

theorem tc_report_counts_packets_witness:
  "tc_report (array_ops DIR_MAX) 2 (percpu_run (\<lambda>p m. snd (tc_prog (array_ops DIR_MAX) p m))
       [(0, Ingress, 60), (1, Egress, 1500), (1, Ingress, 40)] (\<lambda>_ _. \<lparr>packets = 0, bytes_total = 0\<rparr>)) =
   [(''ingress'', 2, 100), (''egress'', 1, 1500)]"
  by (subst tc_report_counts_packets [OF array_model.bpf_array_axioms])
     (auto simp: array_ops_def arr_lookup_def DIR_MAX_def DIR_INGRESS_def DIR_EGRESS_def dir_label_def
        upt_rec)

text \<open>
  The tc programs only observe: whatever mix of packets the two hooks see, each program
  run returns \<open>TC_ACT_OK\<close>.
\<close>

theorem tc_never_drops:
  "\<exists>m'. run_frames (\<lambda>p m. Some (tc_prog ops p m)) ps m = Some (replicate (length ps) TC_ACT_OK, m')"
  by (rule tc_obs.run_observes)

end
