(* ===== verification/Ids_Tap.thy ===== *)
theory Ids_Tap
  imports Packet Bpf_Helpers
begin

text \<open>
  23-ids, kernel half: the socket filter \<open>ids_tap\<close> of \<open>ids.bpf.c\<close>, which copies one
  \<open>flow_pkt\<close> per IPv4 TCP or UDP packet into the ring buffer. A socket filter has no direct
  packet access, so the bytes come from \<open>bpf_skb_load_bytes\<close>, a helper the program takes as
  an argument; the locale \<open>skb_access\<close> states what it does. The theorems show that the
  filter reports exactly the packets in scope, with the header's own bytes in every field,
  and that it never queues a packet to the socket.
\<close>

record flow_pkt =
  ts_ns :: u64
  saddr :: u32
  daddr :: u32
  sport :: u16
  dport :: u16
  pkt_len :: u16
  proto :: u8

locale skb_access =
  fixes load :: "nat \<Rightarrow> nat \<Rightarrow> bytes option" and frame :: bytes
  assumes load_in: "off + n \<le> length frame \<Longrightarrow> load off n = Some (take n (drop off frame))"
    and load_out: "length frame < off + n \<Longrightarrow> load off n = None"

definition skb_load :: "bytes \<Rightarrow> nat \<Rightarrow> nat \<Rightarrow> bytes option" where
  "skb_load frame off n = (if off + n \<le> length frame then Some (take n (drop off frame)) else None)"

interpretation skb_model: skb_access "skb_load frame" frame
  by unfold_locales (simp_all add: skb_load_def)

section \<open>The kernel program\<close>

definition ids_tap ::
  "('r, flow_pkt) ring_ops \<Rightarrow> (nat \<Rightarrow> nat \<Rightarrow> bytes option) \<Rightarrow> u32 \<Rightarrow> u64 \<Rightarrow> 'r \<Rightarrow> int \<times> 'r" where
  "ids_tap ring load skb_len now r =
     (case load 0 sizeof_ethhdr of
        None \<Rightarrow> (0, r)
      | Some eth \<Rightarrow>
          if le16 (eth ! 12) (eth ! 13) \<noteq> bswap16 ETH_P_IP then (0, r)
          else (case load sizeof_ethhdr sizeof_iphdr of
             None \<Rightarrow> (0, r)
           | Some ip \<Rightarrow>
               if ip ! 9 \<noteq> IPPROTO_TCP \<and> ip ! 9 \<noteq> IPPROTO_UDP then (0, r)
               else (case load (sizeof_ethhdr + sizeof_iphdr) 4 of
                  None \<Rightarrow> (0, r)
                | Some l4 \<Rightarrow>
                    (case rb_reserve ring r of
                       None \<Rightarrow> (0, r)
                     | Some (r', e) \<Rightarrow>
                         (0, rb_submit ring r'
                           (e\<lparr>ts_ns := now,
                              saddr := le32 (ip ! 12) (ip ! 13) (ip ! 14) (ip ! 15),
                              daddr := le32 (ip ! 16) (ip ! 17) (ip ! 18) (ip ! 19),
                              sport := le16 (l4 ! 0) (l4 ! 1),
                              dport := le16 (l4 ! 2) (l4 ! 3),
                              pkt_len := ucast skb_len,
                              proto := ip ! 9\<rparr>))))))"

section \<open>What is reported\<close>

text \<open>
  The record of a packet by its fields: the ethertype, the 20-byte IP header and the first
  four bytes behind it, every address and port as it stands in the packet.
\<close>

definition tap_record :: "u16 \<Rightarrow> bytes \<Rightarrow> u32 \<Rightarrow> u64 \<Rightarrow> flow_pkt option" where
  "tap_record et pl skb_len now =
     (if et = ETH_P_IP \<and> 24 \<le> length pl \<and> (pl ! 9 = 6 \<or> pl ! 9 = 17) then
        Some \<lparr>ts_ns = now,
              saddr = le32 (pl ! 12) (pl ! 13) (pl ! 14) (pl ! 15),
              daddr = le32 (pl ! 16) (pl ! 17) (pl ! 18) (pl ! 19),
              sport = le16 (pl ! 20) (pl ! 21),
              dport = le16 (pl ! 22) (pl ! 23),
              pkt_len = ucast skb_len,
              proto = pl ! 9\<rparr>
      else None)"

definition tap_emit :: "('r, flow_pkt) ring_ops \<Rightarrow> flow_pkt option \<Rightarrow> 'r \<Rightarrow> 'r" where
  "tap_emit ring e r =
     (case e of None \<Rightarrow> r
      | Some x \<Rightarrow> (case rb_reserve ring r of None \<Rightarrow> r | Some (r', _) \<Rightarrow> rb_submit ring r' x))"

lemma flow_pkt_overwrite:
  "e\<lparr>ts_ns := a, saddr := b, daddr := c, sport := d, dport := f, pkt_len := g, proto := h\<rparr> =
   \<lparr>ts_ns = a, saddr = b, daddr = c, sport = d, dport = f, pkt_len = g, proto = h\<rparr>"
  for e :: flow_pkt
  by (cases e) simp

lemma eth_ip_field: "le16 a b = bswap16 ETH_P_IP \<longleftrightarrow> le16 b a = ETH_P_IP"
  by (rule field_eq_htons)

lemma ids_tap_short: "skb_access load frame \<Longrightarrow> length frame < 14 \<Longrightarrow> ids_tap ring load len now r = (0, r)"
  by (simp add: ids_tap_def skb_access.load_out)

lemma ids_tap_frame:
  assumes acc: "skb_access load (eth_frame macs et pl)" and macs: "length macs = 12"
  shows "ids_tap ring load skb_len now r = (0, tap_emit ring (tap_record et pl skb_len now) r)"
proof -
  define d where "d = eth_frame macs et pl"
  have d: "length d = 14 + length pl"
    using macs by (simp add: d_def)
  have inside: "load off n = Some (take n (drop off d))" if "off + n \<le> length d" for off n
    using skb_access.load_in [OF acc] that by (simp add: d_def)
  have outside: "load off n = None" if "length d < off + n" for off n
    using skb_access.load_out [OF acc] that by (simp add: d_def)
  have pl: "d ! (14 + i) = pl ! i" if "i < length pl" for i
    using eth_frame_payload [OF macs that] by (simp add: d_def)
  have et: "le16 (d ! 12) (d ! 13) = bswap16 ETH_P_IP \<longleftrightarrow> et = ETH_P_IP"
    using eth_frame_proto [OF macs, of et pl] by (simp add: eth_ip_field d_def be16_at_def)
  consider "length pl < 20" | "20 \<le> length pl" "length pl < 24" | "24 \<le> length pl"
    by linarith
  then show ?thesis
  proof cases
    case 1
    with d et show ?thesis
      by (simp add: ids_tap_def tap_record_def tap_emit_def inside outside)
  next
    case 2
    with d et show ?thesis
      by (simp add: ids_tap_def tap_record_def tap_emit_def inside outside)
  next
    case 3
    have "d ! (14 + i) = pl ! i" if "i < 24" for i
      using pl that 3 by simp
    from this [of 9] this [of 12] this [of 13] this [of 14] this [of 15] this [of 16]
      this [of 17] this [of 18] this [of 19] this [of 20] this [of 21] this [of 22] this [of 23]
    have fields: "d ! 23 = pl ! 9" "d ! 26 = pl ! 12" "d ! 27 = pl ! 13" "d ! 28 = pl ! 14"
      "d ! 29 = pl ! 15" "d ! 30 = pl ! 16" "d ! 31 = pl ! 17" "d ! 32 = pl ! 18"
      "d ! 33 = pl ! 19" "d ! 34 = pl ! 20" "d ! 35 = pl ! 21" "d ! 36 = pl ! 22" "d ! 37 = pl ! 23"
      by simp_all
    show ?thesis
      using 3 d et fields
      by (simp add: ids_tap_def tap_record_def tap_emit_def inside flow_pkt_overwrite packet_consts
          split: option.splits)
  qed
qed

lemma tap_emit_records:
  assumes "bpf_ringbuf ring"
  shows "rb_records ring (tap_emit ring e r) =
    rb_records ring r @
    (case e of None \<Rightarrow> [] | Some x \<Rightarrow> if rb_reserve ring r = None then [] else [x])"
  using bpf_ringbuf.reserve_submit [OF assms]
  by (auto simp: tap_emit_def split: option.splits)

section \<open>Properties\<close>

text \<open>
  C39. What the tap puts in the ring for one frame: exactly one record when the frame is an
  IPv4 TCP or UDP packet that reaches the ports and the ring has room, carrying the addresses,
  ports and protocol of the packet's own bytes (network order, offsets 12, 16, 20 and 22 of the
  IP packet, whose header the source takes to have 20 bytes), the clock and the packet length cut to 16 bits; nothing at all otherwise. No
  field of the record is left over from an earlier use of the slot, and the filter returns 0:
  nothing is queued to the socket.
\<close>

theorem ids_tap_reports:
  assumes ring: "bpf_ringbuf ring"
    and skb: "skb_access load (eth_frame macs et pl)" "length macs = 12"
    and run: "ids_tap ring load skb_len now r = (ret, r')"
  shows "ret = 0 \<and>
    rb_records ring r' = rb_records ring r @
      (if et = ETH_P_IP \<and> 24 \<le> length pl \<and> (pl ! 9 = 6 \<or> pl ! 9 = 17) \<and> rb_reserve ring r \<noteq> None
       then [\<lparr>ts_ns = now,
              saddr = le32 (pl ! 12) (pl ! 13) (pl ! 14) (pl ! 15),
              daddr = le32 (pl ! 16) (pl ! 17) (pl ! 18) (pl ! 19),
              sport = le16 (pl ! 20) (pl ! 21),
              dport = le16 (pl ! 22) (pl ! 23),
              pkt_len = ucast skb_len,
              proto = pl ! 9\<rparr>]
       else [])"
proof -
  have "ret = 0" "r' = tap_emit ring (tap_record et pl skb_len now) r"
    using ids_tap_frame [OF skb, of ring skb_len now r] run by simp_all
  then show ?thesis
    using tap_emit_records [OF ring, of "tap_record et pl skb_len now" r]
    by (auto simp: tap_record_def)
qed

definition tap_demo_pl :: bytes where
  "tap_demo_pl = [0x45, 0, 0, 40, 0, 0, 0, 0, 64, 6, 0, 0, 10, 0, 0, 1, 10, 0, 0, 2, 0x30, 0x39, 0x11, 0x5C]"

theorem ids_tap_reports_witness:
  "\<exists>r'. ids_tap list_ring (skb_load (eth_frame (replicate 12 0) 0x0800 tap_demo_pl)) 60 7
          \<lparr>rg_room = 1, rg_stale = undefined, rg_log = []\<rparr> = (0, r') \<and>
        map dport (rb_records list_ring r') = [le16 0x11 0x5C]"
proof -
  let ?run = "ids_tap list_ring (skb_load (eth_frame (replicate 12 0) 0x0800 tap_demo_pl)) 60 7
    \<lparr>rg_room = 1, rg_stale = undefined, rg_log = []\<rparr>"
  obtain ret r' where run: "?run = (ret, r')"
    by fastforce
  from ids_tap_reports [OF ring_model.bpf_ringbuf_axioms skb_model.skb_access_axioms _ run]
  show ?thesis
    using run by (simp add: tap_demo_pl_def ETH_P_IP_def list_ring_defs)
qed

end
