(* ===== verification/Ids_Flow.thy ===== *)
theory Ids_Flow
  imports Ids_Tap Slot_Table Doubles "HOL-Library.Multiset"
begin

text \<open>
  23-ids, user half, first part: the flow table of \<open>ids.c\<close> and the two rules that run on it,
  \<open>rule_beacon\<close> and \<open>rule_suspicious_port\<close>.

  The beacon rule computes in \<open>double\<close>. Its arithmetic is the record of operations \<open>fp_ops\<close>,
  and the theorems that do not depend on rounding are proved for every such record, so they
  hold for IEEE doubles as for any other arithmetic; the alert on even spacing depends on rounding
  and is proved for every \<open>rounding\<close> (\<open>Doubles\<close>).

  The gap counter is a C \<open>int\<close> that only grows. Its overflow is undefined behaviour, which
  the model shows as \<open>None\<close>; the theorems give the bound below which it cannot happen.
\<close>

section \<open>Arithmetic, alerts and tunables\<close>

text \<open>What the program prints: the debug line of the beacon rule and the three alerts.\<close>

datatype 'd ids_msg =
    Dbg_beacon u32 u32 u16 int 'd 'd
  | Alert_beacon u32 u32 u16 'd 'd int
  | Alert_susp u32 u32 u16 string
  | Alert_scan u32 nat u64

definition MAX_FLOWS :: nat where "MAX_FLOWS = 1024"

definition MAX_GAPS :: nat where "MAX_GAPS = 8"

definition BEACON_MIN_SAMPLES :: int where "BEACON_MIN_SAMPLES = 5"

definition BEACON_CV_MAX :: rat where "BEACON_CV_MAX = 10 / 100"

definition BEACON_MIN_INTERVAL :: rat where "BEACON_MIN_INTERVAL = 1"

definition BEACON_MAX_INTERVAL :: rat where "BEACON_MAX_INTERVAL = 300"

lemmas beacon_consts =
  MAX_GAPS_def BEACON_MIN_SAMPLES_def BEACON_CV_MAX_def BEACON_MIN_INTERVAL_def
  BEACON_MAX_INTERVAL_def

definition INT_MAX :: int where "INT_MAX = 2 ^ 31 - 1"

text \<open>The signature list; the first name has the UTF-8 bytes of a dash in it.\<close>

definition suspicious :: "(u16 \<times> string) list" where
  "suspicious =
     [(1337, ''leet '' @ [CHR 0xE2, CHR 0x80, CHR 0x94] @ '' common backdoor''),
      (4444, ''Metasploit/Meterpreter default''),
      (5555, ''ADB / common Android RAT''),
      (6667, ''IRC (classic botnet C2)''),
      (12345, ''NetBus backdoor''),
      (31337, ''Back Orifice backdoor''),
      (50050, ''Cobalt Strike team server default'')]"

section \<open>The flow table\<close>

record 'd flow =
  fl_used :: bool
  fl_saddr :: u32
  fl_daddr :: u32
  fl_dport :: u16
  fl_proto :: u8
  fl_last_ts :: u64
  fl_gaps :: "'d list"
  fl_ngaps :: int
  fl_beacon_alerted :: bool
  fl_susp_alerted :: bool

type_synonym flow_key = "u32 \<times> u32 \<times> u16 \<times> u8"

definition flow_zero :: "'d fp_ops \<Rightarrow> 'd flow" where
  "flow_zero fp =
     \<lparr>fl_used = False, fl_saddr = 0, fl_daddr = 0, fl_dport = 0, fl_proto = 0, fl_last_ts = 0,
      fl_gaps = replicate MAX_GAPS (fp_of_int fp 0), fl_ngaps = 0, fl_beacon_alerted = False,
      fl_susp_alerted = False\<rparr>"

definition flows_init :: "'d fp_ops \<Rightarrow> 'd flow list" where
  "flows_init fp = replicate MAX_FLOWS (flow_zero fp)"

definition pkt_key :: "flow_pkt \<Rightarrow> flow_key" where
  "pkt_key p = (saddr p, daddr p, dport p, proto p)"

definition flow_key :: "'d flow \<Rightarrow> flow_key" where
  "flow_key f = (fl_saddr f, fl_daddr f, fl_dport f, fl_proto f)"

definition flow_matches :: "flow_key \<Rightarrow> 'd flow \<Rightarrow> bool" where
  "flow_matches k f \<longleftrightarrow>
     (case k of (s, d, dp, pr) \<Rightarrow> fl_saddr f = s \<and> fl_daddr f = d \<and> fl_dport f = dp \<and> fl_proto f = pr)"

definition flow_claim :: "flow_key \<Rightarrow> 'd flow \<Rightarrow> 'd flow" where
  "flow_claim k f =
     (case k of (s, d, dp, pr) \<Rightarrow>
        f\<lparr>fl_used := True, fl_saddr := s, fl_daddr := d, fl_dport := dp, fl_proto := pr,
          fl_last_ts := 0, fl_ngaps := 0, fl_beacon_alerted := False, fl_susp_alerted := False\<rparr>)"

definition flow_get :: "flow_pkt \<Rightarrow> 'd flow list \<Rightarrow> nat option \<times> 'd flow list" where
  "flow_get p flows = get_slot fl_used (flow_matches (pkt_key p)) (flow_claim (pkt_key p)) flows"

interpretation flow_table: slot_table fl_used flow_key flow_matches flow_claim
  by unfold_locales (auto simp: flow_matches_def flow_key_def flow_claim_def split: prod.splits)

section \<open>The beacon rule\<close>

definition beacon_gap :: "'d fp_ops \<Rightarrow> u64 \<Rightarrow> u64 \<Rightarrow> 'd" where
  "beacon_gap fp now prev = fp_div fp (fp_of_u64 fp (now - prev)) (fp_lit fp 1000000000)"

text \<open>The first statement of the rule: one more gap into the ring of eight.\<close>

definition beacon_push :: "'d fp_ops \<Rightarrow> flow_pkt \<Rightarrow> 'd flow \<Rightarrow> 'd flow option" where
  "beacon_push fp p f =
     (if fl_last_ts f \<noteq> 0 then
        if fl_ngaps f < 0 \<or> fl_ngaps f = INT_MAX then None
        else Some (f\<lparr>fl_gaps := (fl_gaps f)[nat (fl_ngaps f) mod MAX_GAPS :=
                                   beacon_gap fp (ts_ns p) (fl_last_ts f)],
                     fl_ngaps := fl_ngaps f + 1,
                     fl_last_ts := ts_ns p\<rparr>)
      else Some (f\<lparr>fl_last_ts := ts_ns p\<rparr>))"

definition beacon_mean :: "'d fp_ops \<Rightarrow> int \<Rightarrow> 'd list \<Rightarrow> 'd" where
  "beacon_mean fp n gaps =
     fp_div fp (foldl (fp_add fp) (fp_of_int fp 0) (take (nat n) gaps)) (fp_of_int fp n)"

definition beacon_cv :: "'d fp_ops \<Rightarrow> int \<Rightarrow> 'd list \<Rightarrow> 'd \<Rightarrow> 'd" where
  "beacon_cv fp n gaps mean =
     (let var = foldl (\<lambda>v g. fp_add fp v (fp_mul fp (fp_sub fp g mean) (fp_sub fp g mean)))
                  (fp_of_int fp 0) (take (nat n) gaps)
      in if fp_lt fp (fp_of_int fp 0) mean
         then fp_div fp (fp_sqrt fp (fp_div fp var (fp_of_int fp n))) mean
         else fp_lit fp 1)"

text \<open>The statistics over the \<open>n\<close> samples, the debug line and the decision.\<close>

definition beacon_judge ::
  "'d fp_ops \<Rightarrow> bool \<Rightarrow> int \<Rightarrow> 'd flow \<Rightarrow> 'd flow \<times> 'd ids_msg list" where
  "beacon_judge fp g_debug n f =
     (if n < 1 then (f, [])
      else
        let mean = beacon_mean fp n (fl_gaps f);
            cv = beacon_cv fp n (fl_gaps f) mean;
            dbg = (if g_debug
                   then [Dbg_beacon (fl_saddr f) (fl_daddr f) (bswap16 (fl_dport f)) n mean
                           (fp_mul fp cv (fp_lit fp 100))]
                   else [])
        in if fl_beacon_alerted f \<or> n < BEACON_MIN_SAMPLES then (f, dbg)
           else if fp_lt fp mean (fp_lit fp BEACON_MIN_INTERVAL) \<or>
                   fp_lt fp (fp_lit fp BEACON_MAX_INTERVAL) mean then (f, dbg)
           else if fp_lt fp (fp_lit fp BEACON_CV_MAX) cv then (f, dbg)
           else (f\<lparr>fl_beacon_alerted := True\<rparr>,
                 dbg @ [Alert_beacon (fl_saddr f) (fl_daddr f) (bswap16 (fl_dport f))
                          mean (fp_mul fp cv (fp_lit fp 100)) (n + 1)]))"

definition rule_beacon ::
  "'d fp_ops \<Rightarrow> bool \<Rightarrow> flow_pkt \<Rightarrow> 'd flow \<Rightarrow> ('d flow \<times> 'd ids_msg list) option" where
  "rule_beacon fp g_debug p f0 =
     (case beacon_push fp p f0 of
        None \<Rightarrow> None
      | Some f \<Rightarrow>
          Some (beacon_judge fp g_debug
                  (if fl_ngaps f < int MAX_GAPS then fl_ngaps f else int MAX_GAPS) f))"

section \<open>The signature rule\<close>

fun susp_scan :: "flow_pkt \<Rightarrow> u16 \<Rightarrow> (u16 \<times> string) list \<Rightarrow> 'd flow \<Rightarrow> 'd flow \<times> 'd ids_msg list" where
  "susp_scan p port [] f = (f, [])"
| "susp_scan p port ((sp, name) # sigs) f =
     (if sp = port
      then (f\<lparr>fl_susp_alerted := True\<rparr>, [Alert_susp (saddr p) (daddr p) port name])
      else susp_scan p port sigs f)"

definition rule_suspicious_port :: "flow_pkt \<Rightarrow> 'd flow \<Rightarrow> 'd flow \<times> 'd ids_msg list" where
  "rule_suspicious_port p f =
     (if fl_susp_alerted f then (f, []) else susp_scan p (bswap16 (dport p)) suspicious f)"

section \<open>One packet on its flow\<close>

text \<open>The body of \<open>if (f) { ... }\<close> in \<open>handle_event\<close>.\<close>

definition flow_rules ::
  "'d fp_ops \<Rightarrow> bool \<Rightarrow> flow_pkt \<Rightarrow> 'd flow \<Rightarrow> ('d flow \<times> 'd ids_msg list) option" where
  "flow_rules fp g_debug p f =
     (case rule_beacon fp g_debug p f of
        None \<Rightarrow> None
      | Some (f1, o1) \<Rightarrow>
          (case rule_suspicious_port p f1 of (f2, o2) \<Rightarrow> Some (f2, o1 @ o2)))"

definition flow_event ::
  "'d fp_ops \<Rightarrow> bool \<Rightarrow> flow_pkt \<Rightarrow> 'd flow list \<Rightarrow> ('d flow list \<times> 'd ids_msg list) option" where
  "flow_event fp g_debug p flows =
     (case flow_get p flows of
        (None, fs) \<Rightarrow> Some (fs, [])
      | (Some i, fs) \<Rightarrow>
          (case flow_rules fp g_debug p (fs ! i) of
             None \<Rightarrow> None
           | Some (f, out) \<Rightarrow> Some (fs[i := f], out)))"

fun flow_run ::
  "'d fp_ops \<Rightarrow> bool \<Rightarrow> flow_pkt list \<Rightarrow> 'd flow \<Rightarrow> ('d flow \<times> 'd ids_msg list) option" where
  "flow_run fp g_debug [] f = Some (f, [])"
| "flow_run fp g_debug (p # ps) f =
     (case flow_rules fp g_debug p f of
        None \<Rightarrow> None
      | Some (f1, o1) \<Rightarrow>
          (case flow_run fp g_debug ps f1 of None \<Rightarrow> None | Some (f2, o2) \<Rightarrow> Some (f2, o1 @ o2)))"

lemma flow_run_snoc:
  "flow_run fp g_debug (ps @ [p]) f =
     (case flow_run fp g_debug ps f of
        None \<Rightarrow> None
      | Some (f1, o1) \<Rightarrow>
          (case flow_rules fp g_debug p f1 of None \<Rightarrow> None | Some (f2, o2) \<Rightarrow> Some (f2, o1 @ o2)))"
  by (induction ps arbitrary: f) (auto split: option.splits)

section \<open>The gaps of a history\<close>

text \<open>
  The specification side: the gaps between the timestamps of a flow's packets, and which of
  them sit in which of the eight places of the ring, the most recent gap whose number is the
  place modulo eight.
\<close>

definition gap_list :: "'d fp_ops \<Rightarrow> u64 list \<Rightarrow> 'd list" where
  "gap_list fp ts = map (\<lambda>i. beacon_gap fp (ts ! Suc i) (ts ! i)) [0..<length ts - 1]"

definition gap_window :: "'d list \<Rightarrow> 'd list" where
  "gap_window G =
     map (\<lambda>j. G ! (length G - 1 - (length G - 1 - j) mod 8)) [0..<min 8 (length G)]"

lemma length_gap_list [simp]: "length (gap_list fp ts) = length ts - 1"
  by (simp add: gap_list_def)

lemma length_gap_window [simp]: "length (gap_window G) = min 8 (length G)"
  by (simp add: gap_window_def)

lemma gap_window_nth:
  "j < min 8 (length G) \<Longrightarrow> gap_window G ! j = G ! (length G - 1 - (length G - 1 - j) mod 8)"
  by (simp add: gap_window_def del: upt_Suc)

lemma gap_list_snoc:
  "gap_list fp (ts @ [t]) = gap_list fp ts @ (if ts = [] then [] else [beacon_gap fp t (last ts)])"
proof (cases ts rule: rev_cases)
  case (snoc us u)
  then show ?thesis
    by (auto simp: gap_list_def nth_append intro!: nth_equalityI)
qed (simp add: gap_list_def)

lemma gap_window_snoc:
  "gap_window (G @ [g]) =
     (if length G < 8 then gap_window G @ [g] else (gap_window G)[length G mod 8 := g])"
proof (rule nth_equalityI)
  fix j
  assume "j < length (gap_window (G @ [g]))"
  then have j: "j < 8" "j \<le> length G" by auto
  let ?N = "length G"
  have lhs: "gap_window (G @ [g]) ! j = (G @ [g]) ! (?N - (?N - j) mod 8)"
    using j by (simp add: gap_window_nth)
  show "gap_window (G @ [g]) ! j =
      (if ?N < 8 then gap_window G @ [g] else (gap_window G)[?N mod 8 := g]) ! j"
  proof (cases "(?N - j) mod 8 = 0")
    case True
    then obtain k where "?N - j = 8 * k" by (auto simp: mod_eq_0_iff_dvd)
    with j have "?N = j + 8 * k" by simp
    with j have "?N mod 8 = j" by simp
    with True j lhs show ?thesis
      by (auto simp: nth_append)
  next
    case False
    with j have jN: "j < ?N" by (cases "j = ?N") auto
    then have "?N - j = Suc (?N - 1 - j)" by simp
    with False have m: "(?N - j) mod 8 = Suc ((?N - 1 - j) mod 8)"
      by (metis mod_Suc)
    moreover have "?N mod 8 \<noteq> j"
      using False by (auto simp: minus_mod_eq_mult_div)
    moreover have "gap_window G ! j = G ! (?N - Suc ((?N - 1 - j) mod 8))"
      using j jN by (simp add: gap_window_nth)
    moreover have "?N - Suc ((?N - 1 - j) mod 8) < ?N"
      using jN by simp
    ultimately show ?thesis
      using lhs j jN by (simp add: nth_append)
  qed
qed auto

lemma mset_gap_window: "mset (gap_window G) = mset (drop (length G - 8) G)"
proof (induction G rule: rev_induct)
  case (snoc g G)
  show ?case
  proof (cases "length G < 8")
    case True
    with snoc show ?thesis by (simp add: gap_window_snoc)
  next
    case False
    let ?N = "length G"
    have i: "?N mod 8 < length (gap_window G)"
      using False by simp
    have "?N = 8 * (?N div 8) + ?N mod 8" "0 < ?N div 8"
      using False by (simp, linarith)
    then have "?N - 1 - ?N mod 8 = 7 + 8 * (?N div 8 - 1)" by linarith
    then have "(?N - 1 - ?N mod 8) mod 8 = 7" by simp
    with i have old: "gap_window G ! (?N mod 8) = G ! (?N - 8)"
      using False by (simp add: gap_window_nth)
    have "Suc (?N - 8) = ?N - 7"
      using False by simp
    then have "drop (?N - 8) G = G ! (?N - 8) # drop (?N - 7) G"
      using False Cons_nth_drop_Suc [of "?N - 8" G] by simp
    with snoc.IH old i show ?thesis
      using False by (simp add: gap_window_snoc mset_update Suc_diff_le)
  qed
qed (simp add: gap_window_def)

text \<open>After a history of timestamps, a flow holds exactly this.\<close>

definition gap_inv :: "'d fp_ops \<Rightarrow> u64 list \<Rightarrow> 'd flow \<Rightarrow> bool" where
  "gap_inv fp ts f \<longleftrightarrow>
     length (fl_gaps f) = 8 \<and> fl_ngaps f = int (length ts - 1) \<and>
     fl_last_ts f = (if ts = [] then 0 else last ts) \<and>
     take (min 8 (length ts - 1)) (fl_gaps f) = gap_window (gap_list fp ts)"

lemma take_update_gap:
  assumes "length gs = 8" "take (min 8 (length G)) gs = gap_window G"
  shows "take (min 8 (Suc (length G))) (gs[length G mod 8 := g]) = gap_window (G @ [g])"
proof (cases "length G < 8")
  case True
  with assms show ?thesis
    by (simp add: gap_window_snoc take_Suc_conv_app_nth)
next
  case False
  with assms show ?thesis by (simp add: gap_window_snoc)
qed

lemma beacon_push_inv:
  assumes inv: "gap_inv fp ts f" and nz: "0 \<notin> set ts" and len: "int (length ts) \<le> INT_MAX"
  shows "\<exists>f'. beacon_push fp p f = Some f' \<and> gap_inv fp (ts @ [ts_ns p]) f' \<and>
    flow_key f' = flow_key f \<and> fl_used f' = fl_used f \<and>
    fl_beacon_alerted f' = fl_beacon_alerted f \<and> fl_susp_alerted f' = fl_susp_alerted f"
proof (cases "ts = []")
  case True
  with inv show ?thesis
    by (simp add: gap_inv_def beacon_push_def flow_key_def gap_list_def gap_window_def)
next
  case False
  then obtain m where m: "length ts = Suc m" by (cases ts) auto
  from False have "last ts \<noteq> 0" using nz by (metis last_in_set)
  with inv False m len
    take_update_gap [of "fl_gaps f" "gap_list fp ts" "beacon_gap fp (ts_ns p) (last ts)"]
  show ?thesis
    by (simp add: gap_inv_def beacon_push_def flow_key_def gap_list_snoc MAX_GAPS_def)
qed

section \<open>The rules against their specifications\<close>

text \<open>The verdict on a list of gaps, in the order of the ring, and the message it gives.\<close>

definition beacon_due :: "'d fp_ops \<Rightarrow> 'd list \<Rightarrow> bool" where
  "beacon_due fp W \<longleftrightarrow>
     (let n = int (length W); mean = beacon_mean fp n W in
      5 \<le> n \<and> \<not> fp_lt fp mean (fp_lit fp 1) \<and> \<not> fp_lt fp (fp_lit fp 300) mean \<and>
      \<not> fp_lt fp (fp_lit fp (1 / 10)) (beacon_cv fp n W mean))"

definition beacon_msg :: "'d fp_ops \<Rightarrow> flow_key \<Rightarrow> 'd list \<Rightarrow> 'd ids_msg" where
  "beacon_msg fp k W =
     (let n = int (length W); mean = beacon_mean fp n W in
      case k of (s, d, dp, pr) \<Rightarrow>
        Alert_beacon s d (bswap16 dp) mean (fp_mul fp (beacon_cv fp n W mean) (fp_lit fp 100)) (n + 1))"

fun is_beacon :: "'d ids_msg \<Rightarrow> bool" where
  "is_beacon (Alert_beacon _ _ _ _ _ _) = True"
| "is_beacon _ = False"

fun is_susp :: "'d ids_msg \<Rightarrow> bool" where
  "is_susp (Alert_susp _ _ _ _) = True"
| "is_susp _ = False"

lemma beacon_stats_take:
  "beacon_mean fp n (take (nat n) gs) = beacon_mean fp n gs"
  "beacon_cv fp n (take (nat n) gs) m = beacon_cv fp n gs m"
  by (simp_all add: beacon_mean_def beacon_cv_def)

lemma beacon_judge_spec:
  assumes W: "take (nat n) (fl_gaps f) = W" "n = int (length W)"
  shows "\<exists>b out. beacon_judge fp g_debug n f = (f\<lparr>fl_beacon_alerted := b\<rparr>, out) \<and>
    b = (fl_beacon_alerted f \<or> beacon_due fp W) \<and>
    filter is_beacon out =
      (if beacon_due fp W \<and> \<not> fl_beacon_alerted f then [beacon_msg fp (flow_key f) W] else []) \<and>
    filter is_susp out = []"
proof -
  have keep: "f = f\<lparr>fl_beacon_alerted := fl_beacon_alerted f\<rparr>" by simp
  have stats: "beacon_mean fp n (fl_gaps f) = beacon_mean fp n W"
    "beacon_cv fp n (fl_gaps f) m = beacon_cv fp n W m" for m
    using beacon_stats_take [of fp n "fl_gaps f"] W(1) by simp_all
  have due: "beacon_due fp W \<longleftrightarrow> 5 \<le> n \<and>
      \<not> fp_lt fp (beacon_mean fp n W) (fp_lit fp 1) \<and> \<not> fp_lt fp (fp_lit fp 300) (beacon_mean fp n W) \<and>
      \<not> fp_lt fp (fp_lit fp (1 / 10)) (beacon_cv fp n W (beacon_mean fp n W))"
    by (simp add: beacon_due_def Let_def W(2))
  have msg: "beacon_msg fp (flow_key f) W =
      Alert_beacon (fl_saddr f) (fl_daddr f) (bswap16 (fl_dport f)) (beacon_mean fp n W)
        (fp_mul fp (beacon_cv fp n W (beacon_mean fp n W)) (fp_lit fp 100)) (n + 1)"
    by (simp add: beacon_msg_def flow_key_def W(2) Let_def)
  consider "n < 1" | "1 \<le> n" "n < 5" | "5 \<le> n" by linarith
  then show ?thesis
  proof cases
    case 1
    then show ?thesis by (auto simp: due beacon_judge_def intro!: exI [of _ "fl_beacon_alerted f"])
  next
    case 2
    then show ?thesis
      by (auto simp: due beacon_judge_def beacon_consts Let_def intro!: exI [of _ "fl_beacon_alerted f"])
  next
    case 3
    then show ?thesis
      unfolding msg due
      by (auto simp: beacon_judge_def beacon_consts Let_def stats
          intro!: exI [of _ "fl_beacon_alerted f"] exI [of _ True])
  qed
qed

lemma rule_beacon_spec:
  fixes p :: flow_pkt
  assumes inv: "gap_inv fp ts f" and nz: "0 \<notin> set ts" and len: "int (length ts) \<le> INT_MAX"
  defines "W \<equiv> gap_window (gap_list fp (ts @ [ts_ns p]))"
  shows "\<exists>f' out. rule_beacon fp g_debug p f = Some (f', out) \<and> gap_inv fp (ts @ [ts_ns p]) f' \<and>
    flow_key f' = flow_key f \<and> fl_used f' = fl_used f \<and> fl_susp_alerted f' = fl_susp_alerted f \<and>
    fl_beacon_alerted f' = (fl_beacon_alerted f \<or> beacon_due fp W) \<and>
    filter is_beacon out =
      (if beacon_due fp W \<and> \<not> fl_beacon_alerted f then [beacon_msg fp (flow_key f) W] else []) \<and>
    filter is_susp out = []"
proof -
  obtain g where push: "beacon_push fp p f = Some g" and g: "gap_inv fp (ts @ [ts_ns p]) g"
    "flow_key g = flow_key f" "fl_used g = fl_used f"
    "fl_beacon_alerted g = fl_beacon_alerted f" "fl_susp_alerted g = fl_susp_alerted f"
    using beacon_push_inv [OF inv nz len, of p] by blast
  define n where "n = (if fl_ngaps g < int MAX_GAPS then fl_ngaps g else int MAX_GAPS)"
  have "take (nat n) (fl_gaps g) = W" "n = int (length W)"
    using g(1) by (auto simp: gap_inv_def n_def W_def MAX_GAPS_def)
  from beacon_judge_spec [OF this, of fp g_debug] g push show ?thesis
    unfolding rule_beacon_def push option.case n_def [symmetric]
    by (auto simp: gap_inv_def flow_key_def)
qed

lemma susp_scan_map_of:
  "susp_scan p port sigs f =
     (case map_of sigs port of
        None \<Rightarrow> (f, [])
      | Some name \<Rightarrow> (f\<lparr>fl_susp_alerted := True\<rparr>, [Alert_susp (saddr p) (daddr p) port name]))"
  by (induction p port sigs f rule: susp_scan.induct) auto

text \<open>The message of the signature rule, by the flow's key.\<close>

definition susp_msgs :: "flow_key \<Rightarrow> 'd ids_msg list" where
  "susp_msgs k =
     (case k of (s, d, dp, pr) \<Rightarrow>
        (case map_of suspicious (bswap16 dp) of
           None \<Rightarrow> []
         | Some name \<Rightarrow> [Alert_susp s d (bswap16 dp) name]))"

lemma rule_suspicious_port_spec:
  assumes "pkt_key p = k"
  shows "\<exists>b. rule_suspicious_port p f =
      (f\<lparr>fl_susp_alerted := b\<rparr>, if fl_susp_alerted f then [] else susp_msgs k) \<and>
    b = (fl_susp_alerted f \<or> susp_msgs k \<noteq> ([] :: 'd ids_msg list))"
  using assms
  by (auto simp: rule_suspicious_port_def susp_scan_map_of susp_msgs_def pkt_key_def
      intro!: exI [of _ "fl_susp_alerted f"] split: option.splits)

lemma susp_msgs_filter [simp]:
  "filter is_beacon (susp_msgs k) = []" "filter is_susp (susp_msgs k) = susp_msgs k"
  by (auto simp: susp_msgs_def split: prod.splits option.splits)

text \<open>The packet count at which a history of timestamps first looks like a beacon.\<close>

definition beacon_first :: "'d fp_ops \<Rightarrow> u64 list \<Rightarrow> nat option" where
  "beacon_first fp ts =
     first_index (\<lambda>m. beacon_due fp (gap_window (gap_list fp (take m ts)))) [0..<Suc (length ts)]"

lemma beacon_first_snoc:
  "beacon_first fp (ts @ [t]) =
     (case beacon_first fp ts of
        Some m \<Rightarrow> Some m
      | None \<Rightarrow>
          if beacon_due fp (gap_window (gap_list fp (ts @ [t]))) then Some (Suc (length ts)) else None)"
proof -
  let ?P = "\<lambda>ts m. beacon_due fp (gap_window (gap_list fp (take m ts)))"
  have "first_index (?P (ts @ [t])) [0..<Suc (length ts)] = beacon_first fp ts"
    unfolding beacon_first_def by (rule first_index_cong) auto
  moreover have "beacon_first fp (ts @ [t]) =
      first_index (?P (ts @ [t])) ([0..<Suc (length ts)] @ [Suc (length ts)])"
    by (simp add: beacon_first_def)
  ultimately show ?thesis
    by (simp only: first_index_snoc) (simp split: option.split)
qed

lemma beacon_first_Nil [simp]: "beacon_first fp [] = None"
  by (simp add: beacon_first_def beacon_due_def gap_list_def gap_window_def)

definition beacon_msgs :: "'d fp_ops \<Rightarrow> flow_key \<Rightarrow> u64 list \<Rightarrow> 'd ids_msg list" where
  "beacon_msgs fp k ts =
     (case beacon_first fp ts of
        None \<Rightarrow> []
      | Some m \<Rightarrow> [beacon_msg fp k (gap_window (gap_list fp (take m ts)))])"

lemma beacon_first_le: "beacon_first fp ts = Some m \<Longrightarrow> m \<le> length ts"
  by (auto simp: beacon_first_def simp del: upt_Suc dest!: first_index_SomeD)

text \<open>
  What a flow holds after a history, and what has been printed about it: the beacon alert of
  the first prefix that looks like one, and one signature alert for a listed port.
\<close>

definition flow_inv :: "'d fp_ops \<Rightarrow> flow_key \<Rightarrow> u64 list \<Rightarrow> 'd flow \<Rightarrow> bool" where
  "flow_inv fp k ts f \<longleftrightarrow>
     gap_inv fp ts f \<and> flow_key f = k \<and> fl_used f \<and>
     fl_beacon_alerted f = (beacon_first fp ts \<noteq> None) \<and>
     fl_susp_alerted f = (ts \<noteq> [] \<and> susp_msgs k \<noteq> ([] :: 'd ids_msg list))"

lemma flow_inv_claim: "flow_inv fp k [] (flow_claim k (flow_zero fp))"
  by (cases k) (simp add: flow_inv_def gap_inv_def flow_claim_def flow_zero_def flow_key_def
      gap_list_def gap_window_def MAX_GAPS_def)

lemma flow_rules_inv:
  fixes p :: flow_pkt and fp :: "'d fp_ops"
  assumes inv: "flow_inv fp k ts f" and nz: "0 \<notin> set ts" and len: "int (length ts) \<le> INT_MAX"
    and key: "pkt_key p = k"
  shows "\<exists>f' out. flow_rules fp g_debug p f = Some (f', out) \<and> flow_inv fp k (ts @ [ts_ns p]) f' \<and>
    beacon_msgs fp k (ts @ [ts_ns p]) = beacon_msgs fp k ts @ filter is_beacon out \<and>
    filter is_susp out = (if ts = [] then susp_msgs k else [])"
proof -
  define W where "W = gap_window (gap_list fp (ts @ [ts_ns p]))"
  from inv have f: "gap_inv fp ts f" "flow_key f = k" "fl_used f"
    "fl_beacon_alerted f = (beacon_first fp ts \<noteq> None)"
    "fl_susp_alerted f = (ts \<noteq> [] \<and> susp_msgs k \<noteq> ([] :: 'd ids_msg list))"
    by (auto simp: flow_inv_def)
  obtain g o1 where g: "rule_beacon fp g_debug p f = Some (g, o1)" "gap_inv fp (ts @ [ts_ns p]) g"
    "flow_key g = k" "fl_used g" "fl_susp_alerted g = fl_susp_alerted f"
    "fl_beacon_alerted g = (fl_beacon_alerted f \<or> beacon_due fp W)"
    "filter is_beacon o1 = (if beacon_due fp W \<and> \<not> fl_beacon_alerted f then [beacon_msg fp k W] else [])"
    "filter is_susp o1 = []"
    using rule_beacon_spec [OF f(1) nz len, of g_debug p] f by (auto simp: W_def)
  obtain b where b: "rule_suspicious_port p g =
      (g\<lparr>fl_susp_alerted := b\<rparr>, if fl_susp_alerted g then [] else susp_msgs k)"
    "b = (fl_susp_alerted g \<or> susp_msgs k \<noteq> ([] :: 'd ids_msg list))"
    using rule_suspicious_port_spec [OF key, of g] by blast
  have msgs: "beacon_msgs fp k (ts @ [ts_ns p]) = beacon_msgs fp k ts @ filter is_beacon o1"
    using f(4) g(7) beacon_first_le [of fp ts]
    by (auto simp: beacon_msgs_def beacon_first_snoc W_def split: option.splits)
  show ?thesis
    unfolding flow_rules_def g(1)
    using f g(2-8) b msgs
    by (auto simp: flow_inv_def gap_inv_def flow_key_def beacon_first_snoc W_def split: option.splits)
qed

lemma flow_run_inv:
  fixes fp :: "'d fp_ops"
  assumes "\<forall>p \<in> set ps. pkt_key p = k \<and> ts_ns p \<noteq> 0" "int (length ps) \<le> INT_MAX + 1"
  shows "\<exists>f out. flow_run fp g_debug ps (flow_claim k (flow_zero fp)) = Some (f, out) \<and>
    flow_inv fp k (map ts_ns ps) f \<and>
    filter is_beacon out = beacon_msgs fp k (map ts_ns ps) \<and>
    filter is_susp out = (if ps = [] then [] else susp_msgs k)"
  using assms
proof (induction ps rule: rev_induct)
  case Nil
  then show ?case by (simp add: flow_inv_claim beacon_msgs_def)
next
  case (snoc p ps)
  then obtain f out where f: "flow_run fp g_debug ps (flow_claim k (flow_zero fp)) = Some (f, out)"
    "flow_inv fp k (map ts_ns ps) f" "filter is_beacon out = beacon_msgs fp k (map ts_ns ps)"
    "filter is_susp out = (if ps = [] then [] else susp_msgs k)"
    by auto
  have "0 \<notin> set (map ts_ns ps)" "int (length (map ts_ns ps)) \<le> INT_MAX" "pkt_key p = k"
    using snoc.prems by auto
  from flow_rules_inv [OF f(2) this, of g_debug]
  obtain f' o2 where "flow_rules fp g_debug p f = Some (f', o2)"
    "flow_inv fp k (map ts_ns ps @ [ts_ns p]) f'"
    "beacon_msgs fp k (map ts_ns ps @ [ts_ns p]) = beacon_msgs fp k (map ts_ns ps) @ filter is_beacon o2"
    "filter is_susp o2 = (if map ts_ns ps = [] then susp_msgs k else [])"
    by blast
  with f show ?case
    by (simp add: flow_run_snoc)
qed

end
