(* ===== verification/Ids_Scan.thy ===== *)
theory Ids_Scan
  imports Ids_Flow
begin

text \<open>
  23-ids, user half, second part: the port-scan rule of \<open>ids.c\<close>. Each source has an array of
  256 pairs of port and time of which the first \<open>n\<close> are live; the rule first drops the pairs
  older than five seconds by compacting the array in place, then records the port, then
  decides. The lemmas show that the compaction loop is a \<open>filter\<close> and that the live part is the
  set of ports of the source's packets in the last five seconds.
\<close>

definition MAX_SCAN_SRC :: nat where "MAX_SCAN_SRC = 64"

definition MAX_SCAN_PORTS :: nat where "MAX_SCAN_PORTS = 256"

definition SCAN_WINDOW_NS :: u64 where "SCAN_WINDOW_NS = 5 * 1000000000"

definition SCAN_PORT_THRESH :: nat where "SCAN_PORT_THRESH = 20"

definition SCAN_COOLDOWN_NS :: u64 where "SCAN_COOLDOWN_NS = 10 * 1000000000"

record scan_src =
  sc_used :: bool
  sc_saddr :: u32
  sc_seen :: "(u16 \<times> u64) list"
  sc_n :: nat
  sc_last_alert_ts :: u64

definition scan_zero :: scan_src where
  "scan_zero =
     \<lparr>sc_used = False, sc_saddr = 0, sc_seen = replicate MAX_SCAN_PORTS (0, 0), sc_n = 0,
      sc_last_alert_ts = 0\<rparr>"

definition scans_init :: "scan_src list" where
  "scans_init = replicate MAX_SCAN_SRC scan_zero"

definition scan_matches :: "u32 \<Rightarrow> scan_src \<Rightarrow> bool" where
  "scan_matches a sc \<longleftrightarrow> sc_saddr sc = a"

definition scan_claim :: "u32 \<Rightarrow> scan_src \<Rightarrow> scan_src" where
  "scan_claim a sc = sc\<lparr>sc_used := True, sc_saddr := a, sc_n := 0, sc_last_alert_ts := 0\<rparr>"

interpretation scan_table: slot_table sc_used sc_saddr scan_matches scan_claim
  by unfold_locales (auto simp: scan_matches_def scan_claim_def)

section \<open>The rule\<close>

text \<open>
  \<open>for (i = 0; i < n; i++) if (now - seen[i].ts < SCAN_WINDOW_NS) seen[w++] = seen[i];\<close>
  in place.
\<close>

definition scan_compact ::
  "u64 \<Rightarrow> nat \<Rightarrow> (u16 \<times> u64) list \<Rightarrow> nat \<times> (u16 \<times> u64) list" where
  "scan_compact now n seen = compact_loop (\<lambda>e. now - snd e < SCAN_WINDOW_NS) n 0 0 seen"

text \<open>Refreshing the port's time, or appending it while there is room.\<close>

definition scan_record ::
  "u16 \<Rightarrow> u64 \<Rightarrow> nat \<Rightarrow> (u16 \<times> u64) list \<Rightarrow> nat \<times> (u16 \<times> u64) list" where
  "scan_record port now n seen =
     (case first_index (\<lambda>e. fst e = port) (take n seen) of
        Some i \<Rightarrow> (n, seen[i := (fst (seen ! i), now)])
      | None \<Rightarrow>
          if n < MAX_SCAN_PORTS then (Suc n, seen[n := (port, now)]) else (n, seen))"

definition scan_update :: "flow_pkt \<Rightarrow> scan_src \<Rightarrow> scan_src \<times> 'd ids_msg list" where
  "scan_update p sc =
     (let (n1, seen1) = scan_compact (ts_ns p) (sc_n sc) (sc_seen sc);
          (n2, seen2) = scan_record (dport p) (ts_ns p) n1 seen1;
          sc2 = sc\<lparr>sc_n := n2, sc_seen := seen2\<rparr>
      in if SCAN_PORT_THRESH < n2 \<and>
            (sc_last_alert_ts sc = 0 \<or> SCAN_COOLDOWN_NS < ts_ns p - sc_last_alert_ts sc)
         then (sc2\<lparr>sc_last_alert_ts := ts_ns p\<rparr>,
               [Alert_scan (saddr p) n2 (SCAN_WINDOW_NS div 1000000000)])
         else (sc2, []))"

definition rule_portscan :: "flow_pkt \<Rightarrow> scan_src list \<Rightarrow> scan_src list \<times> 'd ids_msg list" where
  "rule_portscan p scans =
     (case get_slot sc_used (scan_matches (saddr p)) (scan_claim (saddr p)) scans of
        (None, ss) \<Rightarrow> (ss, [])
      | (Some i, ss) \<Rightarrow>
          (case scan_update p (ss ! i) of (sc, out) \<Rightarrow> (ss[i := sc], out)))"

section \<open>The live part\<close>

text \<open>The live part of a source after its last packet.\<close>

definition live :: "scan_src \<Rightarrow> (u16 \<times> u64) list" where
  "live sc = take (sc_n sc) (sc_seen sc)"

definition scan_ok :: "scan_src \<Rightarrow> bool" where
  "scan_ok sc \<longleftrightarrow> length (sc_seen sc) = MAX_SCAN_PORTS \<and> sc_n sc \<le> MAX_SCAN_PORTS \<and>
     distinct (map fst (live sc))"

text \<open>The rule on the live part alone, as lists.\<close>

definition live_record :: "u16 \<Rightarrow> u64 \<Rightarrow> (u16 \<times> u64) list \<Rightarrow> (u16 \<times> u64) list" where
  "live_record port now es =
     (if port \<in> fst ` set es then map (\<lambda>e. if fst e = port then (port, now) else e) es
      else if length es < MAX_SCAN_PORTS then es @ [(port, now)] else es)"

definition live_step :: "flow_pkt \<Rightarrow> (u16 \<times> u64) list \<Rightarrow> (u16 \<times> u64) list" where
  "live_step p es =
     live_record (dport p) (ts_ns p) (filter (\<lambda>e. ts_ns p - snd e < SCAN_WINDOW_NS) es)"

lemma update_first_map:
  assumes "distinct (map fst es)" "i < length es" "fst (es ! i) = k"
  shows "es[i := (k, v)] = map (\<lambda>e. if fst e = k then (k, v) else e) es"
proof (rule nth_equalityI)
  fix j
  assume "j < length (es[i := (k, v)])"
  with assms nth_eq_iff_index_eq [OF assms(1), of i j]
  show "es[i := (k, v)] ! j = map (\<lambda>e. if fst e = k then (k, v) else e) es ! j"
    by (auto simp: nth_list_update)
qed simp

lemma scan_record_live:
  assumes "length seen = MAX_SCAN_PORTS" "n \<le> MAX_SCAN_PORTS" "distinct (map fst (take n seen))"
    "scan_record port now n seen = (n', seen')"
  shows "length seen' = MAX_SCAN_PORTS \<and> n' \<le> MAX_SCAN_PORTS \<and>
    take n' seen' = live_record port now (take n seen)"
proof (cases "first_index (\<lambda>e. fst e = port) (take n seen)")
  case None
  then have "port \<notin> fst ` set (take n seen)"
    by (auto simp: first_index_None_iff)
  with None assms show ?thesis
    by (auto simp: scan_record_def live_record_def take_Suc_conv_app_nth split: if_splits)
next
  case (Some i)
  from first_index_SomeD [OF Some] have i: "i < n" "i < length (take n seen)" "fst (take n seen ! i) = port"
    by auto
  then have "port \<in> fst ` set (take n seen)"
    by (metis image_eqI nth_mem)
  with Some i assms update_first_map [OF assms(3) i(2,3), of now] show ?thesis
    by (auto simp: scan_record_def live_record_def take_update_swap)
qed

lemma scan_update_live:
  assumes ok: "scan_ok sc" and upd: "scan_update p sc = (sc', out)"
  shows "live sc' = live_step p (live sc) \<and> length (sc_seen sc') = MAX_SCAN_PORTS \<and>
    sc_n sc' = length (live sc') \<and> sc_used sc' = sc_used sc \<and> sc_saddr sc' = sc_saddr sc"
proof -
  obtain n1 s1 where c: "scan_compact (ts_ns p) (sc_n sc) (sc_seen sc) = (n1, s1)" by force
  obtain n2 s2 where r: "scan_record (dport p) (ts_ns p) n1 s1 = (n2, s2)" by force
  have c': "length s1 = MAX_SCAN_PORTS" "n1 \<le> sc_n sc"
    "take n1 s1 = filter (\<lambda>e. ts_ns p - snd e < SCAN_WINDOW_NS) (live sc)"
    using compact_filter [OF _ c [unfolded scan_compact_def]] ok by (auto simp: scan_ok_def live_def)
  moreover have "distinct (map fst (take n1 s1))"
    using ok by (simp add: c'(3) scan_ok_def distinct_map_filter)
  ultimately have "length s2 = MAX_SCAN_PORTS" "n2 \<le> MAX_SCAN_PORTS"
    "take n2 s2 = live_step p (live sc)"
    using scan_record_live [OF _ _ _ r] ok by (auto simp: live_step_def scan_ok_def)
  with upd show ?thesis
    by (auto simp: scan_update_def c r live_def Let_def split: if_splits)
qed

lemma distinct_live_record:
  "distinct (map fst es) \<Longrightarrow> distinct (map fst (live_record port now es))"
proof -
  have "map fst (map (\<lambda>e. if fst e = port then (port, now) else e) es) = map fst es"
    by (induction es) auto
  then show "distinct (map fst es) \<Longrightarrow> distinct (map fst (live_record port now es))"
    by (auto simp: live_record_def simp del: map_map)
qed

lemma scan_update_ok: "scan_ok sc \<Longrightarrow> scan_update p sc = (sc', out) \<Longrightarrow> scan_ok sc'"
  using scan_update_live [of sc p sc' out]
  by (auto simp: scan_ok_def live_step_def distinct_live_record distinct_map_filter live_def)

section \<open>The live part and the window\<close>

text \<open>
  The live part after the packets of one source, and the ports those packets touched in the
  window that ends now. Times are compared with the wrap-around subtraction of the code.
\<close>

definition live_run :: "flow_pkt list \<Rightarrow> (u16 \<times> u64) list" where
  "live_run ps = foldl (\<lambda>es p. live_step p es) [] ps"

definition recent_ports :: "flow_pkt list \<Rightarrow> u64 \<Rightarrow> u16 set" where
  "recent_ports ps now = dport ` {q \<in> set ps. now - ts_ns q < SCAN_WINDOW_NS}"

lemma live_run_snoc [simp]: "live_run (ps @ [p]) = live_step p (live_run ps)"
  by (simp add: live_run_def)

lemma live_run_Nil [simp]: "live_run [] = []"
  by (simp add: live_run_def)

lemma set_live_step:
  "(port, t) \<in> set (live_step p es) \<Longrightarrow>
   port = dport p \<and> t = ts_ns p \<or>
   (port, t) \<in> set es \<and> ts_ns p - t < SCAN_WINDOW_NS"
  by (auto simp: live_step_def live_record_def split: if_splits)

lemma live_run_sound:
  "(port, t) \<in> set (live_run ps) \<Longrightarrow> \<exists>q \<in> set ps. dport q = port \<and> ts_ns q = t"
  by (induction ps rule: rev_induct) (auto dest!: set_live_step)

lemma live_run_recent: "fst ` set (live_run (ps @ [p])) \<subseteq> recent_ports (ps @ [p]) (ts_ns p)"
proof clarsimp
  fix port t
  assume "(port, t) \<in> set (live_step p (live_run ps))"
  then consider "port = dport p" "t = ts_ns p"
    | "(port, t) \<in> set (live_run ps)" "ts_ns p - t < SCAN_WINDOW_NS"
    using set_live_step by blast
  then show "port \<in> recent_ports (ps @ [p]) (ts_ns p)"
  proof cases
    case 1
    then show ?thesis by (auto simp: recent_ports_def SCAN_WINDOW_NS_def)
  next
    case 2
    with live_run_sound [OF 2(1)] show ?thesis by (fastforce simp: recent_ports_def)
  qed
qed

lemma distinct_live_run: "distinct (map fst (live_run ps))"
  by (induction ps rule: rev_induct)
     (simp_all add: live_step_def distinct_live_record distinct_map_filter)

lemma live_count_le:
  "length (live_run (ps @ [p])) \<le> card (recent_ports (ps @ [p]) (ts_ns p))"
proof -
  have "length (live_run (ps @ [p])) = card (fst ` set (live_run (ps @ [p])))"
    using distinct_live_run [of "ps @ [p]"] by (metis distinct_card length_map list.set_map)
  also have "\<dots> \<le> card (recent_ports (ps @ [p]) (ts_ns p))"
    by (intro card_mono live_run_recent) (simp add: recent_ports_def)
  finally show ?thesis .
qed

text \<open>With a clock that does not run backwards and windows that fit the array, nothing is missed.\<close>

definition scan_fits :: "flow_pkt list \<Rightarrow> bool" where
  "scan_fits ps \<longleftrightarrow>
     (\<forall>m < length ps. card (recent_ports (take (Suc m) ps) (ts_ns (ps ! m))) \<le> MAX_SCAN_PORTS)"

lemma scan_fits_snoc:
  "scan_fits (ps @ [p]) \<longleftrightarrow>
   scan_fits ps \<and> card (recent_ports (ps @ [p]) (ts_ns p)) \<le> MAX_SCAN_PORTS"
  by (auto simp: scan_fits_def less_Suc_eq nth_append)

lemma word_sub_mono:
  fixes a b c :: "'a::len word"
  assumes "a \<le> b" "b \<le> c"
  shows "b - a \<le> c - a" "c - b \<le> c - a"
  using assms by (simp_all add: word_le_nat_alt unat_sub)

lemma live_step_keeps:
  assumes "(port, t) \<in> set es" "ts_ns p - t < SCAN_WINDOW_NS" "t \<le> ts_ns p"
  shows "\<exists>t'. (port, t') \<in> set (live_step p es) \<and> t \<le> t'"
proof (cases "port = dport p")
  case True
  with assms show ?thesis
    by (auto simp: live_step_def live_record_def image_iff intro!: exI [of _ "ts_ns p"])
next
  case False
  with assms show ?thesis
    by (auto simp: live_step_def live_record_def image_iff intro!: exI [of _ t] bexI [of _ "(port, t)"])
qed

lemma sorted_le_last: "sorted xs \<Longrightarrow> x \<in> set xs \<Longrightarrow> x \<le> last xs"
  by (cases xs rule: rev_cases) (auto simp: sorted_append)

lemma live_step_records:
  assumes "card (recent_ports (ps @ [p]) (ts_ns p)) \<le> MAX_SCAN_PORTS"
  shows "(dport p, ts_ns p) \<in> set (live_step p (live_run ps))"
proof -
  define F where "F = filter (\<lambda>e. ts_ns p - snd e < SCAN_WINDOW_NS) (live_run ps)"
  have "distinct (map fst F)"
    using distinct_live_run [of ps] by (simp add: F_def distinct_map_filter)
  then have len: "length F = card (fst ` set F)"
    by (metis distinct_card length_map list.set_map)
  have "insert (dport p) (fst ` set F) \<subseteq> recent_ports (ps @ [p]) (ts_ns p)"
    using live_run_sound [of _ _ ps] by (fastforce simp: F_def recent_ports_def SCAN_WINDOW_NS_def)
  then have "card (insert (dport p) (fst ` set F)) \<le> MAX_SCAN_PORTS"
    by (rule order_trans [OF card_mono assms, rotated]) (simp add: recent_ports_def)
  then have "dport p \<in> fst ` set F \<or> length F < MAX_SCAN_PORTS"
    by (auto simp: len card_insert_if split: if_splits)
  then show ?thesis
    unfolding live_step_def F_def [symmetric] by (auto simp: live_record_def image_iff)
qed

lemma live_run_complete:
  assumes "sorted (map ts_ns ps)" "scan_fits ps" "q \<in> set ps"
    "ts_ns (last ps) - ts_ns q < SCAN_WINDOW_NS"
  shows "\<exists>t. (dport q, t) \<in> set (live_run ps) \<and> ts_ns q \<le> t"
  using assms
proof (induction ps arbitrary: q rule: rev_induct)
  case (snoc p ps)
  have le: "ts_ns r \<le> ts_ns p" if "r \<in> set ps" for r
    using snoc.prems(1) that by (auto simp: sorted_append)
  show ?case
  proof (cases "q \<in> set ps")
    case True
    then have ps: "ps \<noteq> []" by auto
    have qlast: "ts_ns q \<le> ts_ns (last ps)"
      using sorted_le_last [of "map ts_ns ps" "ts_ns q"] snoc.prems(1) True ps
      by (simp add: sorted_append last_map)
    have near: "ts_ns p - ts_ns q < SCAN_WINDOW_NS"
      using snoc.prems(4) by simp
    with word_sub_mono(1) [OF qlast le [OF last_in_set [OF ps]]]
    have "ts_ns (last ps) - ts_ns q < SCAN_WINDOW_NS" by simp
    with snoc.IH [of q] snoc.prems True
    obtain t where t: "(dport q, t) \<in> set (live_run ps)" "ts_ns q \<le> t"
      by (auto simp: sorted_append scan_fits_snoc)
    then have tp: "t \<le> ts_ns p"
      using live_run_sound [OF t(1)] le by auto
    with word_sub_mono(2) [OF t(2) tp] near have "ts_ns p - t < SCAN_WINDOW_NS" by simp
    with live_step_keeps [OF t(1) _ tp] t(2) show ?thesis by fastforce
  next
    case False
    with snoc.prems live_step_records [of ps p] show ?thesis
      by (auto simp: scan_fits_snoc)
  qed
qed simp

lemma live_run_window:
  assumes "sorted (map ts_ns (ps @ [p]))" "scan_fits (ps @ [p])"
  shows "fst ` set (live_run (ps @ [p])) = recent_ports (ps @ [p]) (ts_ns p)"
    and "length (live_run (ps @ [p])) = card (recent_ports (ps @ [p]) (ts_ns p))"
proof -
  show "fst ` set (live_run (ps @ [p])) = recent_ports (ps @ [p]) (ts_ns p)"
  proof (rule antisym [OF live_run_recent])
    show "recent_ports (ps @ [p]) (ts_ns p) \<subseteq> fst ` set (live_run (ps @ [p]))"
    proof
      fix x
      assume "x \<in> recent_ports (ps @ [p]) (ts_ns p)"
      then obtain q where "q \<in> set (ps @ [p])" "x = dport q" "ts_ns p - ts_ns q < SCAN_WINDOW_NS"
        unfolding recent_ports_def by blast
      with live_run_complete [OF assms, of q] show "x \<in> fst ` set (live_run (ps @ [p]))"
        by force
    qed
  qed
  then show "length (live_run (ps @ [p])) = card (recent_ports (ps @ [p]) (ts_ns p))"
    using distinct_live_run [of "ps @ [p]"] by (metis distinct_card length_map list.set_map)
qed

section \<open>A source's slot against its history\<close>

text \<open>The time of the last alert, by the history; zero stands for none.\<close>

definition scan_alerts :: "nat \<Rightarrow> u64 \<Rightarrow> u64 \<Rightarrow> bool" where
  "scan_alerts n now prev \<longleftrightarrow> 20 < n \<and> (prev = 0 \<or> SCAN_COOLDOWN_NS < now - prev)"

fun last_alert :: "flow_pkt list \<Rightarrow> flow_pkt list \<Rightarrow> u64 \<Rightarrow> u64" where
  "last_alert done [] prev = prev"
| "last_alert done (p # ps) prev =
     last_alert (done @ [p]) ps
       (if scan_alerts (length (live_run (done @ [p]))) (ts_ns p) prev then ts_ns p else prev)"

lemma last_alert_snoc:
  "last_alert done (ps @ [p]) prev =
     (let prev' = last_alert done ps prev in
      if scan_alerts (length (live_run (done @ ps @ [p]))) (ts_ns p) prev' then ts_ns p else prev')"
  by (induction "done" ps prev rule: last_alert.induct) (simp_all add: Let_def)

definition scan_inv :: "u32 \<Rightarrow> flow_pkt list \<Rightarrow> scan_src \<Rightarrow> bool" where
  "scan_inv a ps sc \<longleftrightarrow>
     scan_ok sc \<and> sc_used sc \<and> sc_saddr sc = a \<and> live sc = live_run ps \<and>
     sc_last_alert_ts sc = last_alert [] ps 0"

lemma scan_inv_claim: "scan_inv a [] (scan_claim a scan_zero)"
  by (simp add: scan_inv_def scan_ok_def scan_claim_def scan_zero_def live_def)

lemma scan_update_inv:
  assumes inv: "scan_inv (saddr p) ps sc" and upd: "scan_update p sc = (sc', out)"
  shows "scan_inv (saddr p) (ps @ [p]) sc'"
    and "out = (let n = length (live_run (ps @ [p])) in
      if scan_alerts n (ts_ns p) (last_alert [] ps 0) then [Alert_scan (saddr p) n 5] else [])"
proof -
  from inv have ok: "scan_ok sc" by (simp add: scan_inv_def)
  note l = scan_update_live [OF ok upd]
  obtain n1 s1 n2 s2 where c: "scan_compact (ts_ns p) (sc_n sc) (sc_seen sc) = (n1, s1)"
    "scan_record (dport p) (ts_ns p) n1 s1 = (n2, s2)" by (metis surj_pair)
  then have n2: "sc_n sc' = n2"
    using upd by (auto simp: scan_update_def Let_def split: if_splits)
  with l inv have n: "n2 = length (live_run (ps @ [p]))"
    by (simp add: scan_inv_def)
  show "out = (let n = length (live_run (ps @ [p])) in
      if scan_alerts n (ts_ns p) (last_alert [] ps 0) then [Alert_scan (saddr p) n 5] else [])"
    using upd inv c unfolding n [symmetric]
    by (auto simp: scan_update_def Let_def scan_alerts_def SCAN_PORT_THRESH_def SCAN_WINDOW_NS_def
        scan_inv_def split: if_splits)
  have "sc_last_alert_ts sc' = last_alert [] (ps @ [p]) 0"
    using upd inv c unfolding last_alert_snoc append_Nil n [symmetric]
    by (auto simp: scan_update_def Let_def scan_alerts_def SCAN_PORT_THRESH_def scan_inv_def
        split: if_splits)
  with l inv scan_update_ok [OF ok upd] show "scan_inv (saddr p) (ps @ [p]) sc'"
    by (simp add: scan_inv_def)
qed

end
