(* ===== verification/Ids_Engine.thy ===== *)
theory Ids_Engine
  imports Ids_Scan
begin

text \<open>
  23-ids, user half, third part: \<open>handle_event\<close>, which the ring buffer calls once per record,
  and the theorems about the whole rule engine on a sequence of packets. Both tables are
  related to the packet history by the \<open>tracks\<close> relation of the slot-table interface, so each
  theorem is a statement about the packets seen, not about slots.
\<close>

record 'd ids =
  id_flows :: "'d flow list"
  id_scans :: "scan_src list"

definition ids_init :: "'d fp_ops \<Rightarrow> 'd ids" where
  "ids_init fp = \<lparr>id_flows = flows_init fp, id_scans = scans_init\<rparr>"

definition ids_handle_event ::
  "'d fp_ops \<Rightarrow> bool \<Rightarrow> flow_pkt \<Rightarrow> 'd ids \<Rightarrow> ('d ids \<times> 'd ids_msg list) option" where
  "ids_handle_event fp g_debug p st =
     (case flow_event fp g_debug p (id_flows st) of
        None \<Rightarrow> None
      | Some (fs, o1) \<Rightarrow>
          (case rule_portscan p (id_scans st) of (ss, o2) \<Rightarrow>
             Some (\<lparr>id_flows = fs, id_scans = ss\<rparr>, o1 @ o2)))"

text \<open>The engine on a sequence of records; the output of each record is kept apart.\<close>

fun ids_run ::
  "'d fp_ops \<Rightarrow> bool \<Rightarrow> flow_pkt list \<Rightarrow> 'd ids \<Rightarrow> ('d ids \<times> 'd ids_msg list list) option" where
  "ids_run fp g_debug [] st = Some (st, [])"
| "ids_run fp g_debug (p # ps) st =
     (case ids_handle_event fp g_debug p st of
        None \<Rightarrow> None
      | Some (st1, o1) \<Rightarrow>
          (case ids_run fp g_debug ps st1 of None \<Rightarrow> None | Some (st2, os) \<Rightarrow> Some (st2, o1 # os)))"

lemma ids_run_snoc:
  "ids_run fp g_debug (ps @ [p]) st =
     (case ids_run fp g_debug ps st of
        None \<Rightarrow> None
      | Some (st1, os) \<Rightarrow>
          (case ids_handle_event fp g_debug p st1 of
             None \<Rightarrow> None | Some (st2, o2) \<Rightarrow> Some (st2, os @ [o2])))"
  by (induction ps arbitrary: st) (auto split: option.splits)

section \<open>The invariant of the engine\<close>

definition flow_rel :: "'d fp_ops \<Rightarrow> flow_key \<Rightarrow> flow_pkt list \<Rightarrow> 'd flow \<Rightarrow> bool" where
  "flow_rel fp k ps f \<longleftrightarrow> flow_inv fp k (map ts_ns ps) f"

definition ids_inv :: "'d fp_ops \<Rightarrow> flow_pkt list \<Rightarrow> 'd ids \<Rightarrow> bool" where
  "ids_inv fp ps st \<longleftrightarrow>
     length (id_flows st) = MAX_FLOWS \<and> length (id_scans st) = MAX_SCAN_SRC \<and>
     flow_table.tracks (flow_rel fp) (flow_zero fp) (hist pkt_key ps) (id_flows st) \<and>
     scan_table.tracks scan_inv scan_zero (hist saddr ps) (id_scans st)"

lemma ids_inv_init: "ids_inv fp [] (ids_init fp)"
proof -
  have "\<not> fl_used (flow_zero fp)" "\<not> sc_used scan_zero"
    by (simp_all add: flow_zero_def scan_zero_def)
  then show ?thesis
    by (simp add: ids_inv_def ids_init_def flows_init_def scans_init_def hist_Nil
        flow_table.tracks_init scan_table.tracks_init)
qed

text \<open>What one record makes the engine print, by the history.\<close>

definition beacon_now :: "'d fp_ops \<Rightarrow> flow_key \<Rightarrow> u64 list \<Rightarrow> 'd ids_msg list" where
  "beacon_now fp k ts =
     (if beacon_first fp ts = Some (length ts)
      then [beacon_msg fp k (gap_window (gap_list fp ts))] else [])"

definition scan_now :: "u32 \<Rightarrow> flow_pkt list \<Rightarrow> 'd ids_msg list" where
  "scan_now a ps =
     (let n = length (live_run ps) in
      if scan_alerts n (ts_ns (last ps)) (last_alert [] (butlast ps) 0) then [Alert_scan a n 5] else [])"

fun is_scan :: "'d ids_msg \<Rightarrow> bool" where
  "is_scan (Alert_scan _ _ _) = True"
| "is_scan _ = False"

lemma beacon_msgs_now:
  "beacon_msgs fp k (ts @ [t]) = beacon_msgs fp k ts @ xs \<Longrightarrow> xs = beacon_now fp k (ts @ [t])"
  using beacon_first_le [of fp ts]
  by (fastforce simp: beacon_msgs_def beacon_now_def beacon_first_snoc split: option.splits if_splits)

lemma rule_beacon_no_scan: "rule_beacon fp g_debug p f = Some (f', out) \<Longrightarrow> filter is_scan out = []"
  by (auto simp: rule_beacon_def beacon_judge_def Let_def split: option.splits if_splits)

lemma rule_susp_no_scan: "rule_suspicious_port p f = (f', out) \<Longrightarrow> filter is_scan out = []"
  by (auto simp: rule_suspicious_port_def susp_scan_map_of split: option.splits if_splits)

lemma flow_rules_no_scan: "flow_rules fp g_debug p f = Some (f', out) \<Longrightarrow> filter is_scan out = []"
  using rule_beacon_no_scan [of fp g_debug p f] rule_susp_no_scan [of p]
  by (fastforce simp: flow_rules_def split: option.splits prod.splits)

text \<open>A record whose flow has a slot, or gets one.\<close>

lemma flow_event_slot:
  fixes fp :: "'d fp_ops"
  assumes t: "flow_table.tracks (flow_rel fp) (flow_zero fp) (hist pkt_key ps) flows"
    and nz: "\<forall>q \<in> set ps. ts_ns q \<noteq> 0" and len: "int (length ps) \<le> INT_MAX"
    and slot: "flow_get p flows = (Some i, fs)"
  shows "\<exists>f out. flow_event fp g_debug p flows = Some (fs[i := f], out) \<and> length (fs[i := f]) = length flows \<and>
    flow_table.tracks (flow_rel fp) (flow_zero fp) (hist pkt_key (ps @ [p])) (fs[i := f]) \<and>
    flow_table.tmap (fs[i := f]) (pkt_key p) = Some f \<and>
    filter is_beacon out = beacon_now fp (pkt_key p) (map ts_ns (hist pkt_key (ps @ [p]) (pkt_key p))) \<and>
    filter is_susp out = (if hist pkt_key ps (pkt_key p) = [] then susp_msgs (pkt_key p) else []) \<and>
    filter is_scan out = []"
proof -
  let ?k = "pkt_key p"
  have ok: "flow_table.ok (flow_zero fp) flows"
    using t by (simp add: flow_table.tracks_def)
  have get: "get_slot fl_used (flow_matches ?k) (flow_claim ?k) flows = (Some i, fs)"
    using slot by (simp add: flow_get_def)
  have I0: "flow_rel fp ?k [] (flow_claim ?k (flow_zero fp))"
    by (simp add: flow_rel_def flow_inv_claim)
  note tr = flow_table.tracks_Some [OF t I0 get]
  define ts where "ts = map ts_ns (hist pkt_key ps ?k)"
  have inv: "flow_inv fp ?k ts (fs ! i)"
    using tr(1) by (simp add: flow_rel_def ts_def)
  have "length ts \<le> length ps"
    by (simp add: ts_def hist_def)
  then have "0 \<notin> set ts" "int (length ts) \<le> INT_MAX"
    using nz len by (auto simp: ts_def hist_def intro: order_trans [rotated])
  from flow_rules_inv [OF inv this refl, of g_debug] obtain f out where
    f: "flow_rules fp g_debug p (fs ! i) = Some (f, out)" "flow_inv fp ?k (ts @ [ts_ns p]) f"
    "beacon_msgs fp ?k (ts @ [ts_ns p]) = beacon_msgs fp ?k ts @ filter is_beacon out"
    "filter is_susp out = (if ts = [] then susp_msgs ?k else [])"
    by blast
  have used: "fl_used f" "flow_key f = ?k" and rel: "flow_rel fp ?k (hist pkt_key ps ?k @ [p]) f"
    using f(2) by (auto simp: flow_inv_def flow_rel_def ts_def)
  have "flow_table.tmap (fs[i := f]) ?k = Some f" "length (fs[i := f]) = length flows"
    using flow_table.get_slot_Some [OF ok get] used by auto
  with slot f(1,4) tr(2) [OF used rel] beacon_msgs_now [OF f(3)] flow_rules_no_scan [OF f(1)] show ?thesis
    by (intro exI [of _ f] exI [of _ out]) (simp add: flow_event_def hist_snoc ts_def)
qed

lemma flow_event_tracks:
  fixes fp :: "'d fp_ops"
  assumes t: "flow_table.tracks (flow_rel fp) (flow_zero fp) (hist pkt_key ps) flows"
    and nz: "\<forall>q \<in> set ps. ts_ns q \<noteq> 0" and len: "int (length ps) \<le> INT_MAX"
  shows "\<exists>flows' out. flow_event fp g_debug p flows = Some (flows', out) \<and>
    length flows' = length flows \<and>
    flow_table.tracks (flow_rel fp) (flow_zero fp) (hist pkt_key (ps @ [p])) flows' \<and>
    filter is_beacon out =
      (if flow_table.tmap flows' (pkt_key p) = None then []
       else beacon_now fp (pkt_key p) (map ts_ns (hist pkt_key (ps @ [p]) (pkt_key p)))) \<and>
    filter is_susp out =
      (if flow_table.tmap flows' (pkt_key p) = None \<or> hist pkt_key ps (pkt_key p) \<noteq> [] then []
       else susp_msgs (pkt_key p)) \<and>
    filter is_scan out = []"
proof (cases "fst (flow_get p flows)")
  case None
  then obtain fs where slot: "flow_get p flows = (None, fs)"
    by (metis prod.collapse)
  then have "get_slot fl_used (flow_matches (pkt_key p)) (flow_claim (pkt_key p)) flows = (None, fs)"
    by (simp add: flow_get_def)
  from flow_table.tracks_None [OF t this] slot show ?thesis
    by (simp add: flow_event_def hist_snoc)
next
  case (Some i)
  then obtain fs where "flow_get p flows = (Some i, fs)"
    by (metis prod.collapse)
  from flow_event_slot [OF t nz len this, of g_debug] show ?thesis
    by fastforce
qed

lemma rule_portscan_tracks:
  assumes t: "scan_table.tracks scan_inv scan_zero (hist saddr ps) scans"
    and run: "rule_portscan p scans = (scans', out)"
  shows "length scans' = length scans \<and>
    scan_table.tracks scan_inv scan_zero (hist saddr (ps @ [p])) scans' \<and>
    out = (if scan_table.tmap scans' (saddr p) = None then []
           else scan_now (saddr p) (hist saddr (ps @ [p]) (saddr p)))"
proof -
  let ?a = "saddr p"
  have ok: "scan_table.ok scan_zero scans"
    using t by (simp add: scan_table.tracks_def)
  obtain r ss where get: "get_slot sc_used (scan_matches ?a) (scan_claim ?a) scans = (r, ss)"
    by force
  show ?thesis
  proof (cases r)
    case None
    with scan_table.tracks_None [OF t, of ?a ss] get run show ?thesis
      by (simp add: rule_portscan_def hist_snoc)
  next
    case (Some i)
    with get have get: "get_slot sc_used (scan_matches ?a) (scan_claim ?a) scans = (Some i, ss)"
      by simp
    note tr = scan_table.tracks_Some [OF t scan_inv_claim get]
    obtain sc where sc: "scan_update p (ss ! i) = (sc, out)" "scans' = ss[i := sc]"
      using run get by (auto simp: rule_portscan_def split: prod.splits)
    note u = scan_update_inv [OF tr(1) sc(1)]
    have used: "sc_used sc" "sc_saddr sc = ?a"
      using u(1) by (auto simp: scan_inv_def)
    have "scan_table.tracks scan_inv scan_zero (hist saddr (ps @ [p])) scans'"
      using tr(2) [OF used u(1)] by (simp add: hist_snoc sc)
    moreover have "scan_table.tmap scans' ?a = Some sc" "length scans' = length scans"
      using scan_table.get_slot_Some [OF ok get] used sc(2) by auto
    ultimately show ?thesis
      using u(2) by (simp add: scan_now_def hist_snoc)
  qed
qed

definition prints :: "'d fp_ops \<Rightarrow> flow_pkt list \<Rightarrow> flow_pkt \<Rightarrow> 'd ids \<Rightarrow> 'd ids_msg list \<Rightarrow> bool" where
  "prints fp ps p st out \<longleftrightarrow>
     filter is_beacon out =
       (if flow_table.tmap (id_flows st) (pkt_key p) = None then []
        else beacon_now fp (pkt_key p) (map ts_ns (hist pkt_key (ps @ [p]) (pkt_key p)))) \<and>
     filter is_susp out =
       (if flow_table.tmap (id_flows st) (pkt_key p) = None \<or> hist pkt_key ps (pkt_key p) \<noteq> [] then []
        else susp_msgs (pkt_key p)) \<and>
     filter is_scan out =
       (if scan_table.tmap (id_scans st) (saddr p) = None then []
        else scan_now (saddr p) (hist saddr (ps @ [p]) (saddr p)))"

text \<open>One record: the engine returns, keeps its invariant, and prints what the history says.\<close>

lemma ids_handle_event_inv:
  fixes fp :: "'d fp_ops" and p :: flow_pkt
  assumes inv: "ids_inv fp ps st"
    and nz: "\<forall>q \<in> set ps. ts_ns q \<noteq> 0" and len: "int (length ps) \<le> INT_MAX"
  shows "\<exists>st' out. ids_handle_event fp g_debug p st = Some (st', out) \<and>
    ids_inv fp (ps @ [p]) st' \<and> prints fp ps p st' out"
proof -
  from inv have t: "length (id_flows st) = MAX_FLOWS" "length (id_scans st) = MAX_SCAN_SRC"
    "flow_table.tracks (flow_rel fp) (flow_zero fp) (hist pkt_key ps) (id_flows st)"
    "scan_table.tracks scan_inv scan_zero (hist saddr ps) (id_scans st)"
    by (auto simp: ids_inv_def)
  obtain fs o1 where f: "flow_event fp g_debug p (id_flows st) = Some (fs, o1)"
    "length fs = length (id_flows st)"
    "flow_table.tracks (flow_rel fp) (flow_zero fp) (hist pkt_key (ps @ [p])) fs"
    "filter is_beacon o1 = (if flow_table.tmap fs (pkt_key p) = None then []
       else beacon_now fp (pkt_key p) (map ts_ns (hist pkt_key (ps @ [p]) (pkt_key p))))"
    "filter is_susp o1 = (if flow_table.tmap fs (pkt_key p) = None \<or> hist pkt_key ps (pkt_key p) \<noteq> []
       then [] else susp_msgs (pkt_key p))" "filter is_scan o1 = []"
    using flow_event_tracks [OF t(3) nz len, of g_debug p] by blast
  obtain ss and o2 :: "'d ids_msg list" where s: "rule_portscan p (id_scans st) = (ss, o2)" by force
  note s' = rule_portscan_tracks [OF t(4) s]
  have "filter is_beacon o2 = []" "filter is_susp o2 = []" "filter is_scan o2 = o2"
    using s' by (auto simp: scan_now_def Let_def)
  with f s s' t show ?thesis
    by (simp add: ids_handle_event_def ids_inv_def prints_def)
qed

lemma ids_run_inv:
  assumes "\<forall>q \<in> set ps. ts_ns q \<noteq> 0" "int (length ps) \<le> INT_MAX + 1"
  shows "\<exists>st os. ids_run fp g_debug ps (ids_init fp) = Some (st, os) \<and> ids_inv fp ps st"
  using assms
proof (induction ps rule: rev_induct)
  case Nil
  then show ?case by (simp add: ids_inv_init)
next
  case (snoc p ps)
  then obtain st os where st: "ids_run fp g_debug ps (ids_init fp) = Some (st, os)" "ids_inv fp ps st"
    by auto
  have "\<forall>q \<in> set ps. ts_ns q \<noteq> 0" "int (length ps) \<le> INT_MAX"
    using snoc.prems by auto
  from ids_handle_event_inv [OF st(2) this, of g_debug p] st(1) show ?case
    by (auto simp: ids_run_snoc)
qed

text \<open>The last record of a sequence.\<close>

lemma ids_run_last:
  fixes fp :: "'d fp_ops" and p :: flow_pkt
  assumes nz: "\<forall>q \<in> set (ps @ [p]). ts_ns q \<noteq> 0" and len: "length (ps @ [p]) \<le> 2 ^ 31"
  shows "\<exists>st os. ids_run fp g_debug (ps @ [p]) (ids_init fp) = Some (st, os) \<and>
    ids_inv fp (ps @ [p]) st \<and> os \<noteq> [] \<and> prints fp ps p st (last os)"
proof -
  have len': "int (length ps) \<le> INT_MAX" "int (length ps) \<le> INT_MAX + 1"
    using len by (simp_all add: INT_MAX_def)
  have nz': "\<forall>q \<in> set ps. ts_ns q \<noteq> 0" using nz by simp
  obtain st os where st: "ids_run fp g_debug ps (ids_init fp) = Some (st, os)" "ids_inv fp ps st"
    using ids_run_inv [OF nz' len'(2)] by blast
  from ids_handle_event_inv [OF st(2) nz' len'(1), of g_debug p] st(1) show ?thesis
    by (auto simp: ids_run_snoc)
qed

lemma flows_all_tracked:
  assumes "ids_inv fp ps st" "card (pkt_key ` set ps) \<le> 1024" "p \<in> set ps"
  shows "flow_table.tmap (id_flows st) (pkt_key p) \<noteq> None"
  using assms flow_table.tracks_all [of "flow_rel fp" "flow_zero fp" "hist pkt_key ps" "id_flows st" "pkt_key p"]
  by (auto simp: ids_inv_def hist_keys MAX_FLOWS_def) (auto simp: hist_def filter_empty_conv)

lemma scans_all_tracked:
  assumes "ids_inv fp ps st" "card (saddr ` set ps) \<le> 64" "p \<in> set ps"
  shows "scan_table.tmap (id_scans st) (saddr p) \<noteq> None"
  using assms scan_table.tracks_all [of scan_inv scan_zero "hist saddr ps" "id_scans st" "saddr p"]
  by (auto simp: ids_inv_def hist_keys MAX_SCAN_SRC_def) (auto simp: hist_def filter_empty_conv)

text \<open>Every record of a sequence, by its place.\<close>

lemma ids_run_prefix:
  assumes "ids_run fp g_debug ps st = Some (st', os)" "i \<le> length ps"
  shows "length os = length ps \<and>
    (\<exists>st1. ids_run fp g_debug (take i ps) st = Some (st1, take i os))"
  using assms
proof (induction ps arbitrary: st os i)
  case (Cons p ps)
  then obtain st1 o1 os1 where st1: "ids_handle_event fp g_debug p st = Some (st1, o1)"
    "ids_run fp g_debug ps st1 = Some (st', os1)" "os = o1 # os1"
    by (auto split: option.splits)
  then show ?case
    using Cons.IH [OF st1(2), of "i - 1"] Cons.prems(2) by (cases i) auto
qed simp

lemma ids_run_nth:
  assumes nz: "\<forall>q \<in> set ps. ts_ns q \<noteq> 0" and len: "length ps \<le> 2 ^ 31"
    and run: "ids_run fp g_debug ps (ids_init fp) = Some (st, os)" and i: "i < length ps"
  shows "\<exists>st1. ids_inv fp (take (Suc i) ps) st1 \<and> prints fp (take i ps) (ps ! i) st1 (os ! i)"
proof -
  have take_Suc: "take (Suc i) ps = take i ps @ [ps ! i]"
    using i by (simp add: take_Suc_conv_app_nth)
  have "length os = length ps" and pre: "\<exists>st1. ids_run fp g_debug (take (Suc i) ps) (ids_init fp) = Some (st1, take (Suc i) os)"
    using ids_run_prefix [OF run, of "Suc i"] i by auto
  moreover from this i have "last (take (Suc i) os) = os ! i"
    by (simp add: take_Suc_conv_app_nth)
  moreover have "\<forall>q \<in> set (take i ps @ [ps ! i]). ts_ns q \<noteq> 0" "length (take i ps @ [ps ! i]) \<le> 2 ^ 31"
    using nz len i by (auto dest: in_set_takeD)
  ultimately show ?thesis
    using ids_run_last [of "take i ps" "ps ! i" fp g_debug] unfolding take_Suc by auto
qed

text \<open>Whether the record at a place of a source's history raised an alert.\<close>

definition alerts_at :: "flow_pkt list \<Rightarrow> nat \<Rightarrow> bool" where
  "alerts_at S j \<longleftrightarrow>
     scan_alerts (length (live_run (take (Suc j) S))) (ts_ns (S ! j)) (last_alert [] (take j S) 0)"

lemma alerts_at_append: "j < length S \<Longrightarrow> alerts_at (S @ T) j = alerts_at S j"
  by (simp add: alerts_at_def nth_append)

lemma alerts_at_last:
  "alerts_at (S @ [p]) (length S) \<longleftrightarrow>
   scan_alerts (length (live_run (S @ [p]))) (ts_ns p) (last_alert [] S 0)"
  by (simp add: alerts_at_def)

lemma scan_now_alerts:
  "j < length S \<Longrightarrow>
   scan_now a (take (Suc j) S) =
     (if alerts_at S j then [Alert_scan a (length (live_run (take (Suc j) S))) 5] else [])"
  by (simp add: scan_now_def alerts_at_def take_Suc_conv_app_nth Let_def)

text \<open>The time of the last alert is the time of a record that raised one.\<close>

lemma last_alert_from:
  "last_alert [] S 0 \<noteq> 0 \<Longrightarrow>
   \<exists>j < length S. last_alert [] S 0 = ts_ns (S ! j) \<and> alerts_at S j"
proof (induction S rule: rev_induct)
  case (snoc p S)
  show ?case
  proof (cases "alerts_at (S @ [p]) (length S)")
    case True
    then show ?thesis
      by (intro exI [of _ "length S"]) (simp add: last_alert_snoc Let_def alerts_at_last)
  next
    case False
    then have same: "last_alert [] (S @ [p]) 0 = last_alert [] S 0"
      by (simp add: last_alert_snoc Let_def alerts_at_last)
    with snoc obtain j where "j < length S" "last_alert [] S 0 = ts_ns (S ! j)" "alerts_at S j"
      by metis
    with same show ?thesis
      by (intro exI [of _ j]) (simp add: nth_append alerts_at_append)
  qed
qed simp

lemma last_alert_in: "last_alert [] S 0 \<noteq> 0 \<Longrightarrow> \<exists>q \<in> set S. last_alert [] S 0 = ts_ns q"
  by (auto dest!: last_alert_from)

text \<open>While the scan table has room, each record's output is the one of its source's history.\<close>

lemma ids_run_scan_out:
  assumes nz: "\<forall>q \<in> set ps. ts_ns q \<noteq> 0" and len: "length ps \<le> 2 ^ 31"
    and srcs: "card (saddr ` set ps) \<le> 64"
    and run: "ids_run fp g_debug ps (ids_init fp) = Some (st, os)" and i: "i < length ps"
  shows "filter is_scan (os ! i) =
    scan_now (saddr (ps ! i)) (hist saddr (take i ps @ [ps ! i]) (saddr (ps ! i)))"
proof -
  from ids_run_nth [OF nz len run i] i obtain st1 where
    st1: "ids_inv fp (take i ps @ [ps ! i]) st1" "prints fp (take i ps) (ps ! i) st1 (os ! i)"
    by (auto simp: take_Suc_conv_app_nth)
  have "saddr ` set (take i ps @ [ps ! i]) \<subseteq> saddr ` set ps"
    using i by (auto dest: in_set_takeD)
  then have "card (saddr ` set (take i ps @ [ps ! i])) \<le> 64"
    using srcs by (meson List.finite_set card_mono finite_imageI order_trans)
  from scans_all_tracked [OF st1(1) this, of "ps ! i"] st1(2) show ?thesis
    by (auto simp: prints_def)
qed

text \<open>An alert of a source's history is an alert of the run.\<close>

lemma ids_run_scan_at:
  fixes a :: u32
  assumes nz: "\<forall>q \<in> set (ps @ qs). ts_ns q \<noteq> 0" and len: "length (ps @ qs) \<le> 2 ^ 31"
    and srcs: "card (saddr ` set (ps @ qs)) \<le> 64"
    and run: "ids_run fp g_debug (ps @ qs) (ids_init fp) = Some (st, os)"
  defines "S \<equiv> filter (\<lambda>q. saddr q = a) ps"
  assumes j: "j < length S" "alerts_at S j"
  shows "\<exists>i < length ps. \<exists>m. Alert_scan a m 5 \<in> set (os ! i) \<and> ps ! i = S ! j \<and> saddr (ps ! i) = a"
proof -
  from filter_nth_ex [OF j(1) [unfolded S_def]] obtain i where
    i: "i < length ps" "saddr (ps ! i) = a" "ps ! i = S ! j"
    "filter (\<lambda>q. saddr q = a) (take i ps) = take j S"
    unfolding S_def by blast
  then have hist: "hist saddr (take i ps @ [ps ! i]) a = take (Suc j) S"
    using j(1) by (simp add: hist_def take_Suc_conv_app_nth)
  have "filter is_scan (os ! i) = scan_now a (take (Suc j) S)"
    using ids_run_scan_out [OF nz len srcs run, of i] i hist by (simp add: nth_append)
  also have "\<dots> = [Alert_scan a (length (live_run (take (Suc j) S))) 5]"
    using j by (simp add: scan_now_alerts)
  finally have "Alert_scan a (length (live_run (take (Suc j) S))) 5 \<in> set (filter is_scan (os ! i))"
    by simp
  with i show ?thesis by auto
qed

text \<open>After an alert the recorded time never falls behind it, if the clock does not.\<close>

lemma last_alert_ge:
  assumes "sorted (map ts_ns S)" "j < length S" "alerts_at S j" "\<forall>q \<in> set S. ts_ns q \<noteq> 0"
  shows "ts_ns (S ! j) \<le> last_alert [] S 0 \<and> last_alert [] S 0 \<noteq> 0"
  using assms
proof (induction S rule: rev_induct)
  case (snoc p S)
  show ?case
  proof (cases "j = length S")
    case True
    with snoc.prems show ?thesis
      by (simp add: last_alert_snoc Let_def alerts_at_last)
  next
    case False
    then have j: "j < length S" using snoc.prems by simp
    with snoc.prems have "ts_ns (S ! j) \<le> ts_ns p"
      by (auto simp: sorted_append)
    with j snoc show ?thesis
      by (auto simp: last_alert_snoc Let_def nth_append sorted_append alerts_at_append)
  qed
qed simp

section \<open>Exact arithmetic\<close>

text \<open>Packets at a fixed distance, judged in rounded arithmetic.\<close>

lemma gap_window_replicate: "gap_window (replicate n g) = replicate (min 8 n) g"
proof (rule nth_equalityI)
  fix j
  assume "j < length (gap_window (replicate n g))"
  then show "gap_window (replicate n g) ! j = replicate (min 8 n) g ! j"
    by (subst gap_window_nth) simp_all
qed simp

context rounding
begin

text \<open>One more operation on a value near \<open>y\<close>.\<close>

lemma rnd_near:
  assumes "\<bar>x - y\<bar> \<le> e" "e \<le> y / 10 ^ 10" "1 \<le> y" "y \<le> 2000"
  shows "\<bar>rnd x - y\<bar> \<le> e + 3 * y / 10 ^ 15"
proof -
  have x: "1 / 2 \<le> x" "x \<le> 10 ^ 6" "x \<le> y + y / 10 ^ 10"
    using assms by (simp_all add: abs_le_iff)
  have "\<bar>rnd x - x\<bar> \<le> 2 * x / 10 ^ 15" by (rule rnd_rel [OF x(1,2)])
  also have "\<dots> \<le> 3 * y / 10 ^ 15" using x assms(3) by simp
  finally show ?thesis using assms(1) by linarith
qed

text \<open>Five equal gaps: the mean is within a few units in the last place of the distance.\<close>

lemma five_gaps:
  fixes q :: real
  assumes q: "1 \<le> q" "q \<le> 300" and g: "g = rnd q"
  shows "\<bar>g - q\<bar> \<le> q / 10 ^ 14"
    "\<bar>rnd (rnd (rnd (rnd (rnd (rnd g + g) + g) + g) + g) / 5) - q\<bar> \<le> 3 * q / 10 ^ 14"
proof -
  have g': "\<bar>g - q\<bar> \<le> 3 * q / 10 ^ 15"
    using rnd_near [of q q 0] q g by simp
  define s1 s2 s3 s4 s5 where s: "s1 = rnd g" "s2 = rnd (s1 + g)" "s3 = rnd (s2 + g)" "s4 = rnd (s3 + g)" "s5 = rnd (s4 + g)"
  have s1: "\<bar>s1 - q\<bar> \<le> 6 * q / 10 ^ 15"
    using rnd_near [OF g'] q by (simp add: s)
  have "\<bar>s1 + g - 2 * q\<bar> \<le> 9 * q / 10 ^ 15"
    using s1 g' by linarith
  from rnd_near [OF this] q have s2: "\<bar>s2 - 2 * q\<bar> \<le> 15 * q / 10 ^ 15" by (simp add: s)
  have "\<bar>s2 + g - 3 * q\<bar> \<le> 18 * q / 10 ^ 15"
    using s2 g' by linarith
  from rnd_near [OF this] q have s3: "\<bar>s3 - 3 * q\<bar> \<le> 27 * q / 10 ^ 15" by (simp add: s)
  have "\<bar>s3 + g - 4 * q\<bar> \<le> 30 * q / 10 ^ 15"
    using s3 g' by linarith
  from rnd_near [OF this] q have s4: "\<bar>s4 - 4 * q\<bar> \<le> 42 * q / 10 ^ 15" by (simp add: s)
  have "\<bar>s4 + g - 5 * q\<bar> \<le> 45 * q / 10 ^ 15"
    using s4 g' by linarith
  from rnd_near [OF this] q have s5: "\<bar>s5 - 5 * q\<bar> \<le> 60 * q / 10 ^ 15" by (simp add: s)
  then have "\<bar>s5 / 5 - q\<bar> \<le> 12 * q / 10 ^ 15" by linarith
  from rnd_near [OF this] q have "\<bar>rnd (s5 / 5) - q\<bar> \<le> 15 * q / 10 ^ 15" by simp
  then show "\<bar>rnd (rnd (rnd (rnd (rnd (rnd g + g) + g) + g) + g) / 5) - q\<bar> \<le> 3 * q / 10 ^ 14"
    using q by (simp add: s)
  show "\<bar>g - q\<bar> \<le> q / 10 ^ 14" using g' q by simp
qed

text \<open>What rounding leaves of a small value, and of the spread of five equal gaps.\<close>

lemma rnd_tiny: "\<bar>x\<bar> \<le> b \<Longrightarrow> 1 / 10 ^ 100 \<le> b \<Longrightarrow> b \<le> 1 \<Longrightarrow> \<bar>rnd x\<bar> \<le> 2 * b"
proof -
  assume b: "\<bar>x\<bar> \<le> b" "1 / 10 ^ 100 \<le> b" "b \<le> 1"
  have "1 / (10 :: real) ^ 300 \<le> 1 / 10 ^ 101"
    by (intro divide_left_mono power_increasing) simp_all
  also have "\<dots> \<le> b / 10" using b(2) by simp
  finally have t: "1 / 10 ^ 300 \<le> b / 10" .
  have "\<bar>rnd x - x\<bar> \<le> \<bar>x\<bar> / 10 ^ 15 + 1 / 10 ^ 300"
    using b by (intro rnd_small) simp
  moreover have "\<bar>x\<bar> / 10 ^ 15 \<le> \<bar>x\<bar> / 2" by (rule divide_left_mono) simp_all
  ultimately show ?thesis using b(1) t by linarith
qed

lemma five_spread:
  assumes "\<bar>d\<bar> \<le> 1 / 10 ^ 10" "v = rnd (rnd d * rnd d)"
  shows "\<bar>rnd (sqrt (rnd (rnd (rnd (rnd (rnd (rnd v + v) + v) + v) + v) / 5)))\<bar> \<le> 1 / 10 ^ 7"
proof -
  have rd: "\<bar>rnd d\<bar> \<le> 2 / 10 ^ 10" using rnd_tiny [OF assms(1)] by simp
  have "\<bar>rnd d * rnd d\<bar> \<le> 2 / 10 ^ 10 * (2 / 10 ^ 10)"
    unfolding abs_mult by (intro mult_mono rd) simp_all
  then have v: "\<bar>v\<bar> \<le> 8 / 10 ^ 20"
    using rnd_tiny [of "rnd d * rnd d" "4 / 10 ^ 20"] assms(2) by simp
  define v1 v2 v3 v4 v5 where s: "v1 = rnd v" "v2 = rnd (v1 + v)" "v3 = rnd (v2 + v)" "v4 = rnd (v3 + v)" "v5 = rnd (v4 + v)"
  have v1: "\<bar>v1\<bar> \<le> 16 / 10 ^ 20" using rnd_tiny [OF v] by (simp add: s)
  have "\<bar>v1 + v\<bar> \<le> 24 / 10 ^ 20" using v1 v by linarith
  from rnd_tiny [OF this] have v2: "\<bar>v2\<bar> \<le> 48 / 10 ^ 20" by (simp add: s)
  have "\<bar>v2 + v\<bar> \<le> 56 / 10 ^ 20" using v2 v by linarith
  from rnd_tiny [OF this] have v3: "\<bar>v3\<bar> \<le> 112 / 10 ^ 20" by (simp add: s)
  have "\<bar>v3 + v\<bar> \<le> 120 / 10 ^ 20" using v3 v by linarith
  from rnd_tiny [OF this] have v4: "\<bar>v4\<bar> \<le> 240 / 10 ^ 20" by (simp add: s)
  have "\<bar>v4 + v\<bar> \<le> 248 / 10 ^ 20" using v4 v by linarith
  from rnd_tiny [OF this] have v5: "\<bar>v5\<bar> \<le> 500 / 10 ^ 20" by (simp add: s)
  then have "\<bar>v5 / 5\<bar> \<le> 100 / 10 ^ 20" by simp
  from rnd_tiny [OF this] have var: "\<bar>rnd (v5 / 5)\<bar> \<le> (2 / 10 ^ 9) ^ 2" by (simp add: power2_eq_square)
  have "\<bar>sqrt (rnd (v5 / 5))\<bar> = sqrt \<bar>rnd (v5 / 5)\<bar>"
    by (simp add: abs_if real_sqrt_minus)
  also have "\<dots> \<le> 2 / 10 ^ 9"
    using var by (intro real_le_lsqrt) simp_all
  finally have "\<bar>rnd (sqrt (rnd (v5 / 5)))\<bar> \<le> 2 * (2 / 10 ^ 9)"
    by (intro rnd_tiny) simp_all
  then show ?thesis by (simp add: s)
qed

lemma near_range:
  fixes m q :: real
  assumes "\<bar>m - q\<bar> \<le> 3 * q / 10 ^ 14" "1 + 1 / 10 ^ 9 \<le> q" "q \<le> 300 - 1 / 10 ^ 9"
  shows "1 \<le> m \<and> m \<le> 300"
proof -
  have "3 * q / 10 ^ 14 \<le> 1 / 10 ^ 9" using assms(3) by simp
  with assms show ?thesis by linarith
qed

lemma near_both:
  fixes g m q :: real
  assumes "\<bar>g - q\<bar> \<le> q / 10 ^ 14" "\<bar>m - q\<bar> \<le> 3 * q / 10 ^ 14" "1 \<le> q" "q \<le> 300"
  shows "\<bar>g - m\<bar> \<le> 1 / 10 ^ 10"
proof -
  have "\<bar>g - m\<bar> \<le> 4 * q / 10 ^ 14" using assms(1,2) by linarith
  also have "\<dots> \<le> 1 / 10 ^ 10" using assms(4) by simp
  finally show ?thesis .
qed

text \<open>The mean stays within the interval the rule asks for, its ends included.\<close>

lemma five_mean_range:
  assumes T: "10 ^ 9 \<le> T" "T \<le> 300 * 10 ^ 9" and g: "g = rnd (real T / 10 ^ 9)"
  shows "1 \<le> rnd (rnd (rnd (rnd (rnd (rnd g + g) + g) + g) + g) / 5) \<and>
    rnd (rnd (rnd (rnd (rnd (rnd g + g) + g) + g) + g) / 5) \<le> 300"
proof -
  consider "T = 10 ^ 9" | "T = 300 * 10 ^ 9" | "10 ^ 9 + 1 \<le> T" "T + 1 \<le> 300 * 10 ^ 9"
    using T by linarith
  then show ?thesis
  proof cases
    case 1
    then show ?thesis by (simp add: g rnd_numeral)
  next
    case 2
    then show ?thesis by (simp add: g rnd_numeral)
  next
    case 3
    then have "real (10 ^ 9 + 1) \<le> real T" "real (T + 1) \<le> real (300 * 10 ^ 9)"
      by (simp_all only: of_nat_le_iff)
    then have q: "1 + 1 / 10 ^ 9 \<le> real T / 10 ^ 9" "real T / 10 ^ 9 \<le> 300 - 1 / 10 ^ 9"
      by simp_all
    then have "1 \<le> real T / 10 ^ 9" "real T / 10 ^ 9 \<le> 300" by simp_all
    from near_range [OF five_gaps(2) [OF this g] q] show ?thesis .
  qed
qed

lemma five_due:
  assumes T: "10 ^ 9 \<le> T" "T \<le> 300 * 10 ^ 9" and g: "g = rnd (real T / 10 ^ 9)"
  defines "mean \<equiv> beacon_mean (rounded_fp rnd) 5 (replicate 5 g)"
  defines "cv \<equiv> beacon_cv (rounded_fp rnd) 5 (replicate 5 g) mean"
  shows "beacon_due (rounded_fp rnd) (replicate 5 g)" "\<bar>mean - real T / 10 ^ 9\<bar> \<le> 1 / 10 ^ 10"
    "\<bar>rnd (cv * rnd 100)\<bar> \<le> 1 / 10 ^ 4"
proof -
  have five: "replicate 5 g = [g, g, g, g, g]" by (simp add: numeral_eq_Suc)
  have mean: "mean = rnd (rnd (rnd (rnd (rnd (rnd g + g) + g) + g) + g) / 5)"
    by (simp add: mean_def beacon_mean_def rounded_fp_def five rnd_numeral)
  have range: "1 \<le> mean" "mean \<le> 300"
    using five_mean_range [OF T g] by (simp_all add: mean)
  have "real (10 ^ 9) \<le> real T" "real T \<le> real (300 * 10 ^ 9)"
    using T by (simp_all only: of_nat_le_iff)
  then have q: "1 \<le> real T / 10 ^ 9" "real T / 10 ^ 9 \<le> 300" by simp_all
  note close = five_gaps [OF q g, folded mean]
  then show near: "\<bar>mean - real T / 10 ^ 9\<bar> \<le> 1 / 10 ^ 10"
    using q by (simp add: abs_le_iff)
  have d: "\<bar>g - mean\<bar> \<le> 1 / 10 ^ 10"
    by (rule near_both [OF close q])
  have cv: "cv = rnd (rnd (sqrt (rnd (rnd (rnd (rnd (rnd (rnd (rnd (rnd (g - mean) * rnd (g - mean))) +
      rnd (rnd (g - mean) * rnd (g - mean))) + rnd (rnd (g - mean) * rnd (g - mean))) +
      rnd (rnd (g - mean) * rnd (g - mean))) + rnd (rnd (g - mean) * rnd (g - mean))) / 5))) / mean)"
    using range by (simp add: cv_def beacon_cv_def rounded_fp_def five rnd_numeral)
  have "\<bar>cv\<bar> \<le> 2 * (1 / 10 ^ 7)"
    unfolding cv
  proof (rule rnd_tiny)
    let ?y = "rnd (sqrt (rnd (rnd (rnd (rnd (rnd (rnd (rnd (rnd (g - mean) * rnd (g - mean))) +
      rnd (rnd (g - mean) * rnd (g - mean))) + rnd (rnd (g - mean) * rnd (g - mean))) +
      rnd (rnd (g - mean) * rnd (g - mean))) + rnd (rnd (g - mean) * rnd (g - mean))) / 5)))"
    have "\<bar>?y\<bar> \<le> 1 / 10 ^ 7" by (rule five_spread [OF d refl])
    moreover have "\<bar>?y / mean\<bar> \<le> \<bar>?y\<bar>"
      using range(1) by (simp add: abs_divide divide_le_eq mult_le_cancel_left1)
    ultimately show "\<bar>?y / mean\<bar> \<le> 1 / 10 ^ 7" by linarith
  qed simp_all
  then have small: "\<bar>cv\<bar> \<le> 2 / 10 ^ 7" by simp
  have "\<bar>cv * rnd 100\<bar> \<le> 2 / 10 ^ 5"
    using small by (simp add: rnd_numeral abs_mult)
  from rnd_tiny [OF this] show "\<bar>rnd (cv * rnd 100)\<bar> \<le> 1 / 10 ^ 4" by simp
  have "1 / 20 \<le> rnd (of_rat (1 / 10))"
  proof -
    have "\<bar>rnd (1 / 10) - 1 / 10\<bar> \<le> \<bar>1 / 10\<bar> / 10 ^ 15 + 1 / 10 ^ 300" by (rule rnd_small) simp
    also have "\<dots> \<le> 1 / 20" by simp
    finally have "1 / 20 \<le> rnd (1 / 10)" by linarith
    then show ?thesis by (simp add: of_rat_divide)
  qed
  with small have "\<not> rnd (of_rat (1 / 10)) < cv" by (simp add: abs_le_iff)
  with range show "beacon_due (rounded_fp rnd) (replicate 5 g)"
    by (simp add: beacon_due_def Let_def cv_def [symmetric] mean_def [symmetric])
       (simp add: rounded_fp_def rnd_numeral)
qed

end

definition every :: "u64 \<Rightarrow> u64 \<Rightarrow> nat \<Rightarrow> u64 list" where
  "every t0 T m = map (\<lambda>i. t0 + of_nat i * T) [0..<m]"

lemma take_every: "k \<le> m \<Longrightarrow> take k (every t0 T m) = every t0 T k"
  by (simp add: every_def take_map min_def)

lemma gap_list_every:
  "gap_list fp (every t0 T m) = replicate (m - 1) (fp_div fp (fp_of_u64 fp T) (fp_lit fp 1000000000))"
proof (rule nth_equalityI)
  fix i
  assume "i < length (gap_list fp (every t0 T m))"
  then have i: "i < m - 1" "Suc i < m" by (auto simp: every_def)
  then have "every t0 T m ! Suc i - every t0 T m ! i = T"
    by (simp add: every_def algebra_simps)
  with i show "gap_list fp (every t0 T m) ! i = replicate (m - 1) (fp_div fp (fp_of_u64 fp T) (fp_lit fp 1000000000)) ! i"
    by (simp add: gap_list_def beacon_gap_def) (simp add: every_def)
qed (simp add: every_def)

lemma beacon_first_every:
  assumes "g = fp_div fp (fp_of_u64 fp T) (fp_lit fp 1000000000)" "beacon_due fp (replicate 5 g)"
  shows "beacon_first fp (every t0 T m) = (if 6 \<le> m then Some 6 else None)"
proof -
  have len: "length (every t0 T m) = m"
    by (simp add: every_def)
  have window: "gap_window (gap_list fp (take k (every t0 T m))) = replicate (min 8 (k - 1)) g" if "k \<le> m" for k
    using that assms(1) by (simp add: take_every gap_list_every gap_window_replicate)
  have few: "\<not> beacon_due fp (replicate n x)" if "n < 5" for n x
    using that by (simp add: beacon_due_def)
  show ?thesis
  proof (cases "6 \<le> m")
    case True
    have "first_index (\<lambda>k. beacon_due fp (gap_window (gap_list fp (take k (every t0 T m))))) [0..<Suc m] = Some 6"
    proof (rule first_index_eqI)
      show "beacon_due fp (gap_window (gap_list fp (take ([0..<Suc m] ! 6) (every t0 T m))))"
        using True assms(2) window [of 6] by (simp del: upt_Suc)
      show "\<not> beacon_due fp (gap_window (gap_list fp (take ([0..<Suc m] ! j) (every t0 T m))))" if "j < 6" for j
        using that True window [of j] few [of "min 8 (j - 1)" g] by (simp del: upt_Suc)
    qed (use True in simp)
    with True show ?thesis by (simp only: beacon_first_def len) simp
  next
    case False
    have "\<not> beacon_due fp (gap_window (gap_list fp (take k (every t0 T m))))" if "k \<in> set [0..<Suc m]" for k
      using that False window [of k] few [of "min 8 (k - 1)" g] by (auto simp del: upt_Suc)
    with False show ?thesis by (simp add: beacon_first_def len first_index_None_iff del: upt_Suc)
  qed
qed

section \<open>Sample traffic\<close>

definition demo_pkt :: "u64 \<Rightarrow> u16 \<Rightarrow> flow_pkt" where
  "demo_pkt t port =
     \<lparr>ts_ns = t, saddr = 0x0100000A, daddr = 0x0200000A, sport = 0x3930, dport = port,
      pkt_len = 60, proto = 6\<rparr>"

text \<open>Six packets ten seconds apart to port 4444, and a sweep over 21 ports in 21 ns.\<close>

definition demo_beacon :: "flow_pkt list" where
  "demo_beacon = map (\<lambda>i. demo_pkt (1 + of_nat i * 10000000000) (bswap16 4444)) [0..<6]"

definition demo_sweep :: "flow_pkt list" where
  "demo_sweep = map (\<lambda>i. demo_pkt (1 + of_nat i) (of_nat i)) [0..<20]"

text \<open>Two such sweeps, twenty seconds apart.\<close>

definition demo_sweeps :: "flow_pkt list" where
  "demo_sweeps =
     map (\<lambda>i. demo_pkt (1 + of_nat i) (of_nat i)) [0..<21] @
     map (\<lambda>i. demo_pkt (20000000000 + of_nat i) (of_nat i)) [0..<21]"

lemma demo_pkt_simps [simp]:
  "ts_ns (demo_pkt t port) = t" "saddr (demo_pkt t port) = 0x0100000A"
  "daddr (demo_pkt t port) = 0x0200000A" "dport (demo_pkt t port) = port"
  "proto (demo_pkt t port) = 6" "pkt_key (demo_pkt t port) = (0x0100000A, 0x0200000A, port, 6)"
  by (simp_all add: demo_pkt_def pkt_key_def)

lemma scan_fits_short: "length ps \<le> 256 \<Longrightarrow> scan_fits ps"
proof -
  assume "length ps \<le> 256"
  moreover have "card (recent_ports qs now) \<le> length qs" for qs now
  proof -
    have "card (recent_ports qs now) \<le> card {q \<in> set qs. now - ts_ns q < SCAN_WINDOW_NS}"
      unfolding recent_ports_def by (rule card_image_le) simp
    also have "\<dots> \<le> card (set qs)" by (rule card_mono) auto
    also have "\<dots> \<le> length qs" by (rule card_length)
    finally show ?thesis .
  qed
  ultimately show ?thesis
    unfolding scan_fits_def MAX_SCAN_PORTS_def
    by (metis (no_types, lifting) length_take min.bounded_iff order_trans min.cobounded1)
qed

text \<open>Live part and last alert in one pass, for evaluation.\<close>

definition scan_fold :: "(u16 \<times> u64) list \<times> u64 \<Rightarrow> flow_pkt \<Rightarrow> (u16 \<times> u64) list \<times> u64" where
  "scan_fold st p =
     (let es = live_step p (fst st)
      in (es, if scan_alerts (length es) (ts_ns p) (snd st) then ts_ns p else snd st))"

lemma scan_fold_eq: "foldl scan_fold ([], 0) S = (live_run S, last_alert [] S 0)"
  by (induction S rule: rev_induct) (simp_all add: scan_fold_def last_alert_snoc Let_def)

lemma demo_sweeps_fold:
  "snd (foldl scan_fold ([], 0) (take 20 demo_sweeps)) = 0"
  "length (fst (foldl scan_fold ([], 0) (take 21 demo_sweeps))) = 21"
  "snd (foldl scan_fold ([], 0) (take 41 demo_sweeps)) = 21"
  "length (fst (foldl scan_fold ([], 0) demo_sweeps)) = 21"
  by code_simp+

lemma card_image_le_length: "card (f ` set xs) \<le> length xs"
  by (metis card_length length_map list.set_map)

lemma demo_sweeps_facts:
  "\<forall>q \<in> set demo_sweeps. ts_ns q \<noteq> 0" "sorted (map ts_ns demo_sweeps)" "length demo_sweeps = 42"
  "card (saddr ` set demo_sweeps) \<le> 64" "\<forall>q \<in> set demo_sweeps. saddr q = 0x0100000A"
  "ts_ns (demo_sweeps ! 20) = 21" "ts_ns (demo_sweeps ! 41) = 20000000020"
  by (simp_all add: demo_sweeps_def upt_conv_Cons order_trans [OF card_image_le_length])

lemma demo_sweeps_run:
  "\<exists>st os. ids_run real_fp False demo_sweeps (ids_init real_fp) = Some (st, os) \<and> length os = 42 \<and>
     Alert_scan 0x0100000A 21 5 \<in> set (os ! 20) \<and> Alert_scan 0x0100000A 21 5 \<in> set (os ! 41)"
proof -
  obtain st os where run: "ids_run real_fp False demo_sweeps (ids_init real_fp) = Some (st, os)"
    using ids_run_inv [of demo_sweeps real_fp False] demo_sweeps_facts(1,3) by (auto simp: INT_MAX_def)
  have out: "filter is_scan (os ! i) = scan_now 0x0100000A (take (Suc i) demo_sweeps)"
    if "i < 42" for i
  proof -
    have "filter (\<lambda>q. saddr q = 0x0100000A) (take (Suc i) demo_sweeps) = take (Suc i) demo_sweeps"
      using demo_sweeps_facts(5) by (auto simp: filter_id_conv dest: in_set_takeD)
    moreover have "saddr (demo_sweeps ! i) = 0x0100000A"
      using demo_sweeps_facts(3,5) that by simp
    ultimately show ?thesis
      using ids_run_scan_out [OF demo_sweeps_facts(1) _ demo_sweeps_facts(4) run, of i] that
      by (simp add: demo_sweeps_facts(3) hist_def take_Suc_conv_app_nth)
  qed
  have "alerts_at demo_sweeps 20" "alerts_at demo_sweeps 41"
    using demo_sweeps_fold demo_sweeps_facts(3,6,7)
    by (simp_all add: scan_fold_eq alerts_at_def scan_alerts_def SCAN_COOLDOWN_NS_def)
  then have "Alert_scan 0x0100000A 21 5 \<in> set (filter is_scan (os ! 20))"
    "Alert_scan 0x0100000A 21 5 \<in> set (filter is_scan (os ! 41))"
    using out [of 20] out [of 41] demo_sweeps_fold scan_now_alerts [of 20 demo_sweeps "0x0100000A", where ?'a = real]
      scan_now_alerts [of 41 demo_sweeps "0x0100000A", where ?'a = real] demo_sweeps_facts(3)
    by (simp_all add: scan_fold_eq)
  then show ?thesis
    using run ids_run_prefix [OF run, of 0] demo_sweeps_facts(3) by auto
qed

section \<open>Properties\<close>

text \<open>
  C15. The beacon rule, on every sequence of records (fewer than 2^31, non-zero timestamps, at
  most 1024 flows): the engine returns without overflow, and the last record raises a beacon
  alert exactly if the flow's history is a beacon for the first time, judged on the last eight
  gaps at most: at least five of them, mean between 1 s and 300 s, coefficient of variation at
  most 10 percent, in whatever arithmetic the machine has. So a flow alerts once in its life,
  and other flows' packets do not disturb it.
\<close>

theorem ids_beacon_alerts:
  fixes fp :: "'d fp_ops"
  assumes "\<forall>q \<in> set (ps @ [p]). ts_ns q \<noteq> 0" and "length (ps @ [p]) \<le> 2 ^ 31"
    and "card (pkt_key ` set (ps @ [p])) \<le> 1024"
  defines "ts \<equiv> map ts_ns (filter (\<lambda>q. pkt_key q = pkt_key p) (ps @ [p]))"
  shows "\<exists>st os. ids_run fp g_debug (ps @ [p]) (ids_init fp) = Some (st, os) \<and>
    filter is_beacon (last os) =
      (if beacon_first fp ts = Some (length ts)
       then [beacon_msg fp (pkt_key p) (gap_window (gap_list fp ts))] else []) \<and>
    mset (gap_window (gap_list fp ts)) =
      mset (drop (length (gap_list fp ts) - 8) (gap_list fp ts))"
proof -
  obtain st os where st: "ids_run fp g_debug (ps @ [p]) (ids_init fp) = Some (st, os)"
    "ids_inv fp (ps @ [p]) st" "prints fp ps p st (last os)"
    using ids_run_last [OF assms(1,2), of fp g_debug] by blast
  with flows_all_tracked [OF st(2) assms(3), of p] show ?thesis
    by (auto simp: prints_def beacon_now_def ts_def hist_def mset_gap_window)
qed

theorem ids_beacon_alerts_witness:
  "\<exists>st os. ids_run real_fp False [demo_pkt 1 80, demo_pkt 2 80] (ids_init real_fp) = Some (st, os) \<and>
     filter is_beacon (last os) = []"
  using ids_beacon_alerts [of "[demo_pkt 1 80]" "demo_pkt 2 80" real_fp False]
  by (auto simp: beacon_first_def beacon_due_def upt_rec simp del: ids_run.simps)

text \<open>
  C38. The signature rule: the first record of a flow to one of the seven listed ports raises
  exactly one alert, with the source, the destination, the port in host order and the list's
  name for it; later records of the flow and flows to other ports raise none.
\<close>

theorem ids_susp_once:
  fixes fp :: "'d fp_ops"
  assumes "\<forall>q \<in> set (ps @ [p]). ts_ns q \<noteq> 0" and "length (ps @ [p]) \<le> 2 ^ 31"
    and "card (pkt_key ` set (ps @ [p])) \<le> 1024"
  shows "\<exists>st os. ids_run fp g_debug (ps @ [p]) (ids_init fp) = Some (st, os) \<and>
    filter is_susp (last os) =
      (if pkt_key p \<in> pkt_key ` set ps then []
       else (case map_of suspicious (bswap16 (dport p)) of
               None \<Rightarrow> []
             | Some name \<Rightarrow> [Alert_susp (saddr p) (daddr p) (bswap16 (dport p)) name]))"
proof -
  obtain st os where st: "ids_run fp g_debug (ps @ [p]) (ids_init fp) = Some (st, os)"
    "ids_inv fp (ps @ [p]) st" "prints fp ps p st (last os)"
    using ids_run_last [OF assms(1,2), of fp g_debug] by blast
  moreover have "hist pkt_key ps (pkt_key p) \<noteq> [] \<longleftrightarrow> pkt_key p \<in> pkt_key ` set ps"
    by (simp flip: hist_keys)
  ultimately show ?thesis
    using flows_all_tracked [OF st(2) assms(3), of p]
    by (auto simp: prints_def susp_msgs_def pkt_key_def)
qed

theorem ids_susp_once_witness:
  "\<exists>st os. ids_run real_fp False [demo_pkt 5 (bswap16 4444)] (ids_init real_fp) = Some (st, os) \<and>
     filter is_susp (last os) =
       [Alert_susp 0x0100000A 0x0200000A 4444 ''Metasploit/Meterpreter default'']"
  using ids_susp_once [of "[]" "demo_pkt 5 (bswap16 4444)" real_fp False]
  by (simp add: suspicious_def)

text \<open>
  C13. The port-scan rule raises no false alarm, whatever the traffic and the clock: an alert
  at a record names its source, and that source has touched more than twenty distinct ports in
  the five seconds before it (the count printed is at most the number of those ports).
\<close>

theorem ids_portscan_sound:
  fixes fp :: "'d fp_ops"
  assumes "\<forall>q \<in> set (ps @ [p]). ts_ns q \<noteq> 0" and "length (ps @ [p]) \<le> 2 ^ 31"
    and run: "ids_run fp g_debug (ps @ [p]) (ids_init fp) = Some (st, os)"
    and alert: "Alert_scan a n secs \<in> set (last os)"
  shows "a = saddr p \<and> secs = 5 \<and> 20 < n \<and>
    n \<le> card (dport ` {q \<in> set (ps @ [p]). saddr q = a \<and> ts_ns p - ts_ns q < 5000000000})"
proof -
  define S where "S = hist saddr ps (saddr p)"
  have "Alert_scan a n secs \<in> set (filter is_scan (last os))"
    using alert by simp
  also have "filter is_scan (last os) =
      (if scan_table.tmap (id_scans st) (saddr p) = None then [] else scan_now (saddr p) (S @ [p]))"
    using ids_run_last [OF assms(1,2), of fp g_debug] run
    by (simp add: S_def hist_snoc prints_def)
  finally have "Alert_scan a n secs \<in> set (scan_now (saddr p) (S @ [p]) :: 'd ids_msg list)"
    by (simp split: if_splits)
  then have an: "a = saddr p" "secs = 5" "20 < n" "n = length (live_run (S @ [p]))"
    by (auto simp: scan_now_def Let_def scan_alerts_def split: if_splits)
  moreover have "recent_ports (S @ [p]) (ts_ns p) =
      dport ` {q \<in> set (ps @ [p]). saddr q = a \<and> ts_ns p - ts_ns q < 5000000000}"
    by (auto simp: recent_ports_def S_def hist_def an(1) SCAN_WINDOW_NS_def)
  ultimately show ?thesis
    using live_count_le [of S p] by simp
qed

theorem ids_portscan_sound_witness:
  "20 < card (dport ` {q \<in> set demo_sweeps. saddr q = 0x0100000A \<and> 20000000020 - ts_ns q < 5000000000})"
proof -
  obtain st os where run: "ids_run real_fp False demo_sweeps (ids_init real_fp) = Some (st, os)"
    "length os = 42" "Alert_scan 0x0100000A 21 5 \<in> set (os ! 41)"
    using demo_sweeps_run by blast
  have ps: "demo_sweeps = butlast demo_sweeps @ [demo_sweeps ! 41]"
    using demo_sweeps_facts(3) append_butlast_last_id [of demo_sweeps]
    by (simp add: last_conv_nth) (metis list.size(3) zero_neq_numeral)
  have "last os = os ! 41"
    using run(2) last_conv_nth [of os] by (cases os) auto
  with ids_portscan_sound [of "butlast demo_sweeps" "demo_sweeps ! 41" real_fp False st os "0x0100000A" 21 5]
  show ?thesis
    using run demo_sweeps_facts by (simp flip: ps)
qed

text \<open>
  C6. The port-scan rule misses no scan: with a clock that does not run backwards, at most 64
  sources and at most 256 ports of the source per window, a record that brings its source to
  more than twenty distinct ports in five seconds raises an alert with the exact number, unless
  an alert for the same source was raised in the ten seconds before.
\<close>

theorem ids_portscan_complete:
  fixes fp :: "'d fp_ops"
  assumes nz: "\<forall>q \<in> set (ps @ [p]). ts_ns q \<noteq> 0" and len: "length (ps @ [p]) \<le> 2 ^ 31"
    and clock: "sorted (map ts_ns (ps @ [p]))"
    and srcs: "card (saddr ` set (ps @ [p])) \<le> 64"
    and fits: "scan_fits (filter (\<lambda>q. saddr q = saddr p) (ps @ [p]))"
    and scan: "20 < card (dport ` {q \<in> set (ps @ [p]). saddr q = saddr p \<and> ts_ns p - ts_ns q < 5000000000})"
  shows "\<exists>st os. ids_run fp g_debug (ps @ [p]) (ids_init fp) = Some (st, os) \<and>
    (Alert_scan (saddr p)
       (card (dport ` {q \<in> set (ps @ [p]). saddr q = saddr p \<and> ts_ns p - ts_ns q < 5000000000})) 5
       \<in> set (last os) \<or>
     (\<exists>i < length ps. \<exists>n. Alert_scan (saddr p) n 5 \<in> set (os ! i) \<and>
        saddr (ps ! i) = saddr p \<and> ts_ns p - ts_ns (ps ! i) \<le> 10000000000))"
proof -
  define S where "S = filter (\<lambda>q. saddr q = saddr p) ps"
  define n where "n = card (dport ` {q \<in> set (ps @ [p]). saddr q = saddr p \<and> ts_ns p - ts_ns q < 5000000000})"
  obtain st os where st: "ids_run fp g_debug (ps @ [p]) (ids_init fp) = Some (st, os)"
    "ids_inv fp (ps @ [p]) st" "prints fp ps p st (last os)"
    using ids_run_last [OF nz len, of fp g_debug] by blast
  have "recent_ports (S @ [p]) (ts_ns p) =
      dport ` {q \<in> set (ps @ [p]). saddr q = saddr p \<and> ts_ns p - ts_ns q < 5000000000}"
    by (auto simp: recent_ports_def S_def SCAN_WINDOW_NS_def)
  moreover have "sorted (map ts_ns (S @ [p]))"
    using sorted_filter [OF clock, of "\<lambda>q. saddr q = saddr p"] by (simp add: S_def)
  ultimately have n: "length (live_run (S @ [p])) = n"
    using live_run_window(2) [of S p] fits by (simp add: S_def n_def)
  have out: "filter is_scan (last os) = scan_now (saddr p) (S @ [p])"
    using st(3) scans_all_tracked [OF st(2) srcs, of p] by (auto simp: prints_def S_def hist_def)
  show ?thesis
  proof (cases "scan_alerts n (ts_ns p) (last_alert [] S 0)")
    case True
    then have "Alert_scan (saddr p) n 5 \<in> set (filter is_scan (last os))"
      using n by (simp add: out scan_now_def)
    with st(1) n_def show ?thesis by auto
  next
    case False
    with scan have la: "last_alert [] S 0 \<noteq> 0" "\<not> SCAN_COOLDOWN_NS < ts_ns p - last_alert [] S 0"
      by (auto simp: scan_alerts_def n_def)
    from last_alert_from [OF la(1)] obtain j where
      j: "j < length S" "last_alert [] S 0 = ts_ns (S ! j)" "alerts_at S j" by blast
    from ids_run_scan_at [OF nz len srcs st(1), of j "saddr p"] j(1,3) obtain i m where
      "i < length ps" "Alert_scan (saddr p) m 5 \<in> set (os ! i)" "ps ! i = S ! j" "saddr (ps ! i) = saddr p"
      unfolding S_def by blast
    with st(1) la(2) j(2) show ?thesis
      by (auto simp: SCAN_COOLDOWN_NS_def)
  qed
qed

theorem ids_portscan_complete_witness:
  "\<exists>st os. ids_run real_fp False (demo_sweep @ [demo_pkt 21 20]) (ids_init real_fp) = Some (st, os) \<and>
     (Alert_scan 0x0100000A 21 5 \<in> set (last os) \<or>
      (\<exists>i < 20. \<exists>n. Alert_scan 0x0100000A n 5 \<in> set (os ! i)))"
proof -
  let ?ps = "demo_sweep @ [demo_pkt 21 20]"
  have "{q \<in> set ?ps. saddr q = saddr (demo_pkt 21 20) \<and> ts_ns (demo_pkt 21 20) - ts_ns q < 5000000000}
      = set ?ps"
    by (auto simp: demo_sweep_def upt_conv_Cons)
  moreover have "dport ` set ?ps = set (map of_nat [0..<21])"
    by (auto simp: demo_sweep_def upt_conv_Cons)
  moreover have "card (set (map of_nat [0..<21] :: u16 list)) = 21"
    by (simp add: upt_conv_Cons)
  ultimately have 21: "card (dport ` {q \<in> set ?ps. saddr q = saddr (demo_pkt 21 20) \<and>
      ts_ns (demo_pkt 21 20) - ts_ns q < 5000000000}) = 21"
    by simp
  have "\<forall>q \<in> set ?ps. ts_ns q \<noteq> 0" "sorted (map ts_ns ?ps)"
    by (simp_all add: demo_sweep_def upt_conv_Cons)
  moreover have "length ?ps \<le> 2 ^ 31" "scan_fits (filter (\<lambda>q. saddr q = saddr (demo_pkt 21 20)) ?ps)"
    by (simp_all add: demo_sweep_def scan_fits_short)
  moreover have "card (saddr ` set ?ps) \<le> 64"
    by (rule order_trans [OF card_image_le_length]) (simp add: demo_sweep_def)
  ultimately show ?thesis
    using ids_portscan_complete [of demo_sweep "demo_pkt 21 20" real_fp False] unfolding 21
    by (force simp: demo_sweep_def)
qed

lemma ids_run_scan_from:
  fixes fp :: "'d fp_ops"
  assumes nz: "\<forall>q \<in> set ps. ts_ns q \<noteq> 0" and len: "length ps \<le> 2 ^ 31"
    and run: "ids_run fp g_debug ps (ids_init fp) = Some (st, os)"
    and k: "k < length ps" "Alert_scan a x y \<in> set (os ! k)"
  defines "S \<equiv> filter (\<lambda>q. saddr q = a) (take k ps)"
  shows "saddr (ps ! k) = a \<and> alerts_at (S @ [ps ! k]) (length S)"
proof -
  obtain st1 where "prints fp (take k ps) (ps ! k) st1 (os ! k)"
    using ids_run_nth [OF nz len run k(1)] by blast
  moreover have "Alert_scan a x y \<in> set (filter is_scan (os ! k))"
    using k(2) by simp
  ultimately have *: "Alert_scan a x y \<in> set (scan_now (saddr (ps ! k))
      (hist saddr (take k ps @ [ps ! k]) (saddr (ps ! k))) :: 'd ids_msg list)"
    by (simp add: prints_def split: if_splits)
  then have "saddr (ps ! k) = a"
    by (auto simp: scan_now_def Let_def split: if_splits)
  with * show ?thesis
    by (auto simp: hist_def S_def scan_now_def alerts_at_last Let_def split: if_splits)
qed

text \<open>
  C36. The cooldown: with a clock that does not run backwards, two port-scan alerts for the same
  source are always more than ten seconds apart.
\<close>

theorem ids_portscan_cooldown:
  fixes fp :: "'d fp_ops"
  assumes nz: "\<forall>q \<in> set ps. ts_ns q \<noteq> 0" and len: "length ps \<le> 2 ^ 31"
    and clock: "sorted (map ts_ns ps)"
    and run: "ids_run fp g_debug ps (ids_init fp) = Some (st, os)"
    and ij: "i < j" "j < length ps"
    and alerts: "Alert_scan a n u \<in> set (os ! i)" "Alert_scan a m v \<in> set (os ! j)"
  shows "10000000000 < ts_ns (ps ! j) - ts_ns (ps ! i)"
proof -
  define F S where "F = filter (\<lambda>q. saddr q = a) (take i ps)"
    and "S = filter (\<lambda>q. saddr q = a) (take j ps)"
  have i: "saddr (ps ! i) = a" "alerts_at (F @ [ps ! i]) (length F)"
    using ids_run_scan_from [OF nz len run _ alerts(1)] ij by (auto simp: F_def)
  have j: "saddr (ps ! j) = a" "alerts_at (S @ [ps ! j]) (length S)"
    using ids_run_scan_from [OF nz len run ij(2) alerts(2)] by (auto simp: S_def)
  have "take j ps = take i ps @ ps ! i # drop (Suc i) (take j ps)"
    using ij id_take_nth_drop [of i "take j ps"] by simp
  from arg_cong [OF this, of "filter (\<lambda>q. saddr q = a)"]
  have S: "S = (F @ [ps ! i]) @ filter (\<lambda>q. saddr q = a) (drop (Suc i) (take j ps))"
    using i(1) by (simp add: S_def F_def)
  have order: "sorted (map ts_ns S)" "\<forall>q \<in> set S. ts_ns q \<le> ts_ns (ps ! j)"
    "\<forall>q \<in> set S. ts_ns q \<noteq> 0"
    using clock ij(2) nz sorted_filter_le [of ts_ns ps j "\<lambda>q. saddr q = a"]
    by (auto simp: S_def dest: in_set_takeD)
  have "alerts_at S (length F)"
    unfolding S by (subst alerts_at_append) (use i(2) in simp_all)
  moreover have "length F < length S" "S ! length F = ps ! i"
    by (simp_all add: S nth_append)
  ultimately have "alerts_at S (length F)" "length F < length S" "S ! length F = ps ! i"
    by simp_all
  with last_alert_ge [OF order(1) _ _ order(3)]
  have la: "ts_ns (ps ! i) \<le> last_alert [] S 0" "last_alert [] S 0 \<noteq> 0"
    by metis+
  then have "last_alert [] S 0 \<le> ts_ns (ps ! j)"
    using last_alert_in [of S] order(2) by auto
  from word_sub_mono(2) [OF la(1) this] j(2) la(2) show ?thesis
    by (auto simp: alerts_at_last scan_alerts_def SCAN_COOLDOWN_NS_def)
qed

theorem ids_portscan_cooldown_witness:
  "10000000000 < ts_ns (demo_sweeps ! 41) - ts_ns (demo_sweeps ! 20)"
proof -
  obtain st os where "ids_run real_fp False demo_sweeps (ids_init real_fp) = Some (st, os)"
    "Alert_scan 0x0100000A 21 5 \<in> set (os ! 20)" "Alert_scan 0x0100000A 21 5 \<in> set (os ! 41)"
    using demo_sweeps_run by blast
  from ids_portscan_cooldown [OF demo_sweeps_facts(1) _ demo_sweeps_facts(2) this(1) _ _ this(2,3)]
  show ?thesis
    by (simp add: demo_sweeps_facts(3))
qed

text \<open>
  C37. A steady beacon is caught, in the program's own arithmetic: for every rounding of each
  result that keeps the bounds of IEEE binary64, packets of one flow at a fixed distance from
  1 s to 300 s, both included, raise no alert at the first five, exactly one alert at the sixth,
  and none after it. The alert counts six callbacks, its interval is within \<open>10 ^ - 10\<close> s of the
  distance, and its jitter, in percent, within \<open>10 ^ - 4\<close> of 0.
\<close>

theorem ids_beacon_periodic:
  assumes rnd: "rounding rnd"
    and ps: "map ts_ns ps = map (\<lambda>i. t0 + of_nat i * T) [0..<m]" "\<forall>p \<in> set ps. pkt_key p = (s, d, dp, pr)"
    and nz: "\<forall>p \<in> set ps. ts_ns p \<noteq> 0" and m: "0 < m" "m \<le> 2 ^ 31"
    and T: "1000000000 \<le> T" "T \<le> 300000000000"
  shows "\<exists>st os interval jitter. ids_run (rounded_fp rnd) g_debug ps (ids_init (rounded_fp rnd)) = Some (st, os) \<and>
    \<bar>interval - real (unat T) / 10 ^ 9\<bar> \<le> 1 / 10 ^ 10 \<and> \<bar>jitter\<bar> \<le> 1 / 10 ^ 4 \<and>
    filter is_beacon (last os) = (if m = 6 then [Alert_beacon s d (bswap16 dp) interval jitter 6] else [])"
proof -
  let ?fp = "rounded_fp rnd"
  let ?g = "fp_div ?fp (fp_of_u64 ?fp T) (fp_lit ?fp 1000000000)"
  have Tn: "10 ^ 9 \<le> unat T" "unat T \<le> 300 * 10 ^ 9"
    using T by (simp_all add: word_le_nat_alt)
  have "rnd (real (unat T)) = real (unat T)" "rnd (of_rat 1000000000) = 10 ^ 9"
    using rounding.rnd_int [OF rnd, of "int (unat T)"] rounding.rnd_int [OF rnd, of "10 ^ 9"] Tn
    by (simp_all del: of_nat_unat)
  then have g: "?g = rnd (real (unat T) / 10 ^ 9)"
    by (simp add: rounded_fp_def del: of_nat_unat)
  note five = rounding.five_due [OF rnd Tn g]
  have ts: "map ts_ns ps = every t0 T m"
    using ps(1) by (simp add: every_def)
  then have len: "length ps = m"
    by (metis every_def length_map length_upt minus_nat.diff_0)
  with m obtain qs q where qs: "ps = qs @ [q]" by (cases ps rule: rev_cases) auto
  obtain st os where st: "ids_run ?fp g_debug ps (ids_init ?fp) = Some (st, os)"
    "ids_inv ?fp ps st" "prints ?fp qs q st (last os)"
    using ids_run_last [of qs q ?fp g_debug] nz len m(2) by (auto simp: qs)
  have "pkt_key ` set ps \<subseteq> {(s, d, dp, pr)}"
    using ps(2) by auto
  then have "card (pkt_key ` set ps) \<le> 1024"
    using card_mono [of "{(s, d, dp, pr)}" "pkt_key ` set ps"] by simp
  from flows_all_tracked [OF st(2) this, of q] st(3) ps(2)
  have "filter is_beacon (last os) = beacon_now ?fp (s, d, dp, pr) (every t0 T m)"
    by (auto simp: prints_def qs hist_def simp flip: ts)
  also have "\<dots> = (if m = 6 then [beacon_msg ?fp (s, d, dp, pr) (replicate 5 ?g)] else [])"
    using beacon_first_every [OF refl five(1), of t0 m]
    by (simp add: beacon_now_def gap_list_every gap_window_replicate) (simp add: every_def)
  finally show ?thesis
    using st(1) five(2,3) by (fastforce simp: beacon_msg_def Let_def rounded_fp_def)
qed

theorem ids_beacon_periodic_witness:
  "\<exists>st os interval jitter. ids_run (rounded_fp binary64) False demo_beacon (ids_init (rounded_fp binary64)) = Some (st, os) \<and>
     \<bar>interval - 10\<bar> \<le> 1 / 10 ^ 10 \<and> \<bar>jitter\<bar> \<le> 1 / 10 ^ 4 \<and>
     filter is_beacon (last os) = [Alert_beacon 0x0100000A 0x0200000A 4444 interval jitter 6]"
proof -
  have "map ts_ns demo_beacon = map (\<lambda>i. 1 + of_nat i * 10000000000) [0..<6]"
    "\<forall>p \<in> set demo_beacon. pkt_key p = (0x0100000A, 0x0200000A, bswap16 4444, 6)"
    "\<forall>p \<in> set demo_beacon. ts_ns p \<noteq> 0"
    by (simp_all add: demo_beacon_def upt_conv_Cons)
  from ids_beacon_periodic [OF ieee.rounding_axioms this] show ?thesis by simp
qed

end
