(* ===== verification/Net_Loaders.thy ===== *)
theory Net_Loaders
  imports Loaders Xdp_Count Xdp_Firewall Tc_Stat Ids_Engine
begin

text \<open>
  The \<open>main\<close> functions of the network tools, chapters 17, 18, 21 and 23, in the form of
  \<open>Loaders\<close>: the answers of the kernel are the environment, a run is its list of actions and
  its exit status. The theorems show that each tool takes off the interface what it put on it,
  for every point where it can fail, and what the firewall reports for any command line.
\<close>

section \<open>The network tools\<close>

text \<open>
  The interface is the first argument, or the tool's default. What \<open>if_nametoindex\<close> answers for
  a name (0 if there is no such interface) and what \<open>if_nameindex\<close> lists are part of the
  environment.
\<close>

definition iface_arg :: "string list \<Rightarrow> string \<Rightarrow> string" where
  "iface_arg argv dflt = (if 1 < length argv then argv ! 1 else dflt)"

record net_env =
  nt_nameindex :: "(nat \<times> string option) list option"
  nt_nametoindex :: "string \<Rightarrow> nat"
  nt_loaded :: bool
  nt_attach :: int

definition count_ifindex :: "string list \<Rightarrow> net_env \<Rightarrow> nat" where
  "count_ifindex argv env = nt_nametoindex env (iface_arg argv (default_iface (nt_nameindex env)))"

definition fw_ifindex :: "string list \<Rightarrow> net_env \<Rightarrow> nat" where
  "fw_ifindex argv env = nt_nametoindex env (iface_arg argv ''lo'')"

text \<open>
  17-xdp and 21-firewall: one report a second until \<open>stop\<close>; \<open>snaps\<close> are the maps the reports
  read.
\<close>

definition xdpcount_main ::
  "string list \<Rightarrow> net_env \<Rightarrow> ('m, u32, u64) map_ops \<Rightarrow> nat \<Rightarrow> (nat \<Rightarrow> 'm) list \<Rightarrow>
   (string \<times> u64) list act list \<times> int" where
  "xdpcount_main argv env ops ncpu snaps =
     (if count_ifindex argv env = 0 then ([Err ''Unknown interface''], 1)
      else if \<not> nt_loaded env then ([Print_off, Open_load, Err ''Failed to open/load BPF skeleton''], 1)
      else if nt_attach env \<noteq> 0
      then ([Print_off, Open_load, Attach, Err ''Failed to attach XDP'', Destroy], 1)
      else ([Print_off, Open_load, Attach, Signals, Header [''Counting packets'']] @
              map (\<lambda>cpus. Line (xdp_report ops ncpu cpus)) snaps @ [Bye, Detach, Destroy], 0))"

definition xdpfw_main ::
  "string list \<Rightarrow> net_env \<Rightarrow> ('m, u16, u64) map_ops \<Rightarrow> 'm \<Rightarrow> ('m \<Rightarrow> 'm list) \<Rightarrow>
   (u16 \<times> u64) list act list \<times> int" where
  "xdpfw_main argv env ops blocklist traffic =
     (if fw_ifindex argv env = 0 then ([Err ''Unknown interface''], 1)
      else
        let ports = fw_ports argv in
        if \<not> nt_loaded env then ([Print_off, Open_load, Err ''Failed to open/load BPF skeleton''], 1)
        else
          (case fw_install ops ports blocklist of
             (err, m) \<Rightarrow>
               if err \<noteq> 0 then ([Print_off, Open_load, Err ''Failed to add rule'', Destroy], 1)
               else if nt_attach env \<noteq> 0
               then ([Print_off, Open_load, Attach, Err ''Failed to attach XDP'', Destroy], 1)
               else ([Print_off, Open_load, Attach, Signals, Header [''Firewall active'']] @
                       map (\<lambda>m. Line (fw_report ops ports m)) (traffic m) @ [Bye, Detach, Destroy], 0)))"

text \<open>
  18-tc: the clsact hook is created, and destroyed again in the cleanup whatever its creation
  returned.
\<close>

record tc_env =
  tc_nameindex :: "(nat \<times> string option) list option"
  tc_nametoindex :: "string \<Rightarrow> nat"
  tc_loaded :: bool
  tc_hook :: int
  tc_in :: int
  tc_eg :: int

definition tc_ifindex :: "string list \<Rightarrow> tc_env \<Rightarrow> nat" where
  "tc_ifindex argv env = tc_nametoindex env (iface_arg argv (tc_default_iface (tc_nameindex env)))"

definition tcstat_main ::
  "string list \<Rightarrow> tc_env \<Rightarrow> ('m, u32, datarec) map_ops \<Rightarrow> nat \<Rightarrow> (nat \<Rightarrow> 'm) list \<Rightarrow>
   (string \<times> u64 \<times> u64) list act list \<times> int" where
  "tcstat_main argv env ops ncpu snaps =
     (if tc_ifindex argv env = 0 then ([Err ''Unknown interface''], 1)
      else if \<not> tc_loaded env then ([Print_off, Open_load, Err ''Failed to open/load BPF skeleton''], 1)
      else if tc_hook env \<noteq> 0 \<and> tc_hook env \<noteq> - EEXIST
      then ([Print_off, Open_load, Hook_create, Err ''Failed to create clsact hook'', Hook_destroy, Destroy], 1)
      else if tc_in env \<noteq> 0
      then ([Print_off, Open_load, Hook_create, Attach, Err ''Failed to attach ingress program'', Hook_destroy, Destroy], 1)
      else if tc_eg env \<noteq> 0
      then ([Print_off, Open_load, Hook_create, Attach, Attach, Err ''Failed to attach egress program'', Hook_destroy,
             Destroy], 1)
      else ([Print_off, Open_load, Hook_create, Attach, Attach, Signals, Header [''Counting packets'']] @
              map (\<lambda>cpus. Line (tc_report ops ncpu cpus)) snaps @ [Bye, Hook_destroy, Destroy], 0))"

text \<open>
  23-ids: the packet socket, the filter on it, the binding, the ring. Poll errors other than
  \<open>-EINTR\<close> set the exit status.
\<close>

record ids_env =
  ie_nametoindex :: "string \<Rightarrow> nat"
  ie_debug :: bool
  ie_loaded :: bool
  ie_sock :: int
  ie_ignore :: int
  ie_attach :: int
  ie_bind :: int
  ie_ring :: bool
  ie_polls :: "(flow_pkt list \<times> int) list"

definition ids_ifindex :: "string list \<Rightarrow> ids_env \<Rightarrow> nat" where
  "ids_ifindex argv env = ie_nametoindex env (iface_arg argv ''lo'')"

definition ids_callback ::
  "'d fp_ops \<Rightarrow> bool \<Rightarrow> flow_pkt \<Rightarrow> 'd ids option \<Rightarrow> 'd ids option \<times> 'd ids_msg list" where
  "ids_callback fp g_debug p st =
     (case st of
        None \<Rightarrow> (None, [])
      | Some s \<Rightarrow> (case ids_handle_event fp g_debug p s of None \<Rightarrow> (None, []) | Some (s, out) \<Rightarrow> (Some s, out)))"

fun ids_loop ::
  "('e \<Rightarrow> 's \<Rightarrow> 's \<times> 'l list) \<Rightarrow> ('e list \<times> int) list \<Rightarrow> 's \<Rightarrow> 'l act list \<times> int" where
  "ids_loop h [] s = ([], 0)"
| "ids_loop h ((es, n) # ps) s =
     (let (s, out) = consume h es s; tr = map Line out @ [Poll n] in
      if n = - EINTR then (tr, 0)
      else if n < 0 then (tr @ [Err ''ring_buffer__poll''], 1)
      else let (tr', err) = ids_loop h ps s in (tr @ tr', err))"

definition ids_main :: "string list \<Rightarrow> 'd fp_ops \<Rightarrow> 'd ids \<Rightarrow> ids_env \<Rightarrow> 'd ids_msg act list \<times> int" where
  "ids_main argv fp s env =
     (if ids_ifindex argv env = 0 then ([Err ''Unknown interface''], 1)
      else if \<not> ie_loaded env then ([Print_off, Open_load, Err ''Failed to open/load BPF skeleton''], 1)
      else if ie_sock env < 0 then ([Print_off, Open_load, Socket_open, Err ''socket(AF_PACKET)'', Destroy], 1)
      else
        let start = [Print_off, Open_load, Socket_open] @
              (if ie_ignore env \<noteq> 0 then [Err ''warning: PACKET_IGNORE_OUTGOING failed''] else []) in
        if ie_attach env \<noteq> 0 then (start @ [Attach, Err ''SO_ATTACH_BPF'', Socket_close, Destroy], 1)
        else if ie_bind env \<noteq> 0 then (start @ [Attach, Err ''bind'', Socket_close, Destroy], 1)
        else if \<not> ie_ring env
        then (start @ [Attach, Ring_new, Err ''Failed to create ring buffer'', Socket_close, Destroy], 1)
        else
          let (tr, err) = ids_loop (ids_callback fp (ie_debug env)) (ie_polls env) (Some s)
          in (start @ [Attach, Ring_new, Signals, Say ''IDS watching''] @ tr @
                [Bye, Ring_free, Socket_close, Destroy], err))"

section \<open>What the runs leave behind\<close>

lemma count_map_Line [simp]:
  "count_list (map (\<lambda>x. Line (f x)) xs) Destroy = 0" "count_list (map (\<lambda>x. Line (f x)) xs) Detach = 0"
  "count_list (map (\<lambda>x. Line (f x)) xs) Hook_destroy = 0"
  by (induction xs) auto

lemma lines_of_map_reports: "lines_of (map (\<lambda>x. Line (f x)) xs) = map f xs"
  by (induction xs) auto

lemma ids_loop_acts:
  "Destroy \<notin> set (fst (ids_loop h ps s)) \<and> Ring_free \<notin> set (fst (ids_loop h ps s)) \<and>
   Socket_close \<notin> set (fst (ids_loop h ps s))"
  by (induction ps arbitrary: s) (auto simp: split_beta Let_def split: if_splits)

lemma ids_loop_code: "snd (ids_loop h ps s) = (if poll_failed ps then 1 else 0)"
  by (induction ps arbitrary: s) (auto simp: split_beta Let_def EINTR_def split: if_splits)

lemma count_ids_loop [simp]:
  "count_list (fst (ids_loop h ps s)) Destroy = 0"
  "count_list (fst (ids_loop h ps s)) Ring_free = 0"
  "count_list (fst (ids_loop h ps s)) Socket_close = 0"
  using ids_loop_acts [of h ps s] by (simp_all add: count_list_0_iff)

lemma ids_loop_lines: "lines_of (fst (ids_loop h ps s)) = snd (consume h (polled ps) s)"
  by (induction ps arbitrary: s) (auto simp: consume_append split_beta Let_def EINTR_def)

lemma fw_install_code: "fst (fw_install ops ps m) = 0 \<or> fst (fw_install ops ps m) = 1"
  by (induction ps arbitrary: m) (auto simp: split_beta Let_def)

lemma ids_loop_warns: "Err ''warning: PACKET_IGNORE_OUTGOING failed'' \<notin> set (fst (ids_loop h ps s))"
  by (induction ps arbitrary: s) (auto simp: split_beta Let_def split: if_splits)

text \<open>
  C31. What the network tools leave behind, whatever fails on the way. The XDP programs of the
  counter and the firewall are detached exactly if they were attached, so a firewall that ends
  stops dropping; the intrusion detector closes its socket, and with it its filter, exactly if
  it was opened. The traffic-control counter destroys the clsact hook in every run in which it
  loaded its programs, also when it had not created it: one that was there before
  (\<open>-EEXIST\<close>), with the filters of others, goes with it, and so does one it failed to create. The
  skeleton is destroyed exactly if it was loaded. Each tool exits with a status other than 0
  exactly if a step it checks failed; a failed \<open>PACKET_IGNORE_OUTGOING\<close> of the intrusion detector
  is only reported.
\<close>

theorem net_tools_cleanup:
  "count_list (fst (xdpcount_main cargv env ops ncpu snaps)) Detach =
     (if count_ifindex cargv env \<noteq> 0 \<and> nt_loaded env \<and> nt_attach env = 0 then 1 else 0) \<and>
   count_list (fst (xdpcount_main cargv env ops ncpu snaps)) Destroy =
     (if count_ifindex cargv env \<noteq> 0 \<and> nt_loaded env then 1 else 0) \<and>
   snd (xdpcount_main cargv env ops ncpu snaps) =
     (if count_ifindex cargv env \<noteq> 0 \<and> nt_loaded env \<and> nt_attach env = 0 then 0 else 1) \<and>
   count_list (fst (xdpfw_main argv env fops bl traffic)) Detach =
     (if fw_ifindex argv env \<noteq> 0 \<and> nt_loaded env \<and> fst (fw_install fops (fw_ports argv) bl) = 0 \<and>
         nt_attach env = 0
      then 1 else 0) \<and>
   count_list (fst (xdpfw_main argv env fops bl traffic)) Destroy =
     (if fw_ifindex argv env \<noteq> 0 \<and> nt_loaded env then 1 else 0) \<and>
   snd (xdpfw_main argv env fops bl traffic) =
     (if fw_ifindex argv env \<noteq> 0 \<and> nt_loaded env \<and> fst (fw_install fops (fw_ports argv) bl) = 0 \<and>
         nt_attach env = 0
      then 0 else 1) \<and>
   count_list (fst (tcstat_main targv tenv tops tncpu tsnaps)) Hook_destroy =
     (if tc_ifindex targv tenv \<noteq> 0 \<and> tc_loaded tenv then 1 else 0) \<and>
   count_list (fst (tcstat_main targv tenv tops tncpu tsnaps)) Destroy =
     (if tc_ifindex targv tenv \<noteq> 0 \<and> tc_loaded tenv then 1 else 0) \<and>
   snd (tcstat_main targv tenv tops tncpu tsnaps) =
     (if tc_ifindex targv tenv \<noteq> 0 \<and> tc_loaded tenv \<and> (tc_hook tenv = 0 \<or> tc_hook tenv = - EEXIST) \<and>
         tc_in tenv = 0 \<and> tc_eg tenv = 0 then 0 else 1) \<and>
   count_list (fst (ids_main iargv fp st ienv)) Socket_close =
     (if ids_ifindex iargv ienv \<noteq> 0 \<and> ie_loaded ienv \<and> 0 \<le> ie_sock ienv then 1 else 0) \<and>
   count_list (fst (ids_main iargv fp st ienv)) Destroy =
     (if ids_ifindex iargv ienv \<noteq> 0 \<and> ie_loaded ienv then 1 else 0) \<and>
   snd (ids_main iargv fp st ienv) =
     (if ids_ifindex iargv ienv \<noteq> 0 \<and> ie_loaded ienv \<and> 0 \<le> ie_sock ienv \<and> ie_attach ienv = 0 \<and>
         ie_bind ienv = 0 \<and> ie_ring ienv \<and> \<not> poll_failed (ie_polls ienv) then 0 else 1) \<and>
   (Err ''warning: PACKET_IGNORE_OUTGOING failed'' \<in> set (fst (ids_main iargv fp st ienv)) \<longleftrightarrow>
     ids_ifindex iargv ienv \<noteq> 0 \<and> ie_loaded ienv \<and> 0 \<le> ie_sock ienv \<and> ie_ignore ienv \<noteq> 0)"
proof -
  have "count_list (fst (xdpfw_main argv env fops bl traffic)) Detach =
     (if fw_ifindex argv env \<noteq> 0 \<and> nt_loaded env \<and> fst (fw_install fops (fw_ports argv) bl) = 0 \<and>
         nt_attach env = 0
      then 1 else 0)"
   "count_list (fst (xdpfw_main argv env fops bl traffic)) Destroy =
     (if fw_ifindex argv env \<noteq> 0 \<and> nt_loaded env then 1 else 0)"
   "snd (xdpfw_main argv env fops bl traffic) =
     (if fw_ifindex argv env \<noteq> 0 \<and> nt_loaded env \<and> fst (fw_install fops (fw_ports argv) bl) = 0 \<and>
         nt_attach env = 0
      then 0 else 1)"
    by (auto simp: xdpfw_main_def Let_def split_beta)
  moreover have "count_list (fst (ids_main iargv fp st ienv)) Socket_close =
     (if ids_ifindex iargv ienv \<noteq> 0 \<and> ie_loaded ienv \<and> 0 \<le> ie_sock ienv then 1 else 0)"
    "count_list (fst (ids_main iargv fp st ienv)) Destroy = (if ids_ifindex iargv ienv \<noteq> 0 \<and> ie_loaded ienv then 1 else 0)"
    "snd (ids_main iargv fp st ienv) =
     (if ids_ifindex iargv ienv \<noteq> 0 \<and> ie_loaded ienv \<and> 0 \<le> ie_sock ienv \<and> ie_attach ienv = 0 \<and>
         ie_bind ienv = 0 \<and> ie_ring ienv \<and> \<not> poll_failed (ie_polls ienv) then 0 else 1)"
    "Err ''warning: PACKET_IGNORE_OUTGOING failed'' \<in> set (fst (ids_main iargv fp st ienv)) \<longleftrightarrow>
     ids_ifindex iargv ienv \<noteq> 0 \<and> ie_loaded ienv \<and> 0 \<le> ie_sock ienv \<and> ie_ignore ienv \<noteq> 0"
    by (auto simp: ids_main_def Let_def split_beta ids_loop_code ids_loop_warns)
  moreover have "count_list (fst (tcstat_main targv tenv tops tncpu tsnaps)) Hook_destroy =
     (if tc_ifindex targv tenv \<noteq> 0 \<and> tc_loaded tenv then 1 else 0)"
    "count_list (fst (tcstat_main targv tenv tops tncpu tsnaps)) Destroy =
     (if tc_ifindex targv tenv \<noteq> 0 \<and> tc_loaded tenv then 1 else 0)"
    "snd (tcstat_main targv tenv tops tncpu tsnaps) =
     (if tc_ifindex targv tenv \<noteq> 0 \<and> tc_loaded tenv \<and> (tc_hook tenv = 0 \<or> tc_hook tenv = - EEXIST) \<and>
         tc_in tenv = 0 \<and> tc_eg tenv = 0 then 0 else 1)"
    by (auto simp: tcstat_main_def)
  ultimately show ?thesis
    by (auto simp: xdpcount_main_def)
qed

text \<open>
  C7. The firewall from its command line to its output. Whatever the arguments are, all their rules
  fit the blocklist and are installed; when the interface exists and the program can be loaded and
  attached, the run reports no error and ends with status 0. Every frame gets the verdict
  \<open>XDP_DROP\<close> exactly if it is addressed to one of the ports, \<open>XDP_PASS\<close> otherwise, and the table of
  the \<open>i\<close>-th report shows for each port the number of frames to it, modulo \<open>2 ^ 64\<close>, whose verdict
  up to then was \<open>XDP_DROP\<close>.
\<close>

theorem firewall_main_reports:
  assumes map: "bpf_bounded ops cap wf_map" "wf_map m" "\<And>p. map_lookup ops m p = None" "MAX_RULES \<le> cap"
    and env: "fw_ifindex argv env \<noteq> 0" "nt_loaded env" "nt_attach env = 0"
    and run: "run = xdpfw_main argv env ops m (map snd \<circ> fw_snaps ops bursts)"
    and verdicts: "verdicts = map fst (fw_snaps ops bursts (snd (fw_install ops (fw_ports argv) m)))"
  shows "snd run = 0 \<and> (\<forall>msg. Err msg \<notin> set (fst run)) \<and>
    concat verdicts =
      map (\<lambda>f. if \<exists>p \<in> set (fw_ports argv). frame_dport f = Some p then XDP_DROP else XDP_PASS) (concat bursts) \<and>
    lines_of (fst run) =
      map (\<lambda>i. map (\<lambda>p. (p, of_nat (dropped_on p (concat (take (Suc i) verdicts)) (concat (take (Suc i) bursts)))))
                 (fw_ports argv)) [0..<length bursts]"
proof -
  note b = fw_bounded.intro [OF map(1)]
  obtain m' where m': "fw_install ops (fw_ports argv) m = (0, m')"
    "map_lookup ops m' = (\<lambda>p. if p \<in> set (fw_ports argv) then Some 0 else None)"
    using fw_bounded.install_argv [OF b map(2-4)] by blast
  have rules: "fw_rules ops"
    using map(1) by (simp add: fw_rules_def bpf_bounded.axioms(1))
  have look: "map_lookup ops m' p = (if p \<in> set (fw_ports argv) then Some (of_nat (frames_to p [])) else None)" for p
    by (simp add: m'(2) frames_to_def)
  note reps = fw_rules.snaps_report [OF rules look, of bursts]
  have vs: "verdicts = map (map (rule_verdict (fw_ports argv))) bursts"
    using verdicts reps m'(1) by simp
  then have "concat (take n verdicts) = map (rule_verdict (fw_ports argv)) (concat (take n bursts))" for n
    by (simp add: take_map map_concat)
  then have "dropped_on p (concat (take n verdicts)) (concat (take n bursts)) = frames_to p (concat (take n bursts))"
    if "p \<in> set (fw_ports argv)" for p n
    using fw_rules.dropped_frames [OF rules that] by simp
  then have "map (\<lambda>p. (p, of_nat (dropped_on p (concat (take n verdicts)) (concat (take n bursts))))) (fw_ports argv) =
      (map (\<lambda>p. (p, of_nat (frames_to p (concat (take n bursts))))) (fw_ports argv) :: (u16 \<times> u64) list)" for n
    by simp
  moreover have "concat verdicts = map (rule_verdict (fw_ports argv)) (concat bursts)"
    using vs by (simp add: map_concat)
  moreover have "rule_verdict (fw_ports argv) =
      (\<lambda>f. if \<exists>p \<in> set (fw_ports argv). frame_dport f = Some p then XDP_DROP else XDP_PASS)"
    by (simp add: fun_eq_iff rule_verdict_def)
  ultimately show ?thesis
    using reps env m' by (auto simp: run xdpfw_main_def lines_of_map_reports comp_def)
qed

definition ssh_frame :: bytes where
  "ssh_frame = eth_frame (replicate 12 0) 0x0800 (replicate 9 0 @ [17] @ replicate 12 0 @ [0, 22] @ replicate 4 0)"

theorem firewall_main_reports_witness:
  "lines_of (fst (xdpfw_main [''xdpfw'', ''lo'', ''22''] \<lparr>nt_nameindex = None, nt_nametoindex = (\<lambda>n. 1), nt_loaded = True,
       nt_attach = 0\<rparr> hash_ops blocklist_map (map snd \<circ> fw_snaps hash_ops [[ssh_frame, []], [ssh_frame]]))) =
     [[(22, 1)], [(22, 2)]]"
proof -
  let ?env = "\<lparr>nt_nameindex = None, nt_nametoindex = (\<lambda>n. 1), nt_loaded = True, nt_attach = 0\<rparr>"
  let ?bursts = "[[ssh_frame, []], [ssh_frame]]"
  have ports: "fw_ports [''xdpfw'', ''lo'', ''22''] = [22]"
    by code_simp
  have empty: "map_lookup hash_ops (blocklist_map :: (u16, u64) amap) p = None" for p
    by (simp add: blocklist_map_def hash_ops_def)
  have wf: "amap_wf MAX_RULES (blocklist_map :: (u16, u64) amap)"
    by (simp add: blocklist_map_def)
  have dport: "frame_dport ssh_frame = Some 22" "frame_dport [] = None"
    unfolding ssh_frame_def
    by (subst frame_dport_eth) (simp_all add: l4_dport_def nth_append be16_at_def le16_def frame_dport_def)
  define m1 where "m1 = snd (fw_install hash_ops [22] (blocklist_map :: (u16, u64) amap))"
  have "fw_install hash_ops [22] blocklist_map = (0, m1)"
    by (simp add: m1_def blocklist_map_def hash_ops_def amap_defs MAX_RULES_def)
  from fw_model.install_lookup [OF this] empty
  have "map_lookup hash_ops m1 p = (if p \<in> set [22] then Some (of_nat (frames_to p [])) else None)" for p
    by (simp add: frames_to_def)
  from fw_model.snaps_report [OF this, of ?bursts]
  have "map fst (fw_snaps hash_ops ?bursts m1) = [[XDP_DROP, XDP_PASS], [XDP_DROP]]"
    by (simp add: rule_verdict_def dport del: fw_snaps.simps)
  with firewall_main_reports [OF bounded_model.bpf_bounded_axioms [of MAX_RULES] wf empty order_refl _ _ _ refl refl,
    of "[''xdpfw'', ''lo'', ''22'']" ?env ?bursts]
  show ?thesis
    by (simp add: ports fw_ifindex_def dropped_on_def dport flip: m1_def del: fw_snaps.simps fw_install.simps)
qed

end
