(* ===== verification/Ids_Wire.thy ===== *)
theory Ids_Wire
  imports Net_Loaders
begin

text \<open>
  23-ids from the wire to the terminal: the frames of an interface through \<open>ids_tap\<close> of
  \<open>ids.bpf.c\<close>, the ring, the polls of \<open>main\<close> and the rules of \<open>ids.c\<close>. The theorem states what an
  operator relies on: a port-scan alert for a source is printed exactly if the frames on the wire
  contain a sweep of that source.
\<close>

section \<open>The frames and their records\<close>

record wire_frame =
  wf_bytes :: bytes
  wf_len :: u32
  wf_now :: u64

text \<open>The kernel runs the filter on every frame in turn.\<close>

definition tap_run ::
  "('r, flow_pkt) ring_ops \<Rightarrow> (wire_frame \<Rightarrow> nat \<Rightarrow> nat \<Rightarrow> bytes option) \<Rightarrow> wire_frame list \<Rightarrow> 'r \<Rightarrow> 'r" where
  "tap_run ring load fs r = foldl (\<lambda>r f. snd (ids_tap ring (load f) (wf_len f) (wf_now f) r)) r fs"

text \<open>What the frames stand for: the record of each IPv4 TCP or UDP packet, in order.\<close>

definition frame_record :: "wire_frame \<Rightarrow> flow_pkt option" where
  "frame_record f =
     (if 14 \<le> length (wf_bytes f)
      then tap_record (be16_at (wf_bytes f) 12) (drop 14 (wf_bytes f)) (wf_len f) (wf_now f) else None)"

definition wire_records :: "wire_frame list \<Rightarrow> flow_pkt list" where
  "wire_records fs = List.map_filter frame_record fs"

lemma wire_records_Cons:
  "wire_records [] = []"
  "wire_records (f # fs) = (case frame_record f of None \<Rightarrow> wire_records fs | Some p \<Rightarrow> p # wire_records fs)"
  by (simp_all add: wire_records_def map_filter_simps split: option.split)

lemma tap_one:
  assumes "skb_access load (wf_bytes f)"
  shows "ids_tap ring load (wf_len f) (wf_now f) r = (0, tap_emit ring (frame_record f) r)"
proof (cases "14 \<le> length (wf_bytes f)")
  case True
  then obtain macs et pl where f: "wf_bytes f = eth_frame macs et pl" "length macs = 12"
    by (rule eth_frame_exhaust)
  then have "drop 14 (wf_bytes f) = pl" "be16_at (wf_bytes f) 12 = et"
    by (simp_all add: eth_frame_proto) (simp add: eth_frame_def)
  with ids_tap_frame [OF assms [unfolded f(1)] f(2), of ring "wf_len f" "wf_now f" r] True show ?thesis
    by (simp add: frame_record_def)
next
  case False
  with ids_tap_short [OF assms] show ?thesis
    by (simp add: frame_record_def tap_emit_def)
qed

lemma tap_run_records:
  assumes "bpf_ringbuf ring" "\<And>f. f \<in> set fs \<Longrightarrow> skb_access (load f) (wf_bytes f)"
    and "rb_takes ring (length (wire_records fs)) r"
  shows "rb_records ring (tap_run ring load fs r) = rb_records ring r @ wire_records fs"
  using assms(2,3)
proof (induction fs arbitrary: r)
  case (Cons f fs)
  then have one: "snd (ids_tap ring (load f) (wf_len f) (wf_now f) r) = tap_emit ring (frame_record f) r"
    using tap_one [of "load f" f ring r] by simp
  show ?case
  proof (cases "frame_record f")
    case None
    with Cons one show ?thesis
      by (simp add: tap_run_def wire_records_Cons tap_emit_def)
  next
    case (Some p)
    then obtain r' slot where r': "rb_reserve ring r = Some (r', slot)"
        "rb_takes ring (length (wire_records fs)) (rb_submit ring r' p)"
      using Cons.prems(2) by (auto simp: wire_records_Cons split: option.splits)
    with Cons.IH [OF Cons.prems(1), of "rb_submit ring r' p"] Some one
      bpf_ringbuf.reserve_submit [OF assms(1) r'(1)] show ?thesis
      by (simp add: tap_run_def wire_records_Cons tap_emit_def)
  qed
qed (simp add: tap_run_def wire_records_Cons)

lemma wire_records_times:
  "ts_ns ` set (wire_records fs) \<subseteq> wf_now ` set fs"
  "sorted (map wf_now fs) \<Longrightarrow> sorted (map ts_ns (wire_records fs))"
  "length (wire_records fs) \<le> length fs"
proof -
  have ts: "frame_record f = Some p \<Longrightarrow> ts_ns p = wf_now f" for f p
    by (auto simp: frame_record_def tap_record_def split: if_splits)
  then show times: "ts_ns ` set (wire_records fs) \<subseteq> wf_now ` set fs" for fs
    by (induction fs) (auto simp: wire_records_Cons split: option.splits)
  show "sorted (map wf_now fs) \<Longrightarrow> sorted (map ts_ns (wire_records fs))"
  proof (induction fs)
    case (Cons f fs)
    with times [of fs] ts [of f] show ?case
      by (fastforce simp: wire_records_Cons split: option.splits)
  qed (simp add: wire_records_Cons)
  show "length (wire_records fs) \<le> length fs"
    by (induction fs) (auto simp: wire_records_Cons split: option.splits)
qed

section \<open>The records and the lines\<close>

lemma ids_consume:
  "ids_run fp g_debug ps st = Some (st', os) \<Longrightarrow>
   consume (ids_callback fp g_debug) ps (Some st) = (Some st', concat os)"
  by (induction ps arbitrary: st os) (auto simp: ids_callback_def split: option.splits)

lemma ids_main_lines:
  assumes "ids_ifindex argv env \<noteq> 0" "ie_loaded env" "0 \<le> ie_sock env" "ie_attach env = 0" "ie_bind env = 0" "ie_ring env"
    and "ids_run fp (ie_debug env) (polled (ie_polls env)) st = Some (st', os)"
  shows "lines_of (fst (ids_main argv fp st env)) = concat os"
  using assms(1-6) ids_consume [OF assms(7)]
  by (auto simp: ids_main_def Let_def split_beta ids_loop_lines)

text \<open>The last record brings its source to more than twenty ports in five seconds.\<close>

definition swept :: "u32 \<Rightarrow> flow_pkt list \<Rightarrow> bool" where
  "swept a ps \<longleftrightarrow> ps \<noteq> [] \<and> saddr (last ps) = a \<and>
     20 < card (dport ` {q \<in> set ps. saddr q = a \<and> ts_ns (last ps) - ts_ns q < 5000000000})"

lemma swept_recent:
  assumes "i < length ps"
  shows "swept a (take (Suc i) ps) \<longleftrightarrow> saddr (ps ! i) = a \<and>
    20 < card (recent_ports (filter (\<lambda>q. saddr q = a) (take i ps) @ [ps ! i]) (ts_ns (ps ! i)))"
proof (cases "saddr (ps ! i) = a")
  case True
  have "set (filter (\<lambda>q. saddr q = a) (take i ps) @ [ps ! i]) = {q \<in> set (take (Suc i) ps). saddr q = a}"
    using assms True by (auto simp: take_Suc_conv_app_nth)
  then have "recent_ports (filter (\<lambda>q. saddr q = a) (take i ps) @ [ps ! i]) (ts_ns (ps ! i)) =
      dport ` {q \<in> set (take (Suc i) ps). saddr q = a \<and> ts_ns (ps ! i) - ts_ns q < 5000000000}"
    by (simp add: recent_ports_def SCAN_WINDOW_NS_def conj_assoc)
  moreover have "last (take (Suc i) ps) = ps ! i" "take (Suc i) ps \<noteq> []"
    using assms by (auto simp: take_Suc_conv_app_nth)
  ultimately show ?thesis
    using True unfolding swept_def by simp
next
  case False
  moreover have "last (take (Suc i) ps) = ps ! i"
    using assms by (simp add: take_Suc_conv_app_nth)
  ultimately show ?thesis by (simp add: swept_def)
qed

lemma scan_fits_prefix: "scan_fits (S @ T) \<Longrightarrow> scan_fits S"
  by (induction T rule: rev_induct) (simp_all add: scan_fits_snoc flip: append_assoc)

lemma filter_take_prefix: "i < length ps \<Longrightarrow> P (ps ! i) \<Longrightarrow>
  \<exists>T. filter P ps = (filter P (take i ps) @ [ps ! i]) @ T"
  by (rule exI [of _ "filter P (drop (Suc i) ps)"]) (subst id_take_nth_drop [of i ps], simp_all)

text \<open>An alert has a sweep before it, and a sweep has an alert at it or before it.\<close>

lemma alert_swept:
  fixes fp :: "'d fp_ops"
  assumes "\<forall>q \<in> set ps. ts_ns q \<noteq> 0" "length ps \<le> 2 ^ 31" "ids_run fp g_debug ps (ids_init fp) = Some (st, os)"
    and "i < length ps" "Alert_scan a n secs \<in> set (os ! i)"
  shows "swept a (take (Suc i) ps)"
  using ids_run_scan_from [OF assms] live_count_le [of "filter (\<lambda>q. saddr q = a) (take i ps)" "ps ! i"]
  by (auto simp: swept_recent assms(4) alerts_at_last scan_alerts_def)

lemma swept_alert:
  fixes fp :: "'d fp_ops"
  assumes nz: "\<forall>q \<in> set ps. ts_ns q \<noteq> 0" and len: "length ps \<le> 2 ^ 31" and clock: "sorted (map ts_ns ps)"
    and srcs: "card (saddr ` set ps) \<le> 64" and fits: "scan_fits (filter (\<lambda>q. saddr q = a) ps)"
    and run: "ids_run fp g_debug ps (ids_init fp) = Some (st, os)"
    and i: "i < length ps" "swept a (take (Suc i) ps)"
  shows "\<exists>k < length ps. \<exists>n. Alert_scan a n 5 \<in> set (os ! k)"
proof -
  define S where "S = filter (\<lambda>q. saddr q = a) (take i ps)"
  have a: "saddr (ps ! i) = a" "20 < card (recent_ports (S @ [ps ! i]) (ts_ns (ps ! i)))"
    using i by (simp_all add: swept_recent S_def)
  obtain T where T: "filter (\<lambda>q. saddr q = a) ps = (S @ [ps ! i]) @ T"
    using filter_take_prefix [OF i(1), of "\<lambda>q. saddr q = a"] a(1) unfolding S_def by blast
  have "sorted (map ts_ns (S @ [ps ! i]))"
    using sorted_filter [OF clock, of "\<lambda>q. saddr q = a"] unfolding T by (simp add: sorted_append)
  from live_run_window(2) [OF this scan_fits_prefix [OF fits [unfolded T]]] a(2)
  have n: "20 < length (live_run (S @ [ps ! i]))" by simp
  show ?thesis
  proof (cases "scan_alerts (length (live_run (S @ [ps ! i]))) (ts_ns (ps ! i)) (last_alert [] S 0)")
    case True
    then have "Alert_scan a (length (live_run (S @ [ps ! i]))) 5 \<in> set (filter is_scan (os ! i))"
      using ids_run_scan_out [OF nz len srcs run i(1)] a(1) by (simp add: S_def hist_def scan_now_def)
    with i(1) show ?thesis by auto
  next
    case False
    with n have "last_alert [] S 0 \<noteq> 0" by (auto simp: scan_alerts_def)
    from last_alert_from [OF this] obtain j where j: "j < length S" "alerts_at S j" by blast
    from ids_run_scan_at [of "take i ps" "drop i ps" fp g_debug st os j a, unfolded append_take_drop_id,
        OF nz len srcs run j [unfolded S_def]]
    obtain k m where "k < length (take i ps)" "Alert_scan a m 5 \<in> set (os ! k)" by blast
    with i(1) show ?thesis by (intro exI [of _ k]) auto
  qed
qed

text \<open>
  C2. The intrusion detector from the wire to the terminal. With an interface that exists and a
  program that loads, a ring with room and polls that deliver what is in it, a clock that does not
  run backwards, at most 64 sources and at most 256 ports of a source per window: a port-scan
  alert for an address is printed if and only if among the IPv4 TCP and UDP frames on the wire
  there is one at which that source has touched more than twenty ports within five seconds. No
  frame that is too short, of another protocol or from another source can cause or hide one.
\<close>

theorem ids_wire_scan:
  fixes fp :: "'d fp_ops"
  assumes ring: "bpf_ringbuf ring" "rb_takes ring (length (wire_records fs)) r" "rb_records ring r = []"
    and skb: "\<And>f. f \<in> set fs \<Longrightarrow> skb_access (load f) (wf_bytes f)"
    and env: "ids_ifindex argv env \<noteq> 0" "ie_loaded env" "0 \<le> ie_sock env" "ie_attach env = 0" "ie_bind env = 0"
      "ie_ring env" "polled (ie_polls env) = rb_records ring (tap_run ring load fs r)"
    and traffic: "\<And>f. f \<in> set fs \<Longrightarrow> wf_now f \<noteq> 0" "sorted (map wf_now fs)" "length fs \<le> 2 ^ 31"
      "card (saddr ` set (wire_records fs)) \<le> 64" "scan_fits (filter (\<lambda>q. saddr q = a) (wire_records fs))"
  shows "(\<exists>n secs. Alert_scan a n secs \<in> set (lines_of (fst (ids_main argv fp (ids_init fp) env)))) \<longleftrightarrow>
    (\<exists>i < length (wire_records fs). swept a (take (Suc i) (wire_records fs)))"
proof -
  define ps where "ps = wire_records fs"
  have ps: "polled (ie_polls env) = ps"
    using tap_run_records [OF ring(1) skb ring(2)] ring(3) env(7) by (simp add: ps_def)
  have nz: "\<forall>q \<in> set ps. ts_ns q \<noteq> 0"
    using wire_records_times(1) [of fs] traffic(1) unfolding ps_def by (metis imageE image_subset_iff)
  have len: "length ps \<le> 2 ^ 31"
    using wire_records_times(3) [of fs] traffic(3) by (simp add: ps_def)
  obtain st os where run: "ids_run fp (ie_debug env) ps (ids_init fp) = Some (st, os)"
    using ids_run_inv [OF nz, of fp "ie_debug env"] len by (auto simp: INT_MAX_def)
  have "length os = length ps"
    using ids_run_prefix [OF run, of 0] by simp
  moreover have "lines_of (fst (ids_main argv fp (ids_init fp) env)) = concat os"
    by (rule ids_main_lines [OF env(1-6)]) (simp add: ps run)
  moreover note alert_swept [OF nz len run, of _ a]
    swept_alert [OF nz len wire_records_times(2) [OF traffic(2), folded ps_def] _ _ run, of a] traffic(4,5)
  ultimately show ?thesis
    unfolding ps_def [symmetric] by (fastforce simp: in_set_conv_nth [of _ os])
qed

text \<open>Twenty-one frames of a sweep, with an ARP frame and a runt among them.\<close>

definition sweep_frame :: "nat \<Rightarrow> wire_frame" where
  "sweep_frame i =
     \<lparr>wf_bytes = eth_frame (replicate 12 0) 0x0800
        [0x45, 0, 0, 40, 0, 0, 0, 0, 64, 6, 0, 0, 10, 0, 0, 1, 10, 0, 0, 2, 0x30, 0x39, of_nat i, 0],
      wf_len = 60, wf_now = 1 + of_nat i\<rparr>"

definition sweep_frames :: "wire_frame list" where
  "sweep_frames =
     \<lparr>wf_bytes = eth_frame (replicate 12 0) 0x0806 [], wf_len = 60, wf_now = 1\<rparr> #
     \<lparr>wf_bytes = [1, 2, 3], wf_len = 3, wf_now = 1\<rparr> # map sweep_frame [0..<21]"

lemma sweep_record: "frame_record (sweep_frame i) = Some (demo_pkt (1 + of_nat i) (le16 (of_nat i) 0))"
proof -
  have "be16_at (wf_bytes (sweep_frame i)) 12 = 0x0800"
    by (simp add: sweep_frame_def eth_frame_proto)
  moreover have "drop 14 (wf_bytes (sweep_frame i)) =
      [0x45, 0, 0, 40, 0, 0, 0, 0, 64, 6, 0, 0, 10, 0, 0, 1, 10, 0, 0, 2, 0x30, 0x39, of_nat i, 0]"
    by (simp add: sweep_frame_def eth_frame_def)
  moreover have "le32 10 0 0 1 = 0x0100000A" "le32 10 0 0 2 = 0x0200000A" "le16 0x30 0x39 = 0x3930"
    by code_simp+
  ultimately show ?thesis
    by (simp add: frame_record_def tap_record_def demo_pkt_def ETH_P_IP_def) (simp add: sweep_frame_def)
qed

lemma sweep_records: "wire_records sweep_frames = map (\<lambda>i. demo_pkt (1 + of_nat i) (le16 (of_nat i) 0)) [0..<21]"
proof -
  have "wire_records (map sweep_frame is) = map (\<lambda>i. demo_pkt (1 + of_nat i) (le16 (of_nat i) 0)) is" for "is"
    by (induction "is") (simp_all add: wire_records_Cons sweep_record)
  moreover have "frame_record \<lparr>wf_bytes = eth_frame (replicate 12 0) 0x0806 [], wf_len = 60, wf_now = 1\<rparr> = None"
    by (simp add: frame_record_def tap_record_def)
  moreover have "frame_record \<lparr>wf_bytes = [1, 2, 3], wf_len = 3, wf_now = 1\<rparr> = None"
    by (simp add: frame_record_def)
  ultimately show ?thesis
    by (simp add: sweep_frames_def wire_records_Cons)
qed

lemma sweep_swept: "swept 0x0100000A (take (Suc 20) (wire_records sweep_frames))"
proof -
  let ?ps = "wire_records sweep_frames"
  have "last ?ps = demo_pkt 21 (le16 20 0)" "take (Suc 20) ?ps = ?ps" "?ps \<noteq> []"
    by (simp_all add: sweep_records last_map)
  moreover have "{q \<in> set ?ps. saddr q = 0x0100000A \<and> 21 - ts_ns q < 5000000000} = set ?ps"
    unfolding sweep_records by (auto simp: upt_conv_Cons)
  moreover have "dport ` set ?ps = set (map (\<lambda>i. le16 (of_nat i) 0) [0..<21])"
    by (simp add: sweep_records image_image)
  moreover have "card (set (map (\<lambda>i. le16 (of_nat i) 0) [0..<21])) = 21"
  proof -
    have "set (map (\<lambda>i. le16 (of_nat i) 0) [0..<21]) = (\<lambda>x. le16 x 0) ` set (map of_nat [0..<21])"
      by (simp add: image_image)
    then show ?thesis
      by (simp only:) (subst card_image, auto simp: inj_on_def upt_conv_Cons)
  qed
  ultimately show ?thesis by (simp add: swept_def)
qed

theorem ids_wire_scan_witness:
  "\<exists>env n secs. Alert_scan 0x0100000A n secs \<in> set (lines_of (fst (ids_main [] real_fp (ids_init real_fp) env)))"
proof -
  let ?ps = "wire_records sweep_frames"
  let ?r = "\<lparr>rg_room = 99, rg_stale = undefined, rg_log = []\<rparr> :: flow_pkt ring"
  let ?load = "\<lambda>f. skb_load (wf_bytes f)"
  let ?env = "\<lparr>ie_nametoindex = (\<lambda>_. 1), ie_debug = False, ie_loaded = True, ie_sock = 3, ie_ignore = 0, ie_attach = 0,
    ie_bind = 0, ie_ring = True, ie_polls = [(rb_records list_ring (tap_run list_ring ?load sweep_frames ?r), 1)]\<rparr>"
  have "length ?ps = 21" by (simp add: sweep_records)
  moreover have "wf_now f \<noteq> 0" if "f \<in> set sweep_frames" for f
    using that by (auto simp: sweep_frames_def sweep_frame_def upt_conv_Cons)
  moreover have "sorted (map wf_now sweep_frames)"
    by (simp add: sweep_frames_def sweep_frame_def upt_conv_Cons)
  moreover have "scan_fits (filter (\<lambda>q. saddr q = 0x0100000A) ?ps)"
    using length_filter_le [of "\<lambda>q. saddr q = 0x0100000A" ?ps] calculation(1) by (intro scan_fits_short) simp
  moreover have "length sweep_frames \<le> 2 ^ 31" "card (saddr ` set ?ps) \<le> 64"
    using card_image_le_length [of saddr ?ps] calculation(1) by (simp_all add: sweep_frames_def)
  moreover have "rb_takes list_ring (length ?ps) ?r" "rb_records list_ring ?r = []"
    using calculation(1) by (simp_all add: list_ring_takes) (simp add: list_ring_defs)
  moreover have "\<exists>i < length ?ps. swept 0x0100000A (take (Suc i) ?ps)"
    using sweep_swept calculation(1) by (intro exI [of _ 20]) simp
  ultimately show ?thesis
    using ids_wire_scan [OF ring_model.bpf_ringbuf_axioms _ _ skb_model.skb_access_axioms, of sweep_frames ?r "[]" ?env
        "0x0100000A" real_fp]
    by (intro exI [of _ ?env]) (auto simp: ids_ifindex_def)
qed

end
