(* ===== verification/Stash_Trace.thy ===== *)
theory Stash_Trace
  imports Stash Loaders
begin

text \<open>
  10-openat-ret and 11-connect over whole traces. \<open>Stash\<close> shows what a single exit reports;
  here any interleaving of the calls of all processes is run against an unbounded dictionary of
  calls in flight. The bounded map and the ring refine it as long as no more calls are in flight
  than the map has entries for and the ring has room: every exit that follows an entry of its
  process is reported, in the order of the exits, and nothing else is.
\<close>

section \<open>The dictionary\<close>

definition flight_step ::
  "(task_ctx \<Rightarrow> 'a \<Rightarrow> 'v option) \<Rightarrow> (u32 \<Rightarrow> 'v option) \<times> (task_ctx \<times> 'b \<times> 'v) list \<Rightarrow> ('a, 'b) call \<Rightarrow>
   (u32 \<Rightarrow> 'v option) \<times> (task_ctx \<times> 'b \<times> 'v) list" where
  "flight_step val s c =
     (case s of (d, out) \<Rightarrow>
        (case c of
           Enter t a \<Rightarrow> (case val t a of None \<Rightarrow> (d, out) | Some v \<Rightarrow> (d(cur_pid t \<mapsto> v), out))
         | Exit t b \<Rightarrow>
             (case d (cur_pid t) of None \<Rightarrow> (d, out) | Some v \<Rightarrow> (d(cur_pid t := None), out @ [(t, b, v)]))))"

definition flights ::
  "(task_ctx \<Rightarrow> 'a \<Rightarrow> 'v option) \<Rightarrow> ('a, 'b) call list \<Rightarrow> (u32 \<Rightarrow> 'v option) \<times> (task_ctx \<times> 'b \<times> 'v) list" where
  "flights val cs = foldl (flight_step val) (\<lambda>_. None, []) cs"

text \<open>The calls in flight after a trace, and the calls that have ended.\<close>

definition flying :: "(task_ctx \<Rightarrow> 'a \<Rightarrow> 'v option) \<Rightarrow> ('a, 'b) call list \<Rightarrow> u32 set" where
  "flying val cs = dom (fst (flights val cs))"

abbreviation ended :: "(task_ctx \<Rightarrow> 'a \<Rightarrow> 'v option) \<Rightarrow> ('a, 'b) call list \<Rightarrow> (task_ctx \<times> 'b \<times> 'v) list" where
  "ended val cs \<equiv> snd (flights val cs)"

lemma flights_snoc [simp]:
  "flights val [] = (\<lambda>_. None, [])" "flights val (cs @ [c]) = flight_step val (flights val cs) c"
  by (simp_all add: flights_def)

lemma finite_flying: "finite (flying val cs)"
proof (induction cs rule: rev_induct)
  case (snoc c cs)
  then show ?case
    by (cases "flights val cs") (auto simp: flying_def flight_step_def split: call.split option.split)
qed (simp add: flying_def)

lemma flying_callers: "flying val cs \<subseteq> {cur_pid t | t a. Enter t a \<in> set cs}"
proof (induction cs rule: rev_induct)
  case (snoc c cs)
  then show ?case
    by (cases "flights val cs") (fastforce simp: flying_def flight_step_def split: call.splits option.splits if_splits)
qed (simp add: flying_def)

lemma few_callers:
  assumes "\<And>t a. Enter t a \<in> set cs \<Longrightarrow> cur_pid t \<in> P" "finite P" "card P \<le> n"
  shows "card (flying val (take i cs)) \<le> n"
proof -
  have "flying val (take i cs) \<subseteq> P"
    using flying_callers [of val "take i cs"] assms(1) in_set_takeD [of _ i cs] by blast
  from card_mono [OF assms(2) this] assms(3) show ?thesis by simp
qed

lemma ended_mono: "length (ended val cs) \<le> length (ended val (cs @ [c]))"
  by (cases "flights val cs") (auto simp: flight_step_def split: call.split option.split)

locale flight_stash =
  entry_exit ops ring val event enter exit + bounded: bpf_bounded ops cap wf_map
  for ops :: "('m, u32, 'v) map_ops" and ring :: "('r, 'e) ring_ops"
    and val :: "task_ctx \<Rightarrow> 'a \<Rightarrow> 'v option" and event :: "task_ctx \<Rightarrow> 'b \<Rightarrow> 'v \<Rightarrow> 'e \<Rightarrow> 'e"
    and enter exit cap wf_map
begin

text \<open>The map holds the calls in flight, and the ring one record per ended call, in order.\<close>

definition tracks :: "('a, 'b) call list \<Rightarrow> 'r \<Rightarrow> nat \<Rightarrow> 'm \<times> 'r \<Rightarrow> bool" where
  "tracks cs r n s \<longleftrightarrow>
     wf_map (fst s) \<and> map_lookup ops (fst s) = fst (flights val cs) \<and>
     rb_takes ring (n - length (ended val cs)) (snd s) \<and>
     (\<exists>es. rb_records ring (snd s) = rb_records ring r @ es \<and>
        list_all2 (\<lambda>e (t, b, v). \<exists>slot. e = event t b v slot) es (ended val cs))"

lemma tracks_step:
  assumes tr: "tracks cs r n s"
    and room: "card (flying val (cs @ [c])) \<le> cap" "length (ended val (cs @ [c])) \<le> n"
  shows "tracks (cs @ [c]) r n (call_step enter exit s c)"
proof -
  obtain m ring1 where s: "s = (m, ring1)" by force
  obtain d out where f: "flights val cs = (d, out)" by force
  have wf: "wf_map m" and look: "map_lookup ops m = d" and takes: "rb_takes ring (n - length out) ring1"
    using tr by (simp_all add: tracks_def s f)
  obtain es where es: "rb_records ring ring1 = rb_records ring r @ es"
    "list_all2 (\<lambda>e (t, b, v). \<exists>slot. e = event t b v slot) es out"
    using tr by (auto simp: tracks_def s f)
  show ?thesis
  proof (cases c)
    case (Enter t a)
    show ?thesis
    proof (cases "val t a")
      case None
      with Enter wf look takes es show ?thesis
        by (auto simp: tracks_def s f call_step_def enter_law flight_step_def)
    next
      case (Some v)
      have "dom (map_lookup ops m) \<subseteq> flying val (cs @ [c])" "cur_pid t \<in> flying val (cs @ [c])"
        using Some Enter by (auto simp: flying_def f flight_step_def look)
      from bounded.bounded_any [OF wf this(1) finite_flying room(1) this(2)] Some Enter look wf takes es
      show ?thesis
        by (auto simp: tracks_def s f call_step_def enter_law flight_step_def bounded.bounded_update_wf)
    qed
  next
    case (Exit t b)
    show ?thesis
    proof (cases "d (cur_pid t)")
      case None
      with Exit wf look takes es show ?thesis
        by (auto simp: tracks_def s f call_step_def exit_law flight_step_def)
    next
      case (Some v)
      then have n: "n - length out = Suc (n - Suc (length out))"
        using room(2) Exit by (simp add: f flight_step_def)
      obtain r' slot where rb: "rb_reserve ring ring1 = Some (r', slot)"
        "\<And>e. rb_takes ring (n - Suc (length out)) (rb_submit ring r' e)"
        using takes unfolding n by (auto split: option.splits)
      have "list_all2 (\<lambda>e (t, b, v). \<exists>slot. e = event t b v slot) (es @ [event t b v slot]) (out @ [(t, b, v)])"
        using es(2) by (intro list_all2_appendI) auto
      with Exit Some wf look rb es(1) show ?thesis
        by (auto simp: tracks_def s f call_step_def exit_law flight_step_def hash_delete
            bounded.bounded_delete_wf reserve_submit [OF rb(1)])
    qed
  qed
qed

lemma run_tracks:
  assumes "wf_map m" "\<And>p. map_lookup ops m p = None"
    and "rb_takes ring (length (ended val cs)) r" "\<And>i. card (flying val (take i cs)) \<le> cap"
  shows "tracks cs r (length (ended val cs)) (call_run enter exit cs (m, r))"
proof -
  define n where "n = length (ended val cs)"
  have "length (ended val cs) \<le> n \<Longrightarrow> (\<And>i. card (flying val (take i cs)) \<le> cap) \<Longrightarrow>
      tracks cs r n (call_run enter exit cs (m, r))" for cs
  proof (induction cs rule: rev_induct)
    case Nil
    from assms(1,2,3) show ?case
      by (auto simp: tracks_def call_run_def n_def fun_eq_iff)
  next
    case (snoc c cs)
    have "card (flying val (take i cs)) \<le> cap" for i
      using snoc.prems(2) [of "min i (length cs)"] by (simp add: min_def split: if_splits)
    moreover have "length (ended val cs) \<le> n"
      using snoc.prems(1) ended_mono [of val cs c] by linarith
    ultimately have "tracks cs r n (call_run enter exit cs (m, r))"
      by (rule snoc.IH [rotated])
    from tracks_step [OF this _ snoc.prems(1)] snoc.prems(2) [of "Suc (length cs)"] show ?case by simp
  qed
  from this [of cs] assms(4) show ?thesis by (simp add: n_def)
qed

text \<open>What a callback makes of the records, when it does not read what the slot held before.\<close>

lemma run_lines:
  assumes "wf_map m" "\<And>p. map_lookup ops m p = None"
    and "rb_takes ring (length (ended val cs)) r" "\<And>i. card (flying val (take i cs)) \<le> cap"
    and line: "\<And>t b v slot. f (event t b v slot) = g t b v"
  shows "map f (rb_records ring (snd (call_run enter exit cs (m, r)))) =
    map f (rb_records ring r) @ map (\<lambda>(t, b, v). g t b v) (ended val cs)"
proof -
  obtain es where es: "rb_records ring (snd (call_run enter exit cs (m, r))) = rb_records ring r @ es"
    "list_all2 (\<lambda>e (t, b, v). \<exists>slot. e = event t b v slot) es (ended val cs)"
    using run_tracks [OF assms(1-4)] by (auto simp: tracks_def)
  from es(2) have "map f es = map (\<lambda>(t, b, v). g t b v) (ended val cs)"
    by (induction rule: list_all2_induct) (auto simp: line)
  with es(1) show ?thesis by simp
qed

end

section \<open>The two tools\<close>

lemma open_flight_stash:
  assumes "bpf_bounded ops cap wf_map" "bpf_ringbuf ring"
  shows "flight_stash ops ring (\<lambda>t args. Some (open_entry probe args)) open_event_of
    (open_trace_enter ops probe) (open_trace_exit ops ring) cap wf_map"
  using open_entry_exit [OF bpf_bounded.axioms(1) [OF assms(1)] assms(2)] assms(1) by (rule flight_stash.intro)

lemma conn_flight_stash:
  assumes "bpf_bounded ops cap wf_map" "bpf_ringbuf ring"
  shows "flight_stash ops ring (\<lambda>t args. conn_entry probe args) conn_event_of
    (conn_trace_enter ops probe) (conn_trace_exit ops ring) cap wf_map"
  using conn_entry_exit [OF bpf_bounded.axioms(1) [OF assms(1)] assms(2)] assms(1) by (rule flight_stash.intro)

interpretation open_flights: flight_stash
  "hash_ops :: ((u32, entry_t) amap, u32, entry_t) map_ops" list_ring "\<lambda>t args. Some (open_entry probe args)"
  open_event_of "open_trace_enter hash_ops probe" "open_trace_exit hash_ops list_ring" n "amap_wf n"
  by (rule open_flight_stash) (fact bounded_model.bpf_bounded_axioms ring_model.bpf_ringbuf_axioms)+

interpretation conn_flights: flight_stash
  "hash_ops :: ((u32, bytes) amap, u32, bytes) map_ops" list_ring "\<lambda>t args. conn_entry probe args"
  conn_event_of "conn_trace_enter hash_ops probe" "conn_trace_exit hash_ops list_ring" n "amap_wf n"
  by (rule conn_flight_stash) (fact bounded_model.bpf_bounded_axioms ring_model.bpf_ringbuf_axioms)+

text \<open>The maps as the programs declare them.\<close>

definition open_stash_map :: "(u32, entry_t) amap" where
  "open_stash_map = amap_empty 10240"

definition conn_stash_map :: "(u32, bytes) amap" where
  "conn_stash_map = amap_empty 10240"

text \<open>The line of an ended call.\<close>

definition open_ended_line :: "task_ctx \<Rightarrow> u64 \<Rightarrow> entry_t \<Rightarrow> open_line" where
  "open_ended_line t ret e =
     \<lparr>ol_pid = unat (cur_pid t), ol_uid = unat (cur_uid t), ol_comm = c_str (t_comm t), ol_ret = sint ret,
      ol_flags = decode_flags (en_flags e) 8, ol_filename = c_str (en_filename e)\<rparr>"

definition conn_ended_line :: "(u16 \<Rightarrow> bytes \<Rightarrow> string) \<Rightarrow> task_ctx \<Rightarrow> u64 \<Rightarrow> bytes \<Rightarrow> conn_line" where
  "conn_ended_line ntop t ret b =
     (let four = (le16 (b ! 0) (b ! 1) = Stash.AF_INET) in
      \<lparr>cl_pid = unat (cur_pid t), cl_uid = unat (cur_uid t), cl_comm = c_str (t_comm t),
       cl_proto = (if four then ''IPv4'' else ''IPv6''),
       cl_addr = (if four then ntop Stash.AF_INET [b ! 4, b ! 5, b ! 6, b ! 7] else ntop Stash.AF_INET6 (take 16 (drop 8 b))),
       cl_port = unat (le16 (b ! 3) (b ! 2)),
       cl_status = conn_status (ucast ret), cl_ret = sint (ucast ret :: u32)\<rparr>)"

lemma open_ended: "open_handle_event (open_event_of t ret e slot) = open_ended_line t ret e"
  by (simp add: open_handle_event_def open_event_of_def open_ended_line_def)

lemma u16_inject: "ucast (w :: u16) = (ucast v :: u32) \<longleftrightarrow> w = v"
proof
  assume eq: "ucast w = (ucast v :: u32)"
  have "bit w n = bit v n" if "n < 16" for n
    using arg_cong [OF eq, where f = "\<lambda>x. bit x n"] that by (simp add: bit_simps)
  then show "w = v" by (intro bit_word_eqI) simp
qed simp

lemma conn_ended: "conn_handle_event ntop (conn_event_of t ret b slot) = conn_ended_line ntop t ret b"
  by (simp add: conn_handle_event_def conn_event_of_def conn_ended_line_def Let_def u16_inject bytes_of32_def)

text \<open>
  C9. 10-openat-ret from the system calls of all processes to the printed lines: for every
  interleaving of entries and exits with at most as many calls in flight as the stash has entries
  for (10240), a ring with room, and any way the polls cut the records, the tool prints exactly one
  line per exit that follows an entry of its process, in the order of the exits, with that entry's
  file name and flags and the exit's return value.
\<close>

theorem open_tool_lines:
  assumes maps: "bpf_bounded ops cap wf_map" "bpf_ringbuf ring" "wf_map m" "\<And>p. map_lookup ops m p = None"
    and room: "rb_takes ring (length (ended (\<lambda>t args. Some (open_entry probe args)) cs)) r" "rb_records ring r = []"
      "\<And>i. card (flying (\<lambda>t args. Some (open_entry probe args)) (take i cs)) \<le> cap"
    and env: "ld_loaded env" "ld_attach env = 0" "ld_ring env"
      "polled (ld_polls env) =
         rb_records ring (snd (call_run (open_trace_enter ops probe) (open_trace_exit ops ring) cs (m, r)))"
  shows "lines_of (fst (opensnoop10_main env)) =
    map (\<lambda>(t, ret, e). open_ended_line t ret e) (ended (\<lambda>t args. Some (open_entry probe args)) cs)"
proof -
  note st = open_flight_stash [OF maps(1,2), of probe]
  show ?thesis
    using flight_stash.run_lines [OF st maps(3,4) room(1,3), where f = open_handle_event and g = open_ended_line]
    by (simp add: opensnoop10_main_def ring_main_prints [OF env(1-3)] env(4) room(2) open_ended)
qed

definition flight_calls :: "(u64 list, u64) call list" where
  "flight_calls = [Enter snoop_task [0, 4096, 0x41], Enter (mk_task 9 0 [] 6) [0, 4096, 0], Exit (mk_task 9 0 [] 7) 5,
     Exit snoop_task 3, Exit (mk_task 9 0 [] 8) 1]"

theorem open_tool_lines_witness:
  "\<exists>env. map (\<lambda>l. (ol_pid l, ol_ret l, ol_flags l)) (lines_of (fst (opensnoop10_main env))) =
     [(9, 5, ''r''), (7, 3, ''wc'')]"
proof -
  let ?val = "\<lambda>(t :: task_ctx) args. Some (open_entry (mem_probe snoop_mem) args)"
  let ?r = "snoop_ring undefined :: open_event ring"
  let ?run = "call_run (open_trace_enter hash_ops (mem_probe snoop_mem)) (open_trace_exit hash_ops list_ring)
    flight_calls (open_stash_map, ?r)"
  let ?env = "\<lparr>ld_loaded = True, ld_attach = 0, ld_ring = True, ld_polls = [(rb_records list_ring (snd ?run), 1)]\<rparr>"
  have ended: "ended ?val flight_calls =
      [(mk_task 9 0 [] 7, 5, open_entry (mem_probe snoop_mem) [0, 4096, 0]),
       (snoop_task, 3, open_entry (mem_probe snoop_mem) [0, 4096, 0x41])]"
    by (simp add: flights_def flight_calls_def flight_step_def snoop_task_def)
  have few: "card (flying ?val (take i flight_calls)) \<le> 10240" for i
    by (rule few_callers [where P = "{7, 9}"]) (auto simp: flight_calls_def snoop_task_def)
  have "map_lookup hash_ops open_stash_map p = None" for p
    by (simp add: open_stash_map_def hash_ops_def)
  from open_tool_lines [OF bounded_model.bpf_bounded_axioms [of 10240] ring_model.bpf_ringbuf_axioms _ this, of "mem_probe snoop_mem"
      flight_calls ?r ?env] few
  have "lines_of (fst (opensnoop10_main ?env)) = map (\<lambda>(t, ret, e). open_ended_line t ret e) (ended ?val flight_calls)"
    by (simp add: open_stash_map_def list_ring_takes ended snoop_ring_def list_ring_defs)
  then have "lines_of (fst (opensnoop10_main ?env)) =
      [open_ended_line (mk_task 9 0 [] 7) 5 (open_entry (mem_probe snoop_mem) [0, 4096, 0]),
       open_ended_line snoop_task 3 (open_entry (mem_probe snoop_mem) [0, 4096, 0x41])]"
    by (simp add: ended)
  then show ?thesis
    by (intro exI [of _ ?env])
       (simp add: open_ended_line_def open_entry_def decode_flags_8 snoop_task_def bit_numeral_rec)
qed

text \<open>
  C18. The same for 11-connect: one line per exit that follows a connect of its process to an IPv4
  or IPv6 address, in the order of the exits, with that address and port and the status of the
  exit's return value. Calls on other families, or whose address cannot be read, take no room in
  the stash and leave an earlier entry of their process in it.
\<close>

theorem conn_tool_lines:
  assumes maps: "bpf_bounded ops cap wf_map" "bpf_ringbuf ring" "wf_map m" "\<And>p. map_lookup ops m p = None"
    and room: "rb_takes ring (length (ended (\<lambda>t. conn_entry probe) cs)) r" "rb_records ring r = []"
      "\<And>i. card (flying (\<lambda>t. conn_entry probe) (take i cs)) \<le> cap"
    and env: "ld_loaded env" "ld_attach env = 0" "ld_ring env"
      "polled (ld_polls env) =
         rb_records ring (snd (call_run (conn_trace_enter ops probe) (conn_trace_exit ops ring) cs (m, r)))"
  shows "lines_of (fst (netsnoop_main ntop env)) =
    map (\<lambda>(t, ret, b). conn_ended_line ntop t ret b) (ended (\<lambda>t. conn_entry probe) cs)"
proof -
  note st = conn_flight_stash [OF maps(1,2), of probe]
  show ?thesis
    using flight_stash.run_lines [OF st maps(3,4) room(1,3), where f = "conn_handle_event ntop" and g = "conn_ended_line ntop"]
    by (simp add: netsnoop_main_def ring_main_prints [OF env(1-3)] env(4) room(2) conn_ended)
qed

text \<open>The second process connects to an address of another family and is not reported.\<close>

definition flight_connects :: "(u64 list, u64) call list" where
  "flight_connects = [Enter snoop_task [3, 8192, 16], Enter (mk_task 9 0 [] 6) [3, 4096, 16], Exit (mk_task 9 0 [] 7) 0,
     Exit snoop_task (- 115)]"

theorem conn_tool_lines_witness:
  "\<exists>env. map (\<lambda>l. (cl_pid l, cl_proto l, cl_port l, cl_status l))
       (lines_of (fst (netsnoop_main (\<lambda>f bs. ''lo'') env))) = [(7, ''IPv4'', 80, ''inprogress'')]"
proof -
  let ?val = "\<lambda>t :: task_ctx. conn_entry (mem_probe snoop_mem)"
  let ?b = "sockaddr_in 80 [127, 0, 0, 1] @ replicate 120 0"
  let ?r = "snoop_ring undefined :: conn_event ring"
  let ?run = "call_run (conn_trace_enter hash_ops (mem_probe snoop_mem)) (conn_trace_exit hash_ops list_ring)
    flight_connects (conn_stash_map, ?r)"
  let ?env = "\<lparr>ld_loaded = True, ld_attach = 0, ld_ring = True, ld_polls = [(rb_records list_ring (snd ?run), 1)]\<rparr>"
  have en: "conn_entry (mem_probe snoop_mem) [3, 8192, 16] = Some ?b"
    by (rule conn_entry_of [OF probe_model.bpf_probe_axioms]) (simp_all add: snoop_addr sockaddr_in_def Stash.AF_INET_def)
  have en': "conn_entry (mem_probe snoop_mem) [3, 4096, 16] = None"
    by code_simp
  have ended: "ended ?val flight_connects = [(snoop_task, - 115, ?b)]"
    by (simp add: flights_def flight_connects_def flight_step_def snoop_task_def en en')
  have few: "card (flying ?val (take i flight_connects)) \<le> 10240" for i
    by (rule few_callers [where P = "{7, 9}"]) (auto simp: flight_connects_def snoop_task_def)
  have "map_lookup hash_ops conn_stash_map p = None" for p
    by (simp add: conn_stash_map_def hash_ops_def)
  from conn_tool_lines [OF bounded_model.bpf_bounded_axioms [of 10240] ring_model.bpf_ringbuf_axioms _ this, of "mem_probe snoop_mem"
      flight_connects ?r ?env "\<lambda>f bs. ''lo''"] few
  have "lines_of (fst (netsnoop_main (\<lambda>f bs. ''lo'') ?env)) = [conn_ended_line (\<lambda>f bs. ''lo'') snoop_task (- 115) ?b]"
    by (simp add: conn_stash_map_def list_ring_takes ended snoop_ring_def list_ring_defs)
  moreover have "le16 2 0 = Stash.AF_INET"
    by code_simp
  ultimately show ?thesis
    by (intro exI [of _ ?env]) (simp add: conn_ended_line_def snoop_task_def conn_status_def sockaddr_in_def)
qed

end
