(* ===== verification/Keyring.thy ===== *)
theory Keyring
  imports Bpf_Helpers Loader
begin

text \<open>
  26-keyring-detect: the two hooks of \<open>keyring_snoop.bpf.c\<close> on the keyring write path, the
  policy and \<open>main\<close> of \<open>keyring_snoop.c\<close>, and the inert LSM guard. The type and description
  strings are in kernel memory at the fentry hook and in user memory at the tracepoint, so the
  two hooks take a reader each; both satisfy what \<open>bpf-helpers(7)\<close> says of string reads.

  The theorems show that a key is flagged exactly when its type is one that can hold a payload
  and its size reaches the threshold, what threshold the command line sets, and that the stimulus
  \<open>stage-key.c\<close> is flagged with the sizes its comment names.
\<close>

section \<open>The kernel side\<close>

definition TYPE_LEN :: nat where "TYPE_LEN = 16"

definition DESC_LEN :: nat where "DESC_LEN = 64"

record key_event =
  ke_ts_ns :: u64
  ke_pid :: u32
  ke_uid :: u32
  ke_datalen :: u64
  ke_source :: u8
  ke_comm :: bytes
  ke_type :: bytes
  ke_desc :: bytes

definition fill_ids :: "task_ctx \<Rightarrow> key_event \<Rightarrow> key_event" where
  "fill_ids t e =
     e\<lparr>ke_ts_ns := t_ktime t, ke_pid := cur_pid t, ke_uid := cur_uid t, ke_comm := t_comm t\<rparr>"

definition on_key_create ::
  "('r, key_event) ring_ops \<Rightarrow> probe_ops \<Rightarrow> task_ctx \<Rightarrow> u64 \<Rightarrow> u64 \<Rightarrow> u64 \<Rightarrow> 'r \<Rightarrow> 'r" where
  "on_key_create ring kread t type description plen r =
     (case rb_reserve ring r of
        None \<Rightarrow> r
      | Some (r, e) \<Rightarrow>
          let e = (fill_ids t e)\<lparr>ke_source := 0, ke_datalen := plen\<rparr>;
              e = e\<lparr>ke_type := (ke_type e)[0 := 0], ke_desc := (ke_desc e)[0 := 0]\<rparr>;
              e = (if type \<noteq> 0 then e\<lparr>ke_type := snd (probe_read_user_str kread type (ke_type e))\<rparr> else e);
              e = (if description \<noteq> 0
                   then e\<lparr>ke_desc := snd (probe_read_user_str kread description (ke_desc e))\<rparr> else e)
          in rb_submit ring r e)"

definition on_sys_add_key ::
  "('r, key_event) ring_ops \<Rightarrow> probe_ops \<Rightarrow> task_ctx \<Rightarrow> u64 list \<Rightarrow> 'r \<Rightarrow> 'r" where
  "on_sys_add_key ring uread t args r =
     (case rb_reserve ring r of
        None \<Rightarrow> r
      | Some (r, e) \<Rightarrow>
          let e = (fill_ids t e)\<lparr>ke_source := 1, ke_datalen := args ! 3\<rparr>;
              e = e\<lparr>ke_type := (ke_type e)[0 := 0], ke_desc := (ke_desc e)[0 := 0]\<rparr>;
              e = e\<lparr>ke_type := snd (probe_read_user_str uread (args ! 0) (ke_type e))\<rparr>;
              e = e\<lparr>ke_desc := snd (probe_read_user_str uread (args ! 1) (ke_desc e))\<rparr>
          in rb_submit ring r e)"

text \<open>The LSM variant respects an earlier denial and allows everything else.\<close>

definition key_alloc_guard :: "int \<Rightarrow> int" where
  "key_alloc_guard ret = (if ret \<noteq> 0 then ret else 0)"

section \<open>The policy\<close>

definition ascii :: "string \<Rightarrow> bytes" where
  "ascii s = map of_char s"

definition is_stageable_type :: "bytes \<Rightarrow> bool" where
  "is_stageable_type t \<longleftrightarrow> c_str t = ascii ''user'' \<or> c_str t = ascii ''big_key''"

record key_line =
  kl_src :: string
  kl_pid :: nat
  kl_uid :: nat
  kl_type :: bytes
  kl_len :: u64
  kl_desc :: bytes
  kl_flag :: bool

definition key_handle_event :: "u64 \<Rightarrow> key_event \<Rightarrow> key_line" where
  "key_handle_event suspicious_bytes e =
     (let src = (if ke_source e = 0 then ''fentry'' else ''tracep'');
          suspicious = (ke_source e = 0 \<and> is_stageable_type (ke_type e) \<and> suspicious_bytes \<le> ke_datalen e)
      in \<lparr>kl_src = src, kl_pid = unat (ke_pid e), kl_uid = unat (ke_uid e),
          kl_type = (if ke_type e ! 0 \<noteq> 0 then c_str (ke_type e) else ascii ''-''),
          kl_len = ke_datalen e,
          kl_desc = (if ke_desc e ! 0 \<noteq> 0 then c_str (ke_desc e) else ascii ''-''),
          kl_flag = suspicious\<rparr>)"

section \<open>The threshold\<close>

text \<open>
  \<open>strtoull(s, &end, 0)\<close>: blanks, a sign, a prefix that chooses the base, and digits as long as
  there are any. The result is the value, what \<open>end\<close> points to, and whether \<open>errno\<close> is
  \<open>ERANGE\<close>. Without digits \<open>end\<close> is the start of the string; a minus sign negates the value
  modulo \<open>2 ^ 64\<close>.
\<close>

definition c_isspace :: "char \<Rightarrow> bool" where
  "c_isspace c \<longleftrightarrow> c = CHR '' '' \<or> 9 \<le> (of_char c :: nat) \<and> (of_char c :: nat) \<le> 13"

definition digit_val :: "char \<Rightarrow> int option" where
  "digit_val c =
     (let n = of_char c :: int in
      if 48 \<le> n \<and> n \<le> 57 then Some (n - 48)
      else if 97 \<le> n \<and> n \<le> 122 then Some (n - 87)
      else if 65 \<le> n \<and> n \<le> 90 then Some (n - 55)
      else None)"

definition is_digit_of :: "int \<Rightarrow> char \<Rightarrow> bool" where
  "is_digit_of b c \<longleftrightarrow> (case digit_val c of None \<Rightarrow> False | Some d \<Rightarrow> d < b)"

definition value_of :: "int \<Rightarrow> string \<Rightarrow> int" where
  "value_of b ds = foldl (\<lambda>n c. n * b + the (digit_val c)) 0 ds"

definition base_prefix :: "string \<Rightarrow> int \<times> string" where
  "base_prefix s =
     (if take 2 s \<in> {''0x'', ''0X''} \<and> (case drop 2 s of [] \<Rightarrow> False | c # _ \<Rightarrow> is_digit_of 16 c) then (16, drop 2 s)
      else if take 1 s = ''0'' then (8, s) else (10, s))"

definition c_strtoull :: "string \<Rightarrow> u64 \<times> string \<times> bool" where
  "c_strtoull s =
     (let s1 = dropWhile c_isspace s;
          neg = (take 1 s1 = ''-'');
          s2 = (if take 1 s1 = ''-'' \<or> take 1 s1 = ''+'' then drop 1 s1 else s1);
          (b, s3) = base_prefix s2;
          ds = takeWhile (is_digit_of b) s3;
          n = value_of b ds
      in if ds = [] then (0, s, False)
         else if 2 ^ 64 \<le> n then (- 1, drop (length ds) s3, True)
         else (if neg then - of_int n else of_int n, drop (length ds) s3, False))"

text \<open>The threshold a command line sets, or the usage error.\<close>

definition key_threshold :: "string list \<Rightarrow> u64 option" where
  "key_threshold argv =
     (if 1 < length argv
      then (case c_strtoull (argv ! 1) of
              (v, end, erange) \<Rightarrow> if end = argv ! 1 \<or> end \<noteq> '''' \<or> erange then None else Some v)
      else Some 4096)"

text \<open>
  \<open>main\<close>: the two programs are attached one by one. Without the fentry hook the tool ends;
  without the tracepoint it goes on. An interrupted poll is repeated, and no poll error changes
  the exit status.
\<close>

record key_env =
  kv_loaded :: bool
  kv_fentry :: int
  kv_tracepoint :: int
  kv_ring :: bool
  kv_polls :: "(key_event list \<times> int) list"

fun key_loop :: "u64 \<Rightarrow> (key_event list \<times> int) list \<Rightarrow> key_line act list" where
  "key_loop thr [] = []"
| "key_loop thr ((es, n) # ps) =
     map (\<lambda>e. Line (key_handle_event thr e)) es @ [Poll n] @
     (if n < 0 \<and> n \<noteq> - EINTR then [Err ''ring_buffer__poll''] else key_loop thr ps)"

definition keyring_main :: "string list \<Rightarrow> key_env \<Rightarrow> key_line act list \<times> int" where
  "keyring_main argv env =
     (case key_threshold argv of
        None \<Rightarrow> ([Err ''usage''], 1)
      | Some thr \<Rightarrow>
          if \<not> kv_loaded env then ([Print_off, Open_load, Err ''open/load skeleton failed''], 1)
          else if kv_fentry env \<noteq> 0 then ([Print_off, Open_load, Attach, Err ''fentry attach failed'', Destroy], 1)
          else
            let start = [Print_off, Open_load, Attach, Attach] @
                  (if kv_tracepoint env \<noteq> 0 then [Err ''note: tracepoint sys_enter_add_key unavailable''] else [])
            in if \<not> kv_ring env then (start @ [Ring_new, Err ''ring_buffer__new failed'', Destroy], 1)
               else (start @ [Ring_new, Signals, Say ''watching key creation'',
                       Header [''src'', ''pid'', ''uid'', ''type/len'', ''description'']] @
                       key_loop thr (kv_polls env) @ [Ring_free, Destroy], 0))"

section \<open>The stimulus\<close>

text \<open>
  \<open>stage-key.c\<close>: the size from the command line (\<open>strtoul\<close> is \<open>strtoull\<close> at 64 bits), a key of
  that many bytes, a read of it and its revocation. The environment says whether the two
  allocations succeed and what the system calls return.
\<close>

datatype stage_act =
  Add_key string string bytes int | Staged u64 int | Key_read int u64 int | Key_revoke int | Stage_err string

record stage_env =
  sg_buf :: bool
  sg_add_key :: "string \<Rightarrow> string \<Rightarrow> bytes \<Rightarrow> int \<Rightarrow> int"
  sg_out :: bool
  sg_read :: "int \<Rightarrow> u64 \<Rightarrow> int"

definition stage_size :: "string list \<Rightarrow> u64" where
  "stage_size argv = (if 1 < length argv then fst (c_strtoull (argv ! 1)) else 8192)"

definition stage_key :: "string list \<Rightarrow> stage_env \<Rightarrow> stage_act list \<times> int" where
  "stage_key argv env =
     (let n = stage_size argv in
      if \<not> sg_buf env then ([Stage_err ''malloc''], 1)
      else
        let b = replicate (unat n) 65;
            k = sg_add_key env ''user'' ''_dntry'' b (- 3);
            call = Add_key ''user'' ''_dntry'' b (- 3)
        in if k < 0 then ([call, Stage_err ''add_key''], 1)
           else if \<not> sg_out env then ([call, Staged n k, Stage_err ''malloc''], 1)
           else ([call, Staged n k, Key_read k n (sg_read env k n), Key_revoke k], 0))"

section \<open>What is flagged\<close>

lemma ascii_simps [simp]:
  "ascii ''user'' = [117, 115, 101, 114]" "ascii ''big_key'' = [98, 105, 103, 95, 107, 101, 121]"
  by (simp_all add: ascii_def)

lemma take_eq_short: "length u < n \<Longrightarrow> take n s = u \<longleftrightarrow> s = u"
  by (cases "length s < n") auto

lemma key_create_event:
  assumes ring: "bpf_ringbuf ring" and probe: "bpf_probe kread mem"
    and type: "mem_bytes mem type (Suc (length s)) = Some (s @ [0])" "0 \<notin> set s" "type \<noteq> 0"
    and room: "rb_reserve ring r = Some (r', slot)" "length (ke_type slot) = TYPE_LEN"
  shows "\<exists>e. rb_records ring (on_key_create ring kread t type description plen r) = rb_records ring r @ [e] \<and>
    ke_source e = 0 \<and> ke_datalen e = plen \<and> c_str (ke_type e) = take 15 s \<and> ke_pid e = cur_pid t"
proof -
  have "(ke_type slot)[0 := 0] \<noteq> []" "length ((ke_type slot)[0 := 0]) = 16"
    using room(2) by (auto simp: TYPE_LEN_def)
  with bpf_probe.read_str_prefix [OF probe type(1,2), of "(ke_type slot)[0 := 0]", THEN conjunct2]
  have "c_str (snd (probe_read_user_str kread type ((ke_type slot)[0 := 0]))) = take 15 s"
    by simp
  then show ?thesis
    using room(1) type(3) bpf_ringbuf.reserve_submit [OF ring room(1)]
    by (auto simp: on_key_create_def fill_ids_def Let_def)
qed

text \<open>
  C26. When the kernel creates a key of type \<open>s\<close> with a payload of \<open>plen\<close> bytes, the line of
  the fentry hook is flagged exactly if \<open>s\<close> is \<open>user\<close> or \<open>big_key\<close> and \<open>plen\<close> reaches the
  threshold the command line set. A record of the tracepoint, which sees the same system call,
  is never flagged.
\<close>

theorem keyring_flags:
  assumes ring: "bpf_ringbuf ring" and probe: "bpf_probe kread mem"
    and type: "mem_bytes mem type (Suc (length s)) = Some (s @ [0])" "0 \<notin> set s" "type \<noteq> 0"
    and room: "rb_reserve ring r = Some (r', slot)" "length (ke_type slot) = TYPE_LEN"
    and thr: "key_threshold argv = Some thr"
  shows "map kl_flag (map (key_handle_event thr) (rb_records ring (on_key_create ring kread t type desc plen r))) =
      map kl_flag (map (key_handle_event thr) (rb_records ring r)) @
        [(s = ascii ''user'' \<or> s = ascii ''big_key'') \<and> thr \<le> plen] \<and>
    map kl_flag (map (key_handle_event thr) (rb_records ring (on_sys_add_key ring uread t args r))) =
      map kl_flag (map (key_handle_event thr) (rb_records ring r)) @ [False]"
proof -
  obtain e where e: "rb_records ring (on_key_create ring kread t type desc plen r) = rb_records ring r @ [e]"
    "ke_source e = 0" "ke_datalen e = plen" "c_str (ke_type e) = take 15 s"
    using key_create_event [OF ring probe type room] by blast
  have "is_stageable_type (ke_type e) \<longleftrightarrow> s = ascii ''user'' \<or> s = ascii ''big_key''"
    using take_eq_short [of "ascii ''user''" 15 s] take_eq_short [of "ascii ''big_key''" 15 s]
    by (simp add: is_stageable_type_def e(4))
  moreover obtain e' where "rb_records ring (on_sys_add_key ring uread t args r) = rb_records ring r @ [e']"
    "ke_source e' = 1"
    using room(1) bpf_ringbuf.reserve_submit [OF ring room(1)]
    by (auto simp: on_sys_add_key_def fill_ids_def Let_def)
  ultimately show ?thesis
    using e by (simp add: key_handle_event_def)
qed

definition key_mem :: "u64 \<Rightarrow> u8 option" where
  "key_mem a = (if a = 64 then Some 117 else if a = 65 then Some 115 else if a = 66 then Some 101
     else if a = 67 then Some 114 else Some 0)"

theorem keyring_flags_witness:
  "map kl_flag (map (key_handle_event 64) (rb_records list_ring (on_key_create list_ring (mem_probe key_mem)
     (mk_task 7 0 [] 1) 64 0 8192
     \<lparr>rg_room = 1, rg_stale = \<lparr>ke_ts_ns = 0, ke_pid = 0, ke_uid = 0, ke_datalen = 0, ke_source = 9, ke_comm = [],
        ke_type = replicate 16 9, ke_desc = replicate 64 9\<rparr>, rg_log = []\<rparr>))) = [True]"
proof -
  let ?slot = "\<lparr>ke_ts_ns = 0, ke_pid = 0, ke_uid = 0, ke_datalen = 0, ke_source = 9, ke_comm = [],
        ke_type = replicate 16 9, ke_desc = replicate 64 9\<rparr>"
  have room: "rb_reserve list_ring \<lparr>rg_room = 1, rg_stale = ?slot, rg_log = []\<rparr> =
      Some (\<lparr>rg_room = 0, rg_stale = ?slot, rg_log = []\<rparr>, ?slot)"
    by (simp add: list_ring_defs)
  have s: "mem_bytes key_mem 64 (Suc (length [117, 115, 101, 114])) = Some ([117, 115, 101, 114] @ [0])"
    by (simp add: key_mem_def)
  have thr: "key_threshold [''keyring_snoop'', ''0x40''] = Some 64"
    by code_simp
  show ?thesis
    using keyring_flags [OF ring_model.bpf_ringbuf_axioms probe_model.bpf_probe_axioms s _ _ room _ thr,
      of "mk_task 7 0 [] 1" 0 8192]
    by (simp add: TYPE_LEN_def list_ring_defs)
qed

text \<open>A negative number is accepted, and turns into a threshold no payload reaches.\<close>

lemma key_threshold_negative: "key_threshold [''keyring_snoop'', ''-1''] = Some (- 1)"
  by code_simp

text \<open>
  The stimulus against the detector, when the kernel hands the hook the type and the size of
  the call: with the default threshold the default size is flagged and 32 bytes are not, as the
  comment at the top of \<open>stage-key.c\<close> says.
\<close>

lemma stage_key_flagged:
  assumes "bpf_ringbuf ring" "bpf_probe kread mem"
    and type: "mem_bytes mem type (Suc (length (ascii ''user''))) = Some (ascii ''user'' @ [0])" "type \<noteq> 0"
    and room: "rb_reserve ring r = Some (r', slot)" "length (ke_type slot) = TYPE_LEN"
  shows "\<exists>e. rb_records ring (on_key_create ring kread t type desc (stage_size argv) r) = rb_records ring r @ [e] \<and>
    kl_flag (key_handle_event thr e) = (thr \<le> stage_size argv)"
proof -
  have nz: "0 \<notin> set (ascii ''user'')" by simp
  obtain e where "rb_records ring (on_key_create ring kread t type desc (stage_size argv) r) = rb_records ring r @ [e]"
    "ke_source e = 0" "ke_datalen e = stage_size argv" "c_str (ke_type e) = take 15 (ascii ''user'')"
    using key_create_event [OF assms(1,2) type(1) nz type(2) room] by blast
  then show ?thesis
    by (auto simp: key_handle_event_def is_stageable_type_def)
qed

lemma stage_key_sizes:
  "key_threshold [''keyring_snoop''] = Some 4096"
  "stage_size [''stage-key''] = 8192" "stage_size [''stage-key'', ''32''] = 32"
  by code_simp+

lemma stage_key_adds:
  "sg_buf env \<Longrightarrow> \<exists>acts. fst (stage_key argv env) =
     Add_key ''user'' ''_dntry'' (replicate (unat (stage_size argv)) 65) (- 3) # acts"
  by (simp add: stage_key_def Let_def)

end
