(* ===== verification/Open_Count.thy ===== *)
theory Open_Count
  imports Bpf_Maps Bpf_Helpers Loader
begin

text \<open>
  16-bpftool: \<open>count_open\<close> counts openat calls per user in a hash map. The program runs on
  several CPUs at once, so besides the program as one function there is a step relation in which
  the lookup and what follows it are separate steps, interleaved with those of other CPUs.

  The theorems show that the counter of a user is the number of its calls less the insertions
  that failed, for every interleaving, and that an insertion fails only when another CPU
  inserted the user's entry in between or the map is full. The second case is why the map's
  size matters; the first is a lost count, and on \<open>n\<close> CPUs fewer than \<open>n\<close> of them happen to a user.
\<close>

definition count_open :: "('m, u32, u64) map_ops \<Rightarrow> task_ctx \<Rightarrow> 'm \<Rightarrow> 'm" where
  "count_open ops t m =
     (let uid = cur_uid t in
      case map_lookup ops m uid of
        Some cnt \<Rightarrow> map_poke ops m uid (cnt + 1)
      | None \<Rightarrow> snd (map_update ops m uid 1 BPF_NOEXIST))"

section \<open>The loader\<close>

text \<open>
  Map and program are pinned so that other tools can address them; a failing pin is a warning.
  On the way out both are unpinned and the directory is removed. The results of \<open>mkdir\<close> and of
  the pins are 0 or the negated \<open>errno\<close>; the ids that are fetched are only printed, and waiting
  for a signal does nothing.
\<close>

record pin_env =
  pe_loaded :: bool
  pe_attach :: int
  pe_mkdir :: int
  pe_pin_map :: int
  pe_pin_prog :: int

definition opencount_main :: "pin_env \<Rightarrow> unit act list \<times> int" where
  "opencount_main env =
     (if \<not> pe_loaded env then ([Print_off, Open_load, Err ''Failed to open/load BPF skeleton''], 1)
      else
        let err = pe_attach env in
        if err \<noteq> 0 then ([Print_off, Open_load, Attach, Err ''Failed to attach'', Destroy], exit_code err)
        else
          ([Print_off, Open_load, Attach, Mkdir] @
             (if pe_mkdir env \<noteq> 0 \<and> pe_mkdir env \<noteq> - EEXIST then [Err ''warning: mkdir''] else []) @
             [Pin_map] @ (if pe_pin_map env \<noteq> 0 then [Err ''warning: pin map''] else []) @
             [Pin_prog] @ (if pe_pin_prog env \<noteq> 0 then [Err ''warning: pin prog''] else []) @
             [Signals, Say ''Loaded & pinned'', Say ''Detaching and unpinning...'', Unpin_map, Unpin_prog, Rmdir,
              Bye, Destroy],
           exit_code err))"

section \<open>The steps of a CPU\<close>

text \<open>Between calls, or after the lookup with a pointer (\<open>Found\<close>) or without (\<open>Missed\<close>).\<close>

datatype cpu = Idle | Found u32 | Missed u32

record 'm count_state =
  cs_map :: 'm
  cs_cpus :: "cpu list"

datatype count_label = Look nat u32 | Bump nat u32 | Insert nat u32 int

inductive count_step :: "('m, u32, u64) map_ops \<Rightarrow> 'm count_state \<Rightarrow> count_label \<Rightarrow> 'm count_state \<Rightarrow> bool"
  for ops where
  look: "i < length (cs_cpus s) \<Longrightarrow> cs_cpus s ! i = Idle \<Longrightarrow>
    count_step ops s (Look i u)
      (s\<lparr>cs_cpus := (cs_cpus s)[i := if map_lookup ops (cs_map s) u = None then Missed u else Found u]\<rparr>)"
| bump: "i < length (cs_cpus s) \<Longrightarrow> cs_cpus s ! i = Found u \<Longrightarrow> map_lookup ops (cs_map s) u = Some cnt \<Longrightarrow>
    count_step ops s (Bump i u)
      (s\<lparr>cs_map := map_poke ops (cs_map s) u (cnt + 1), cs_cpus := (cs_cpus s)[i := Idle]\<rparr>)"
| insert: "i < length (cs_cpus s) \<Longrightarrow> cs_cpus s ! i = Missed u \<Longrightarrow>
    map_update ops (cs_map s) u 1 BPF_NOEXIST = (ret, m') \<Longrightarrow>
    count_step ops s (Insert i u ret) (s\<lparr>cs_map := m', cs_cpus := (cs_cpus s)[i := Idle]\<rparr>)"

inductive count_trace ::
  "('m, u32, u64) map_ops \<Rightarrow> 'm count_state \<Rightarrow> count_label list \<Rightarrow> 'm count_state \<Rightarrow> bool"
  for ops s where
  nil: "count_trace ops s [] s"
| snoc: "count_trace ops s tr s1 \<Longrightarrow> count_step ops s1 l s2 \<Longrightarrow> count_trace ops s (tr @ [l]) s2"

text \<open>The calls a user has begun, the insertions it lost, and the calls still under way.\<close>

definition opens :: "count_label list \<Rightarrow> u32 \<Rightarrow> nat" where
  "opens tr u = length (filter (\<lambda>l. \<exists>i. l = Look i u) tr)"

definition lost :: "count_label list \<Rightarrow> u32 \<Rightarrow> nat" where
  "lost tr u = length (filter (\<lambda>l. \<exists>i ret. l = Insert i u ret \<and> ret \<noteq> 0) tr)"

definition under_way :: "cpu list \<Rightarrow> u32 \<Rightarrow> nat" where
  "under_way cpus u = length (filter (\<lambda>c. c = Found u \<or> c = Missed u) cpus)"

definition counter :: "('m, u32, u64) map_ops \<Rightarrow> 'm \<Rightarrow> u32 \<Rightarrow> u64" where
  "counter ops m u = (case map_lookup ops m u of None \<Rightarrow> 0 | Some n \<Rightarrow> n)"

lemma length_filter_update:
  "i < length xs \<Longrightarrow>
   length (filter P (xs[i := x])) + (if P (xs ! i) then 1 else 0) = length (filter P xs) + (if P x then 1 else 0)"
proof (induction xs arbitrary: i)
  case (Cons y xs)
  then show ?case by (cases i) auto
qed simp

lemma under_way_update:
  "i < length cpus \<Longrightarrow>
   under_way (cpus[i := c]) u + (if cpus ! i = Found u \<or> cpus ! i = Missed u then 1 else 0) =
   under_way cpus u + (if c = Found u \<or> c = Missed u then 1 else 0)"
  unfolding under_way_def by (rule length_filter_update)

lemma trace_counts_snoc [simp]:
  "opens (tr @ [Look i v]) u = opens tr u + (if v = u then 1 else 0)"
  "opens (tr @ [Bump i v]) u = opens tr u"
  "opens (tr @ [Insert i v ret]) u = opens tr u"
  "lost (tr @ [Look i v]) u = lost tr u"
  "lost (tr @ [Bump i v]) u = lost tr u"
  "lost (tr @ [Insert i v ret]) u = lost tr u + (if v = u \<and> ret \<noteq> 0 then 1 else 0)"
  by (simp_all add: opens_def lost_def)

locale count_map = bpf_hash ops for ops :: "('m, u32, u64) map_ops"
begin

text \<open>A found entry stays: no step deletes one.\<close>

lemma found_stays:
  "count_trace ops s tr s' \<Longrightarrow> (\<forall>u. Found u \<notin> set (cs_cpus s)) \<Longrightarrow> Found u \<in> set (cs_cpus s') \<Longrightarrow>
   map_lookup ops (cs_map s') u \<noteq> None"
proof (induction arbitrary: u rule: count_trace.induct)
  case (snoc tr s1 l s2)
  from snoc.hyps(2) snoc.IH snoc.prems show ?case
  proof (cases rule: count_step.cases)
    case (look i v)
    with snoc.IH [of u] snoc.prems show ?thesis
      by (auto dest!: set_update_subset_insert [THEN subsetD] split: if_splits)
  next
    case (bump i v cnt)
    with snoc.IH [of u] snoc.prems hash_poke [of "cs_map s1" v cnt "cnt + 1"] show ?thesis
      by (auto dest!: set_update_subset_insert [THEN subsetD])
  next
    case (insert i v ret m')
    with snoc.IH [of u] snoc.prems hash_update_cases [of "cs_map s1" v 1 BPF_NOEXIST] show ?thesis
      by (auto dest!: set_update_subset_insert [THEN subsetD] split: if_splits)
  qed
qed simp

lemma counter_step:
  assumes "count_step ops s l s'"
  shows "counter ops (cs_map s') u + of_nat (under_way (cs_cpus s') u) + of_nat (lost (tr @ [l]) u) +
      of_nat (opens tr u) =
    counter ops (cs_map s) u + of_nat (under_way (cs_cpus s) u) + of_nat (lost tr u) + of_nat (opens (tr @ [l]) u)"
  using assms
proof (cases rule: count_step.cases)
  case (look i v)
  then show ?thesis
    using under_way_update [of i "cs_cpus s" "if map_lookup ops (cs_map s) v = None then Missed v else Found v" u,
        THEN arg_cong [where f = "of_nat :: nat \<Rightarrow> u64"]]
    by (auto simp: algebra_simps split: if_splits)
next
  case (bump i v cnt)
  then show ?thesis
    using under_way_update [of i "cs_cpus s" Idle u, THEN arg_cong [where f = "of_nat :: nat \<Rightarrow> u64"]]
      hash_poke [of "cs_map s" v cnt "cnt + 1"]
    by (auto simp: counter_def algebra_simps split: if_splits)
next
  case (insert i v ret m')
  have "map_lookup ops (cs_map s) v = None" if "ret = 0"
    using hash_update_noexist [of "cs_map s" v _ 1] insert that by fastforce
  with insert show ?thesis
    using under_way_update [of i "cs_cpus s" Idle u, THEN arg_cong [where f = "of_nat :: nat \<Rightarrow> u64"]]
      hash_update_cases [of "cs_map s" v 1 BPF_NOEXIST]
    by (auto simp: counter_def algebra_simps split: if_splits option.splits)
qed

lemma counter_trace:
  "count_trace ops s tr s' \<Longrightarrow>
   counter ops (cs_map s') u + of_nat (under_way (cs_cpus s') u) + of_nat (lost tr u) =
   counter ops (cs_map s) u + of_nat (under_way (cs_cpus s) u) + of_nat (opens tr u)"
proof (induction rule: count_trace.induct)
  case nil
  show ?case by (simp add: lost_def opens_def)
next
  case (snoc tr s1 l s2)
  let ?lhs = "counter ops (cs_map s2) u + of_nat (under_way (cs_cpus s2) u) + of_nat (lost (tr @ [l]) u)"
  let ?rhs = "counter ops (cs_map s) u + of_nat (under_way (cs_cpus s) u) + of_nat (opens (tr @ [l]) u)"
  have "?lhs + of_nat (opens tr u) =
      (counter ops (cs_map s1) u + of_nat (under_way (cs_cpus s1) u) + of_nat (lost tr u)) + of_nat (opens (tr @ [l]) u)"
    using counter_step [OF snoc.hyps(2), of u tr] by simp
  also have "\<dots> = ?rhs + of_nat (opens tr u)"
    unfolding snoc.IH by (simp only: ac_simps)
  finally show ?case by (simp only: add_right_cancel)
qed

lemma lost_le_opens:
  "count_trace ops s tr s' \<Longrightarrow> lost tr u + under_way (cs_cpus s') u \<le> opens tr u + under_way (cs_cpus s) u"
proof (induction rule: count_trace.induct)
  case nil
  show ?case by (simp add: lost_def opens_def)
next
  case (snoc tr s1 l s2)
  from snoc.hyps(2) snoc.IH show ?case
  proof (cases rule: count_step.cases)
    case (look i v)
    with snoc.IH under_way_update [of i "cs_cpus s1" "if map_lookup ops (cs_map s1) v = None then Missed v else Found v" u]
    show ?thesis by (auto split: if_splits)
  next
    case (bump i v cnt)
    with snoc.IH under_way_update [of i "cs_cpus s1" Idle u] show ?thesis by (auto split: if_splits)
  next
    case (insert i v ret m')
    with snoc.IH under_way_update [of i "cs_cpus s1" Idle u] show ?thesis by (auto split: if_splits)
  qed
qed

text \<open>A call on one CPU with nothing in between is the program \<open>count_open\<close>.\<close>

lemma count_open_steps:
  assumes "i < length (cs_cpus s)" "cs_cpus s ! i = Idle"
  shows "\<exists>l. count_trace ops s [Look i (cur_uid t), l] (s\<lparr>cs_map := count_open ops t (cs_map s)\<rparr>)"
proof -
  let ?u = "cur_uid t"
  let ?s1 = "s\<lparr>cs_cpus := (cs_cpus s)[i := if map_lookup ops (cs_map s) ?u = None then Missed ?u else Found ?u]\<rparr>"
  have first: "count_trace ops s [Look i ?u] ?s1"
    using count_trace.snoc [OF count_trace.nil count_step.look [OF assms]] by simp
  have idle: "(cs_cpus s)[i := Idle] = cs_cpus s"
    using assms by (metis list_update_id)
  have "\<exists>l. count_step ops ?s1 l (s\<lparr>cs_map := count_open ops t (cs_map s)\<rparr>)"
  proof (cases "map_lookup ops (cs_map s) ?u")
    case None
    with assms count_step.insert [of i ?s1 ?u ops "fst (map_update ops (cs_map s) ?u 1 BPF_NOEXIST)"
        "snd (map_update ops (cs_map s) ?u 1 BPF_NOEXIST)"]
    show ?thesis by (auto simp: count_open_def idle)
  next
    case (Some n)
    with assms count_step.bump [of i ?s1 ?u ops n] show ?thesis by (auto simp: count_open_def idle)
  qed
  with count_trace.snoc [OF first] show ?thesis by fastforce
qed

end

interpretation count_model: count_map "hash_ops :: ((u32, u64) amap, u32, u64) map_ops"
  by (rule count_map.intro) (rule hash_model.bpf_hash_axioms)

text \<open>
  For every interleaving of the CPUs, once all of them are between calls, the counter of a
  user is the number of its openat calls, modulo \<open>2 ^ 64\<close>, less exactly its insertions that
  failed. In particular concurrent increments are never lost.
\<close>

theorem opencount_exact:
  assumes "bpf_hash ops" "map_lookup ops m u = None"
    and tr: "count_trace ops \<lparr>cs_map = m, cs_cpus = replicate n Idle\<rparr> tr s" and idle: "cs_cpus s = replicate n Idle"
  shows "counter ops (cs_map s) u = of_nat (opens tr u - lost tr u) \<and> lost tr u \<le> opens tr u"
proof -
  have none: "under_way (replicate n Idle) u = 0"
    by (simp add: under_way_def)
  have le: "lost tr u \<le> opens tr u"
    using count_map.lost_le_opens [OF count_map.intro [OF assms(1)] tr, of u] idle none by simp
  have "counter ops (cs_map s) u + of_nat (lost tr u) = of_nat (opens tr u)"
    using count_map.counter_trace [OF count_map.intro [OF assms(1)] tr, of u] idle none assms(2)
    by (simp add: counter_def)
  with le show ?thesis by (simp add: of_nat_diff eq_diff_eq)
qed

text \<open>
  Two CPUs that both look a new user up before either inserts: both calls are made, one insertion
  fails with \<open>-EEXIST\<close>, and the counter says one.
\<close>

definition race :: "count_label list" where
  "race = [Look 0 7, Look 1 7, Insert 0 7 0, Insert 1 7 (- 17)]"

lemma race_trace:
  "count_trace hash_ops \<lparr>cs_map = amap_empty 8, cs_cpus = replicate 2 Idle\<rparr> race
     \<lparr>cs_map = \<lparr>am_max = 8, am_entries = [(7, 1)]\<rparr>, cs_cpus = replicate 2 Idle\<rparr>"
proof -
  let ?m = "\<lparr>am_max = 8, am_entries = []\<rparr> :: (u32, u64) amap"
  let ?m1 = "\<lparr>am_max = 8, am_entries = [(7, 1)]\<rparr> :: (u32, u64) amap"
  let ?s = "\<lambda>m c0 c1. \<lparr>cs_map = m, cs_cpus = [c0, c1]\<rparr>"
  have "count_step hash_ops (?s ?m Idle Idle) (Look 0 7) (?s ?m (Missed 7) Idle)"
    "count_step hash_ops (?s ?m (Missed 7) Idle) (Look 1 7) (?s ?m (Missed 7) (Missed 7))"
    "count_step hash_ops (?s ?m (Missed 7) (Missed 7)) (Insert 0 7 0) (?s ?m1 Idle (Missed 7))"
    "count_step hash_ops (?s ?m1 Idle (Missed 7)) (Insert 1 7 (- 17)) (?s ?m1 Idle Idle)"
    by (auto simp: count_step.simps hash_ops_def amap_defs)
  from count_trace.snoc [OF count_trace.snoc [OF count_trace.snoc [OF count_trace.snoc [OF count_trace.nil
    this(1)] this(2)] this(3)] this(4)]
  show ?thesis by (simp add: race_def amap_defs numeral_2_eq_2)
qed

theorem opencount_exact_witness:
  "counter hash_ops \<lparr>am_max = 8, am_entries = [(7, 1)]\<rparr> (7 :: u32) = of_nat (opens race 7 - lost race 7) \<and>
   opens race 7 = 2 \<and> lost race 7 = 1"
proof -
  have "map_lookup hash_ops (amap_empty 8 :: (u32, u64) amap) 7 = None"
    by (simp add: hash_ops_def amap_defs)
  from opencount_exact [OF hash_model.bpf_hash_axioms this race_trace] show ?thesis
    by (simp add: race_def opens_def lost_def)
qed

section \<open>How many counts a race can cost\<close>

text \<open>The users that make calls during a trace, and the CPUs about to insert a user's entry.\<close>

definition users :: "count_label list \<Rightarrow> u32 set" where
  "users tr = (\<Union>l \<in> set tr. case l of Look i u \<Rightarrow> {u} | _ \<Rightarrow> {})"

definition missing :: "cpu list \<Rightarrow> u32 \<Rightarrow> nat" where
  "missing cpus u = length (filter (\<lambda>c. c = Missed u) cpus)"

lemma missing_update:
  "i < length cpus \<Longrightarrow>
   missing (cpus[i := c]) u + (if cpus ! i = Missed u then 1 else 0) = missing cpus u + (if c = Missed u then 1 else 0)"
  unfolding missing_def by (rule length_filter_update)

lemma missing_le: "missing cpus u \<le> length cpus"
  by (simp add: missing_def)

lemma finite_users [simp]: "finite (users tr)"
  by (auto simp: users_def split: count_label.split)

lemma users_snoc: "users (tr @ [l]) = users tr \<union> (case l of Look i u \<Rightarrow> {u} | _ \<Rightarrow> {})"
  by (auto simp: users_def)

locale count_bounded = bounded: bpf_bounded ops cap wf_map
  for ops :: "('m, u32, u64) map_ops" and cap wf_map

sublocale count_bounded \<subseteq> count_map ops ..

context count_bounded
begin

text \<open>All entries and all pending insertions are of users of \<open>K\<close>, for whom the map has room.\<close>

definition entries_in :: "u32 set \<Rightarrow> 'm count_state \<Rightarrow> bool" where
  "entries_in K s \<longleftrightarrow> wf_map (cs_map s) \<and> dom (map_lookup ops (cs_map s)) \<subseteq> K \<and>
     (\<forall>u. Missed u \<in> set (cs_cpus s) \<longrightarrow> u \<in> K)"

lemma entries_in_step:
  assumes "count_step ops s l s'" "entries_in K s" "\<And>i u. l = Look i u \<Longrightarrow> u \<in> K"
  shows "entries_in K s'"
  using assms(1)
proof (cases rule: count_step.cases)
  case (look i v)
  with assms(2,3) show ?thesis
    by (auto simp: entries_in_def dest!: set_update_subset_insert [THEN subsetD] split: if_splits)
next
  case (bump i v cnt)
  with assms(2) show ?thesis
    by (auto simp: entries_in_def bounded.hash_poke bounded.bounded_poke_wf
        dest!: set_update_subset_insert [THEN subsetD])
next
  case (insert i v ret m')
  then have m': "m' = snd (map_update ops (cs_map s) v 1 BPF_NOEXIST)" by simp
  have "v \<in> K" using insert assms(2) by (metis entries_in_def nth_mem)
  then have "dom (map_lookup ops m') \<subseteq> K"
    using assms(2) by (auto simp: entries_in_def m' bounded.hash_update_cases split: if_splits)
  with insert(2) assms(2) show ?thesis
    by (auto simp: entries_in_def m' bounded.bounded_update_wf dest!: set_update_subset_insert [THEN subsetD])
qed

text \<open>
  While a user has no entry, no insertion of it has failed. Once it has one, the failures so far
  and those to come are of CPUs that were past their lookup, all but the one that inserted.
\<close>

definition short :: "u32 \<Rightarrow> count_label list \<Rightarrow> 'm count_state \<Rightarrow> bool" where
  "short u tr s \<longleftrightarrow>
     (if map_lookup ops (cs_map s) u = None then lost tr u = 0
      else lost tr u + missing (cs_cpus s) u < length (cs_cpus s))"

lemma short_step:
  assumes "count_step ops s l s'" "short u tr s" "entries_in K s" "finite K" "card K \<le> cap"
  shows "short u (tr @ [l]) s'"
  using assms(1)
proof (cases rule: count_step.cases)
  case (look i v)
  with assms(2) missing_update [of i "cs_cpus s" "if map_lookup ops (cs_map s) v = None then Missed v else Found v" u]
  show ?thesis by (auto simp: short_def split: if_splits)
next
  case (bump i v cnt)
  with assms(2) missing_update [of i "cs_cpus s" Idle u] show ?thesis
    by (auto simp: short_def bounded.hash_poke split: if_splits)
next
  case (insert i v ret m')
  note upd = missing_update [OF insert(3), of Idle u]
  have m': "m' = snd (map_update ops (cs_map s) v 1 BPF_NOEXIST)" "ret = fst (map_update ops (cs_map s) v 1 BPF_NOEXIST)"
    using insert(5) by simp_all
  have K: "v \<in> K" using insert assms(3) by (metis entries_in_def nth_mem)
  show ?thesis
  proof (cases "map_lookup ops (cs_map s) v")
    case None
    then have "ret = 0"
      using bounded.bounded_fits [of "cs_map s" K v] assms(3-5) K by (simp add: entries_in_def m')
    then have "map_lookup ops m' = (map_lookup ops (cs_map s))(v \<mapsto> 1)"
      by (simp add: m' bounded.hash_update_cases)
    moreover have "missing ((cs_cpus s)[i := Idle]) u < length (cs_cpus s)" if "v = u"
      using that upd insert(4) missing_le [of "cs_cpus s" u] by simp
    ultimately show ?thesis
      using upd insert(4) assms(2) None \<open>ret = 0\<close> by (cases "v = u") (simp_all add: short_def insert(1,2))
  next
    case (Some w)
    then have "ret \<noteq> 0"
      using bounded.hash_update_noexist [of "cs_map s" v w 1] by (simp add: m')
    moreover from this have "map_lookup ops m' = map_lookup ops (cs_map s)"
      by (simp add: m' bounded.hash_update_cases)
    ultimately show ?thesis
      using upd insert(4) assms(2) Some by (cases "v = u") (simp_all add: short_def insert(1,2))
  qed
qed

lemma trace_short:
  assumes "count_trace ops s tr s'" "\<And>u. Missed u \<notin> set (cs_cpus s)" "wf_map (cs_map s)"
    and "\<And>u. map_lookup ops (cs_map s) u = None" and "finite K" "users tr \<subseteq> K" "card K \<le> cap"
  shows "entries_in K s' \<and> short u tr s' \<and> length (cs_cpus s') = length (cs_cpus s)"
  using assms(1,6)
proof (induction rule: count_trace.induct)
  case nil
  show ?case using assms(2-4) by (auto simp: entries_in_def short_def lost_def domIff)
next
  case (snoc tr s1 l s2)
  then have inv: "entries_in K s1" "short u tr s1" "length (cs_cpus s1) = length (cs_cpus s)"
    and call: "\<And>i v. l = Look i v \<Longrightarrow> v \<in> K"
    by (auto simp: users_snoc)
  moreover have "length (cs_cpus s2) = length (cs_cpus s1)"
    using snoc.hyps(2) by (cases rule: count_step.cases) auto
  ultimately show ?case
    using entries_in_step [OF snoc.hyps(2) inv(1) call] short_step [OF snoc.hyps(2) inv(2,1) assms(5,7)] by simp
qed

end

interpretation count_bounded_model: count_bounded "hash_ops :: ((u32, u64) amap, u32, u64) map_ops" n "amap_wf n"
  by (rule count_bounded.intro) (rule bounded_model.bpf_bounded_axioms)

text \<open>The map as the program declares it.\<close>

definition open_count_map :: "(u32, u64) amap" where
  "open_count_map = amap_empty 1024"

text \<open>
  C21. As long as no more users make calls than the map has entries for, what the race for a
  user's first entry costs is bounded by the machine: on \<open>n\<close> CPUs the counter of a user is short by
  at most \<open>n - 1\<close> calls, however many it makes, for every interleaving.
\<close>

theorem opencount_short_by_cpus:
  assumes maps: "bpf_bounded ops cap wf_map" "wf_map m" "\<And>u. map_lookup ops m u = None"
    and tr: "count_trace ops \<lparr>cs_map = m, cs_cpus = replicate n Idle\<rparr> tr s" "cs_cpus s = replicate n Idle"
    and room: "card (users tr) \<le> cap"
  shows "\<exists>k \<le> n - 1. k \<le> opens tr u \<and> counter ops (cs_map s) u = of_nat (opens tr u - k)"
proof -
  have h: "bpf_hash ops" using bpf_bounded.axioms(1) [OF maps(1)] .
  have none: "under_way (replicate n Idle) u = 0"
    by (simp add: under_way_def)
  have le: "lost tr u \<le> opens tr u"
    using count_map.lost_le_opens [OF count_map.intro [OF h] tr(1), of u] tr(2) none by simp
  have "counter ops (cs_map s) u + of_nat (lost tr u) = of_nat (opens tr u)"
    using count_map.counter_trace [OF count_map.intro [OF h] tr(1), of u] tr(2) none maps(3)
    by (simp add: counter_def)
  then have "counter ops (cs_map s) u = of_nat (opens tr u - lost tr u)"
    using le by (simp add: of_nat_diff eq_diff_eq)
  moreover have "lost tr u \<le> n - 1"
    using count_bounded.trace_short [OF count_bounded.intro [OF maps(1)] tr(1), of "users tr" u] maps room
    by (auto simp: count_bounded.short_def [OF count_bounded.intro [OF maps(1)]] split: if_splits)
  ultimately show ?thesis using le by blast
qed

theorem opencount_short_by_cpus_witness:
  "\<exists>k \<le> 1. k \<le> opens race 7 \<and>
     counter hash_ops \<lparr>am_max = 8, am_entries = [(7, 1)]\<rparr> (7 :: u32) = of_nat (opens race 7 - k)"
proof -
  have "map_lookup hash_ops (amap_empty 8 :: (u32, u64) amap) u = None" for u
    by (simp add: hash_ops_def)
  moreover have "card (users race) \<le> 8"
    by (simp add: users_def race_def)
  ultimately show ?thesis
    using opencount_short_by_cpus [OF bounded_model.bpf_bounded_axioms amap_wf_empty _ race_trace] by simp
qed

end
