(* ===== verification/Tail_Call.thy ===== *)
theory Tail_Call
  imports Bpf_Maps Bpf_Helpers Loader
begin

text \<open>
  19-tailcall: the dispatcher, the two handlers it jumps to, and the loader that wires the jump
  table. A tail call that finds a program in its slot replaces the caller, so what stands after
  it runs only when the slot is empty. The dispatcher is at the start of a chain, where the
  kernel's limit of 33 calls is out of reach.

  The theorem shows that once the loader has wired the table, every execve is counted in the
  slot of its privilege, and the slot for failed jumps stays zero.
\<close>

definition IDX_USER :: u32 where "IDX_USER = 0"

definition IDX_ROOT :: u32 where "IDX_ROOT = 1"

definition IDX_MISS :: u32 where "IDX_MISS = 2"

definition IDX_MAX :: nat where "IDX_MAX = 3"

lemmas idx_defs = IDX_USER_def IDX_ROOT_def IDX_MISS_def IDX_MAX_def

definition bump :: "('c, u32, u64) map_ops \<Rightarrow> u32 \<Rightarrow> 'c \<Rightarrow> 'c" where
  "bump ops idx counts =
     (case map_lookup ops counts idx of None \<Rightarrow> counts | Some c \<Rightarrow> map_poke ops counts idx (c + 1))"

datatype prog = Prog_user | Prog_root

definition handle_user :: "('c, u32, u64) map_ops \<Rightarrow> 'c \<Rightarrow> 'c" where
  "handle_user ops counts = bump ops IDX_USER counts"

definition handle_root :: "('c, u32, u64) map_ops \<Rightarrow> 'c \<Rightarrow> 'c" where
  "handle_root ops counts = bump ops IDX_ROOT counts"

definition run_prog :: "('c, u32, u64) map_ops \<Rightarrow> prog \<Rightarrow> 'c \<Rightarrow> 'c" where
  "run_prog ops p = (case p of Prog_user \<Rightarrow> handle_user ops | Prog_root \<Rightarrow> handle_root ops)"

definition dispatch ::
  "('j, u32, prog) map_ops \<Rightarrow> ('c, u32, u64) map_ops \<Rightarrow> 'j \<Rightarrow> task_ctx \<Rightarrow> 'c \<Rightarrow> 'c" where
  "dispatch jops ops jmp_table t counts =
     (let uid = cur_uid t;
          idx = (if uid = 0 then IDX_ROOT else IDX_USER)
      in case map_lookup jops jmp_table idx of
           Some p \<Rightarrow> run_prog ops p counts
         | None \<Rightarrow> bump ops IDX_MISS counts)"

section \<open>The loader\<close>

text \<open>Wiring the table; the result is the message for the update that failed, if one did.\<close>

definition wire :: "('j, u32, prog) map_ops \<Rightarrow> 'j \<Rightarrow> string option \<times> 'j" where
  "wire jops jt =
     (case map_update jops jt IDX_USER Prog_user BPF_ANY of
        (r, jt) \<Rightarrow>
          if r \<noteq> 0 then (Some ''set user slot'', jt)
          else
            (case map_update jops jt IDX_ROOT Prog_root BPF_ANY of
               (r, jt) \<Rightarrow> (if r \<noteq> 0 then Some ''set root slot'' else None, jt)))"

definition tally :: "('c, u32, u64) map_ops \<Rightarrow> 'c \<Rightarrow> u64 \<times> u64 \<times> u64" where
  "tally ops counts =
     (let get = (\<lambda>k. case map_lookup ops counts k of None \<Rightarrow> 0 | Some v \<Rightarrow> v)
      in (get IDX_USER, get IDX_ROOT, get IDX_MISS))"

text \<open>\<open>link\<close> is 0 or the negated \<open>errno\<close> of attaching; \<open>snaps\<close> are the counts the reports read.\<close>

definition tailcall_main ::
  "bool \<Rightarrow> ('j, u32, prog) map_ops \<Rightarrow> 'j \<Rightarrow> int \<Rightarrow> ('c, u32, u64) map_ops \<Rightarrow> 'c list \<Rightarrow>
   (u64 \<times> u64 \<times> u64) act list \<times> int" where
  "tailcall_main loaded jops jt link ops snaps =
     (if \<not> loaded then ([Print_off, Open_load, Err ''Failed to open/load BPF skeleton''], 1)
      else
        (case wire jops jt of
           (Some msg, jt) \<Rightarrow> ([Print_off, Open_load, Err msg, Destroy], 1)
         | (None, jt) \<Rightarrow>
             if link \<noteq> 0 then ([Print_off, Open_load, Attach, Err ''attach dispatch'', Destroy], 1)
             else ([Print_off, Open_load, Attach, Signals, Say ''Dispatching execve() by tail call''] @
                     map (\<lambda>c. Line (tally ops c)) snaps @ [Bye, Link_destroy, Destroy], 0)))"

section \<open>Every call is counted once\<close>

definition execs :: "(task_ctx \<Rightarrow> bool) \<Rightarrow> task_ctx list \<Rightarrow> u64" where
  "execs P ts = of_nat (length (filter P ts))"

locale dispatcher = bpf_array ops 3 for ops :: "('c, u32, u64) map_ops" +
  fixes jops :: "('j, u32, prog) map_ops" and jt :: 'j
  assumes wired_user: "map_lookup jops jt IDX_USER = Some Prog_user"
    and wired_root: "map_lookup jops jt IDX_ROOT = Some Prog_root"
begin

lemma bump_lookup:
  "unat idx < 3 \<Longrightarrow> map_lookup ops (bump ops idx c) k =
     (if k = idx then map_option (\<lambda>v. v + 1) (map_lookup ops c k) else map_lookup ops c k)"
  using array_present [of idx c] array_poke [of c idx]
  by (auto simp: bump_def split: option.splits)

lemma dispatch_wired: "dispatch jops ops jt t c = bump ops (if cur_uid t = 0 then IDX_ROOT else IDX_USER) c"
  by (simp add: dispatch_def wired_user wired_root run_prog_def handle_user_def handle_root_def)

lemma tally_dispatch:
  "tally ops (dispatch jops ops jt t c) =
     (case tally ops c of (u, r, m) \<Rightarrow> if cur_uid t = 0 then (u, r + 1, m) else (u + 1, r, m))"
  using array_present [of 0 c] array_present [of 1 c]
  by (auto simp: dispatch_wired tally_def Let_def bump_lookup idx_defs split: option.splits)

lemma tally_run:
  "tally ops (foldl (\<lambda>c t. dispatch jops ops jt t c) c ts) =
     (case tally ops c of (u, r, m) \<Rightarrow>
        (u + execs (\<lambda>t. cur_uid t \<noteq> 0) ts, r + execs (\<lambda>t. cur_uid t = 0) ts, m))"
proof (induction ts rule: rev_induct)
  case Nil
  then show ?case by (simp add: execs_def split: prod.splits)
next
  case (snoc t ts)
  then show ?case
    by (cases "tally ops c") (simp add: tally_dispatch execs_def algebra_simps)
qed

end

lemma wire_dispatcher:
  assumes "bpf_hash jops" "bpf_array ops 3" "wire jops jt0 = (None, jt)"
  shows "dispatcher ops jops jt"
proof -
  obtain jt1 where u: "map_update jops jt0 IDX_USER Prog_user BPF_ANY = (0, jt1)"
    "map_update jops jt1 IDX_ROOT Prog_root BPF_ANY = (0, jt)"
    using assms(3) by (auto simp: wire_def split: prod.splits if_splits)
  from bpf_hash.hash_update [OF assms(1) u(1)] bpf_hash.hash_update [OF assms(1) u(2)] assms(2)
  show ?thesis
    by (auto simp: dispatcher_def dispatcher_axioms_def idx_defs)
qed

definition wired_table :: "(u32, prog) amap" where
  "wired_table = \<lparr>am_max = 2, am_entries = [(1, Prog_root), (0, Prog_user)]\<rparr>"

lemma wire_model: "wire hash_ops (amap_empty 2) = (None, wired_table)"
  by (simp add: wire_def wired_table_def hash_ops_def amap_defs idx_defs)

interpretation dispatch_model: dispatcher "array_ops 3 :: (u32 \<Rightarrow> u64, u32, u64) map_ops" hash_ops wired_table
  by (rule wire_dispatcher [OF hash_model.bpf_hash_axioms array_model.bpf_array_axioms wire_model])

text \<open>
  C34. Once the loader has wired both slots of the jump table, after any sequence of execve
  calls the three numbers it prints have grown by the calls of users, the calls of root, and
  nothing: every call is counted once, in the slot of its privilege, and no jump falls through.
\<close>

theorem tailcall_counts:
  assumes "bpf_hash jops" "bpf_array ops 3" "wire jops jt0 = (None, jt)" "tally ops c = (u, r, m)"
  shows "tally ops (foldl (\<lambda>c t. dispatch jops ops jt t c) c ts) =
    (u + execs (\<lambda>t. cur_uid t \<noteq> 0) ts, r + execs (\<lambda>t. cur_uid t = 0) ts, m)"
  using dispatcher.tally_run [OF wire_dispatcher [OF assms(1-3)], of c ts] assms(4) by simp

theorem tailcall_counts_witness:
  "tally (array_ops 3) (foldl (\<lambda>c t. dispatch hash_ops (array_ops 3) wired_table t c) (\<lambda>_. 0)
     [mk_task 7 1000 [] 1, mk_task 8 0 [] 2, mk_task 9 1000 [] 3]) = (2, 1, 0)"
proof -
  have z: "tally (array_ops 3) (\<lambda>_. 0) = (0, 0, 0)"
    by (simp add: tally_def array_ops_def arr_lookup_def idx_defs)
  show ?thesis
    using tailcall_counts [OF hash_model.bpf_hash_axioms array_model.bpf_array_axioms wire_model z,
      of "[mk_task 7 1000 [] 1, mk_task 8 0 [] 2, mk_task 9 1000 [] 3]"]
    by (simp add: execs_def)
qed

end
