(* ===== verification/Iterator.thy ===== *)
theory Iterator
  imports Loader
begin

text \<open>
  22-iterator: the program the kernel calls once per task, and the loader that reads the text it
  prints. The kernel's walk over the tasks is \<open>iter_walk\<close>: one call per task with a running
  number from 0, and a last call without a task.
\<close>

record task_struct =
  ts_tgid :: int
  ts_pid :: int
  ts_comm :: bytes

datatype seq_line = Head | Row int int bytes

definition dump_task :: "nat \<Rightarrow> task_struct option \<Rightarrow> seq_line list \<Rightarrow> seq_line list" where
  "dump_task seq_num task seq =
     (case task of
        None \<Rightarrow> seq
      | Some t \<Rightarrow>
          let seq = (if seq_num = 0 then seq @ [Head] else seq)
          in seq @ [Row (ts_tgid t) (ts_pid t) (c_str (ts_comm t))])"

fun iter_walk :: "nat \<Rightarrow> task_struct list \<Rightarrow> seq_line list \<Rightarrow> seq_line list" where
  "iter_walk n [] seq = dump_task n None seq"
| "iter_walk n (t # ts) seq = iter_walk (Suc n) ts (dump_task n (Some t) seq)"

text \<open>
  The loader: \<open>reads\<close> are the answers of \<open>read\<close>, each the bytes it delivers or the negated
  \<open>errno\<close>; no bytes end the file.
\<close>

fun copy_out :: "(int + 'c list) list \<Rightarrow> 'c list act list \<times> int" where
  "copy_out [] = ([], 0)"
| "copy_out (Inl e # rs) = ([Err ''read(iterator)''], e)"
| "copy_out (Inr bs # rs) =
     (if bs = [] then ([], 0) else let (tr, err) = copy_out rs in (Line bs # tr, err))"

definition taskdump_main :: "bool \<Rightarrow> int \<Rightarrow> int \<Rightarrow> (int + 'c list) list \<Rightarrow> 'c list act list \<times> int" where
  "taskdump_main loaded link iter_fd reads =
     (if \<not> loaded then ([Print_off, Open_load, Err ''Failed to open/load BPF skeleton''], 1)
      else if link \<noteq> 0 then ([Print_off, Open_load, Attach, Err ''Failed to attach iterator'', Destroy], 1)
      else if iter_fd < 0
      then ([Print_off, Open_load, Attach, Iter_create, Err ''Failed to create iterator fd'', Link_destroy, Destroy], 1)
      else
        let (tr, err) = copy_out reads
        in ([Print_off, Open_load, Attach, Iter_create] @ tr @ [Iter_close, Link_destroy, Destroy], if err \<noteq> 0 then 1 else 0))"

text \<open>A walk prints one header, if there is any task, and one row per task in order.\<close>

lemma iter_walk_later:
  "iter_walk (Suc n) ts seq = seq @ map (\<lambda>t. Row (ts_tgid t) (ts_pid t) (c_str (ts_comm t))) ts"
  by (induction ts arbitrary: n seq) (auto simp: dump_task_def)

lemma iter_walk_snapshot:
  "iter_walk 0 ts [] =
     (if ts = [] then [] else Head # map (\<lambda>t. Row (ts_tgid t) (ts_pid t) (c_str (ts_comm t))) ts)"
  by (cases ts) (auto simp: dump_task_def iter_walk_later)

text \<open>However \<open>read\<close> cuts the text, the loader prints all of it.\<close>

lemma copy_out_all:
  "(\<And>r. r \<in> set rs \<Longrightarrow> \<exists>bs. r = Inr bs \<and> bs \<noteq> []) \<Longrightarrow>
   concat (lines_of (fst (copy_out (rs @ [Inr []])))) = concat (map projr rs) \<and> snd (copy_out (rs @ [Inr []])) = 0"
proof (induction rs)
  case (Cons r rs)
  from Cons.prems [of r] obtain bs where "r = Inr bs" "bs \<noteq> []" by auto
  with Cons.IH Cons.prems show ?case by (simp add: split_beta)
qed simp

end
