(* ===== verification/Verifier.thy ===== *)
theory Verifier
  imports Bpf_Maps
begin

text \<open>
  14-verifier: the six programs of \<open>verifier.bpf.c\<close>, each bad one paired with its correction,
  and the loader \<open>verifier.c\<close>, which loads them one at a time and prints the tail of the
  verifier's log.

  A program's result is a value or the fault that the kernel's verifier exists to rule out; the
  unbounded loop faults when its counter overflows. The lemmas show that the corrected programs
  have no fault on any input and when the bad ones do, and the theorem that the circular buffer of \<open>print_log_tail\<close> prints the last \<open>n\<close> non-blank lines of the log.
\<close>

section \<open>The specimens\<close>

datatype fault = Null_deref | Out_of_bounds | Int_overflow

definition bad_null_deref :: "('m, u32, u64) map_ops \<Rightarrow> 'm \<Rightarrow> fault + 'm \<times> int" where
  "bad_null_deref ops m =
     (case map_lookup ops m 0 of
        None \<Rightarrow> Inl Null_deref
      | Some v \<Rightarrow> Inr (map_poke ops m 0 (v + 1), 0))"

definition good_null_deref :: "('m, u32, u64) map_ops \<Rightarrow> 'm \<Rightarrow> fault + 'm \<times> int" where
  "good_null_deref ops m =
     (case map_lookup ops m 0 of
        None \<Rightarrow> Inr (m, 0)
      | Some v \<Rightarrow> Inr (map_poke ops m 0 (v + 1), 0))"

text \<open>
  The random numbers a program draws are a stream; \<open>i\<close> counts the draws. \<open>cnt\<close> is a C
  \<open>int\<close>: the increment of \<open>2^31 - 1\<close> is undefined, a fault here, so a run on odd numbers
  only ends there and the recursion has a measure.
\<close>

function unbounded :: "(nat \<Rightarrow> u32) \<Rightarrow> nat \<Rightarrow> int \<Rightarrow> fault + int" where
  "unbounded rnd i cnt =
     (if and (rnd i) 1 \<noteq> 0
      then if cnt < 2147483647 then unbounded rnd (Suc i) (cnt + 1) else Inl Int_overflow
      else Inr cnt)"
  by auto
termination by (relation "measure (\<lambda>(rnd, i, cnt). nat (2147483647 - cnt))") auto

declare unbounded.simps [simp del]

definition bad_unbounded_loop :: "(nat \<Rightarrow> u32) \<Rightarrow> fault + int" where
  "bad_unbounded_loop rnd = unbounded rnd 0 0"

definition good_bounded_loop :: int where
  "good_bounded_loop = foldl (\<lambda>cnt i. cnt + i) 0 [0..63]"

text \<open>An indexed store into a 16-byte buffer on the stack, and the read of its first byte.\<close>

definition store_at :: "u32 \<Rightarrow> fault + u8" where
  "store_at i = (if unat i < 16 then Inr ((replicate 16 0)[unat i := 1] ! 0) else Inl Out_of_bounds)"

definition bad_oob_index :: "u32 \<Rightarrow> fault + u8" where
  "bad_oob_index r = store_at r"

definition good_oob_index :: "u32 \<Rightarrow> fault + u8" where
  "good_oob_index r = store_at (and r 0xf)"

section \<open>The loader\<close>

record lesson =
  l_title :: string
  l_bad :: string
  l_good :: string
  l_fix :: string

definition lessons :: "lesson list" where
  "lessons =
     [\<lparr>l_title = ''Unchecked map lookup (possible NULL dereference)'', l_bad = ''bad_null_deref'',
       l_good = ''good_null_deref'',
       l_fix = ''bpf_map_lookup_elem may return NULL; test it before dereferencing.''\<rparr>,
      \<lparr>l_title = ''Unbounded loop (termination not provable)'', l_bad = ''bad_unbounded_loop'',
       l_good = ''good_bounded_loop'',
       l_fix = ''Bound the loop with a compile-time constant (or use bpf_loop()).''\<rparr>,
      \<lparr>l_title = ''Out-of-bounds access (unbounded array index)'', l_bad = ''bad_oob_index'',
       l_good = ''good_oob_index'',
       l_fix = ''Constrain the index to the buffer size (mask with a constant).''\<rparr>]"

definition newline :: char where "newline = CHR 0x0A"

text \<open>
  The scan of the log: \<open>p\<close> is the position, \<open>line\<close> the start of the current line, and the pair
  the circular buffer of line starts with the number of lines stored so far. The NUL that ends
  the log ends its last line.
\<close>

definition keep_line :: "nat \<Rightarrow> nat \<Rightarrow> nat \<Rightarrow> nat list \<times> nat \<Rightarrow> nat list \<times> nat" where
  "keep_line n p line rc =
     (case rc of (ring, count) \<Rightarrow>
        if line < p then (ring[count mod n := line], count + 1) else (ring, count))"

fun tail_scan :: "nat \<Rightarrow> string \<Rightarrow> nat \<Rightarrow> nat \<Rightarrow> nat list \<times> nat \<Rightarrow> nat list \<times> nat" where
  "tail_scan n [] p line rc = keep_line n p line rc"
| "tail_scan n (c # cs) p line rc =
     (if c = newline then tail_scan n cs (p + 1) (p + 1) (keep_line n p line rc)
      else tail_scan n cs (p + 1) line rc)"

definition line_at :: "string \<Rightarrow> nat \<Rightarrow> string" where
  "line_at lg s = takeWhile (\<lambda>c. c \<noteq> newline) (drop s lg)"

text \<open>\<open>ring\<close> is the array before the call: it is not initialised.\<close>

definition print_log_tail :: "nat list \<Rightarrow> string \<Rightarrow> int \<Rightarrow> string list" where
  "print_log_tail ring lg n =
     (if lg = '''' then [''(no verifier log captured)'']
      else
        let n = nat (if n < 1 then 1 else if 64 < n then 64 else n);
            (ring, count) = tail_scan n lg 0 0 (ring, 0);
            shown = (if count < n then count else n);
            start = (if count < n then 0 else count mod n)
        in map (\<lambda>i. line_at lg (ring ! ((start + i) mod n))) [0..<shown])"

text \<open>
  \<open>load_only\<close>: the object's programs, of which only the named one is loaded. \<open>open_obj\<close> and
  \<open>load\<close> are libbpf's: the result of opening, and the result and log of loading the programs
  that are marked.
\<close>

definition load_only ::
  "(int + string list) \<Rightarrow> ((string \<times> bool) list \<Rightarrow> int \<times> string) \<Rightarrow> string \<Rightarrow> bool \<Rightarrow> string \<Rightarrow> int \<times> string" where
  "load_only open_obj load only want_log logbuf =
     (let logbuf = (if want_log then '''' else logbuf) in
      case open_obj of
        Inl errno \<Rightarrow> (- errno, logbuf)
      | Inr progs \<Rightarrow>
          (case load (map (\<lambda>p. (p, p = only)) progs) of
             (err, lg) \<Rightarrow> (err, if want_log then lg else logbuf)))"

datatype load_verdict = Rejected int "string list" | Unexpectedly_loaded

definition lesson_run ::
  "nat list \<Rightarrow> (int + string list) \<Rightarrow> ((string \<times> bool) list \<Rightarrow> int \<times> string) \<Rightarrow> lesson \<Rightarrow> string \<Rightarrow>
   (string \<times> load_verdict \<times> string \<times> bool) \<times> string" where
  "lesson_run ring open_obj load l logbuf =
     (let (err, logbuf) = load_only open_obj load (l_bad l) True logbuf;
          v = (if err \<noteq> 0 then Rejected err (print_log_tail ring logbuf 12) else Unexpectedly_loaded);
          (err2, logbuf) = load_only open_obj load (l_good l) False logbuf
      in ((l_title l, v, l_fix l, err2 = 0), logbuf))"

fun verifier_main ::
  "nat list \<Rightarrow> (int + string list) \<Rightarrow> ((string \<times> bool) list \<Rightarrow> int \<times> string) \<Rightarrow> lesson list \<Rightarrow> string \<Rightarrow>
   (string \<times> load_verdict \<times> string \<times> bool) list" where
  "verifier_main ring open_obj load [] logbuf = []"
| "verifier_main ring open_obj load (l # ls) logbuf =
     (let (out, logbuf) = lesson_run ring open_obj load l logbuf
      in out # verifier_main ring open_obj load ls logbuf)"

section \<open>The circular buffer\<close>

fun split_lines :: "string \<Rightarrow> string \<Rightarrow> string list" where
  "split_lines cur [] = [cur]"
| "split_lines cur (c # cs) =
     (if c = newline then cur # split_lines '''' cs else split_lines (cur @ [c]) cs)"

text \<open>The non-blank lines of a log.\<close>

definition log_lines :: "string \<Rightarrow> string list" where
  "log_lines lg = filter (\<lambda>l. l \<noteq> '''') (split_lines '''' lg)"

fun starts :: "string \<Rightarrow> nat \<Rightarrow> nat \<Rightarrow> nat list" where
  "starts [] p line = (if line < p then [line] else [])"
| "starts (c # cs) p line =
     (if c = newline then (if line < p then [line] else []) @ starts cs (p + 1) (p + 1)
      else starts cs (p + 1) line)"

definition push :: "nat \<Rightarrow> 'a list \<times> nat \<Rightarrow> 'a \<Rightarrow> 'a list \<times> nat" where
  "push n rc x = (case rc of (ring, count) \<Rightarrow> (ring[count mod n := x], count + 1))"

lemma push_pair [simp]: "push n (ring, count) x = (ring[count mod n := x], Suc count)"
  by (simp add: push_def)

lemma scan_pushes: "tail_scan n cs p line rc = foldl (push n) rc (starts cs p line)"
  by (induction cs arbitrary: p line rc) (auto simp: keep_line_def push_def split: prod.splits)

lemma push_ring:
  assumes "0 < n" "n \<le> length ring"
  shows "\<exists>r. foldl (push n) (ring, 0) xs = (r, length xs) \<and> length r = length ring \<and>
    (\<forall>j < length xs. length xs \<le> j + n \<longrightarrow> r ! (j mod n) = xs ! j)"
proof (induction xs rule: rev_induct)
  case (snoc x xs)
  then obtain r where r: "foldl (push n) (ring, 0) xs = (r, length xs)" "length r = length ring"
    "\<And>j. j < length xs \<Longrightarrow> length xs \<le> j + n \<Longrightarrow> r ! (j mod n) = xs ! j"
    by blast
  let ?r = "r[length xs mod n := x]"
  have in_range: "length xs mod n < length r"
    using mod_less_divisor [OF assms(1), of "length xs"] assms(2) r(2) by linarith
  have "?r ! (j mod n) = (xs @ [x]) ! j" if "j < Suc (length xs)" "Suc (length xs) \<le> j + n" for j
  proof (cases "j = length xs")
    case True
    with in_range show ?thesis by simp
  next
    case False
    have "j mod n \<noteq> length xs mod n"
    proof
      assume "j mod n = length xs mod n"
      then have "n dvd length xs - j"
        using that(1) by (metis less_Suc_eq_le mod_eq_dvd_iff_nat)
      with that False show False by (auto dest: dvd_imp_le)
    qed
    with False that r(3) [of j] show ?thesis by (simp add: nth_append)
  qed
  with r show ?case by simp
qed simp

lemma starts_lines:
  assumes "lg = pre @ cs" "line \<le> length pre" "newline \<notin> set (drop line pre)"
  shows "map (line_at lg) (starts cs (length pre) line) = filter (\<lambda>l. l \<noteq> '''') (split_lines (drop line pre) cs)"
  using assms
proof (induction cs arbitrary: pre line)
  case Nil
  then have "takeWhile (\<lambda>c. c \<noteq> newline) (drop line pre) = drop line pre"
    by (auto simp: takeWhile_eq_all_conv)
  with Nil show ?case by (auto simp: line_at_def)
next
  case (Cons c cs)
  show ?case
  proof (cases "c = newline")
    case True
    have "line_at lg line = drop line pre"
      using Cons.prems True by (auto simp: line_at_def takeWhile_append2 takeWhile_tail takeWhile_eq_all_conv)
    with True Cons.IH [of "pre @ [c]" "Suc (length pre)"] Cons.prems show ?thesis
      by (auto simp: simp del: split_lines.simps(1))
  next
    case False
    with Cons.IH [of "pre @ [c]" line] Cons.prems show ?thesis by simp
  qed
qed

text \<open>
  C28. Whatever the size of the log and whatever was in the array, \<open>print_log_tail\<close> prints
  the last \<open>n\<close> non-blank lines of the log, in order, for \<open>n\<close> clamped to 1..64, and all of them
  when there are fewer; for an empty log it says so.
\<close>

theorem log_tail_correct:
  assumes "length ring = 64"
  shows "print_log_tail ring lg n =
    (if lg = '''' then [''(no verifier log captured)'']
     else drop (length (log_lines lg) - nat (max 1 (min 64 n))) (log_lines lg))"
proof -
  define k where "k = nat (max 1 (min 64 n))"
  have k: "nat (if n < 1 then 1 else if 64 < n then 64 else n) = k" "0 < k" "k \<le> 64"
    by (auto simp: k_def)
  define xs where "xs = starts lg 0 0"
  have lines: "log_lines lg = map (line_at lg) xs"
    using starts_lines [of lg "[]" lg 0] by (simp add: log_lines_def xs_def)
  obtain r where r: "tail_scan k lg 0 0 (ring, 0) = (r, length xs)"
    "\<And>j. j < length xs \<Longrightarrow> length xs \<le> j + k \<Longrightarrow> r ! (j mod k) = xs ! j"
    using push_ring [of k ring xs] k(2,3) assms by (auto simp: scan_pushes xs_def)
  have "map (\<lambda>i. line_at lg (r ! (((if length xs < k then 0 else length xs mod k) + i) mod k)))
      [0..<if length xs < k then length xs else k] = drop (length xs - k) (map (line_at lg) xs)"
  proof (rule nth_equalityI)
    fix i assume "i < length (map (\<lambda>i. line_at lg (r ! (((if length xs < k then 0 else length xs mod k) + i) mod k)))
      [0..<if length xs < k then length xs else k])"
    then have i: "i < (if length xs < k then length xs else k)" by simp
    have "((if length xs < k then 0 else length xs mod k) + i) mod k = (length xs - k + i) mod k"
    proof (cases "length xs < k")
      case False
      then obtain d where "length xs = d + k" by (metis add.commute le_Suc_ex not_less)
      then show ?thesis by (simp add: mod_simps)
    qed simp
    moreover have "r ! ((length xs - k + i) mod k) = xs ! (length xs - k + i)"
      using r(2) [of "length xs - k + i"] i by (auto split: if_splits)
    ultimately show "map (\<lambda>i. line_at lg (r ! (((if length xs < k then 0 else length xs mod k) + i) mod k)))
      [0..<if length xs < k then length xs else k] ! i = drop (length xs - k) (map (line_at lg) xs) ! i"
      using i by (auto split: if_splits)
  qed auto
  then show ?thesis
    by (simp add: print_log_tail_def k(1) r(1) lines k_def [symmetric])
qed

definition demo_log :: string where
  "demo_log = ''a'' @ [newline, newline] @ ''bc'' @ [newline] @ ''d''"

theorem log_tail_correct_witness:
  "print_log_tail (replicate 64 9) demo_log 2 = [''bc'', ''d'']"
  by (subst log_tail_correct) (simp_all add: demo_log_def log_lines_def newline_def)

section \<open>The lessons\<close>

lemma unbounded_returns:
  "(\<And>j. j < k \<Longrightarrow> and (rnd (i + j)) 1 \<noteq> 0) \<Longrightarrow> and (rnd (i + k)) 1 = 0 \<Longrightarrow>
   cnt + int k < 2 ^ 31 \<Longrightarrow> unbounded rnd i cnt = Inr (cnt + int k)"
proof (induction k arbitrary: i cnt)
  case 0
  then show ?case by (subst unbounded.simps) simp
next
  case (Suc k)
  have "and (rnd (Suc i + j)) 1 \<noteq> 0" if "j < k" for j
    using Suc.prems(1) [of "Suc j"] that by simp
  with Suc.IH [of "Suc i" "cnt + 1"] Suc.prems(1) [of 0] Suc.prems(2,3) show ?case
    by (subst unbounded.simps) simp
qed

lemma unbounded_overflows:
  "(\<And>j. int j < 2 ^ 31 - cnt \<Longrightarrow> and (rnd (i + j)) 1 \<noteq> 0) \<Longrightarrow> cnt < 2 ^ 31 \<Longrightarrow>
   unbounded rnd i cnt = Inl Int_overflow"
proof (induction rnd i cnt rule: unbounded.induct)
  case (1 rnd i cnt)
  have odd: "and (rnd i) 1 \<noteq> 0"
    using "1.prems"(1) [of 0] "1.prems"(2) by simp
  have "and (rnd (Suc i + j)) 1 \<noteq> 0" if "int j < 2 ^ 31 - (cnt + 1)" for j
    using "1.prems"(1) [of "Suc j"] that by simp
  with "1.IH" odd "1.prems"(2) show ?case
    by (subst unbounded.simps) simp
qed

lemma masked_index: "unat (and r 0xf :: u32) < 16"
proof -
  have "and r 0xf = take_bit 4 r"
    by (simp add: take_bit_eq_mask mask_numeral)
  then have "unat (and r 0xf :: u32) = take_bit 4 (unat r)"
    by (simp add: unsigned_take_bit_eq)
  then show ?thesis
    using take_bit_nat_less_exp [of 4 "unat r"] by simp
qed

text \<open>
  The three lessons. The checked lookup never faults; the unchecked one does when the key is
  absent. The loop on random numbers returns the number of odd draws before the first even one,
  and overflows its counter if the first \<open>2^31\<close> are odd. The masked index never leaves the
  buffer; the raw one does for every number from 16 on.
\<close>

lemma null_deref_lesson:
  "good_null_deref ops m \<noteq> Inl f"
  "bad_null_deref ops m = Inl Null_deref \<longleftrightarrow> map_lookup ops m 0 = None"
  by (auto simp: good_null_deref_def bad_null_deref_def split: option.splits)

lemma unbounded_loop_lesson:
  "(\<And>j. j < k \<Longrightarrow> and (rnd j) 1 \<noteq> 0) \<Longrightarrow> and (rnd k) 1 = 0 \<Longrightarrow> k < 2 ^ 31 \<Longrightarrow>
   bad_unbounded_loop rnd = Inr (int k)"
  "(\<And>j. j < 2 ^ 31 \<Longrightarrow> and (rnd j) 1 \<noteq> 0) \<Longrightarrow> bad_unbounded_loop rnd = Inl Int_overflow"
  using unbounded_returns [of k rnd 0 0] unbounded_overflows [of 0 rnd 0]
  by (simp_all add: bad_unbounded_loop_def)

lemma oob_index_lesson:
  "good_oob_index r \<noteq> Inl f"
  "bad_oob_index r = Inl Out_of_bounds \<longleftrightarrow> 16 \<le> unat r"
  using masked_index [of r] by (auto simp: good_oob_index_def bad_oob_index_def store_at_def)

end
