(* ===== verification/Fileless.thy ===== *)
theory Fileless
  imports Bpf_Prelude
begin

text \<open>
  25-fileless-lab: the four programs that copy a payload into a file without a name and execute
  it, and the script variant. \<open>read\<close> and \<open>write\<close> are functions of the number of calls so far and
  of the bytes that are left, so that short reads and writes and errors at any point can be
  told apart; a result is the number of bytes or a negative number. The copy loop is a partial
  function: a \<open>write\<close> that keeps returning 0 makes it run forever.

  \<open>deleted_exec\<close> is the one program that leaves traces among the names, which are a map from paths to
  contents. The first version of the programs (\<open>src-v1.1-verbatim\<close>) is modelled beside the current
  one; three of its files have the same text.

  The theorems show that with short reads and writes but no errors each program of either version
  ends its copy and executes exactly the payload, and that the current \<open>deleted_exec\<close>, whatever
  fails, leaves the caller's file alone, which the first version removes.
\<close>

text \<open>
  The inner loop: \<open>j\<close> counts the calls of \<open>write\<close>, \<open>buf\<close> is what is left of the chunk. The
  result says whether all of it was written.
\<close>

partial_function (option) write_all ::
  "(nat \<Rightarrow> bytes \<Rightarrow> int) \<Rightarrow> nat \<Rightarrow> bytes \<Rightarrow> bytes \<Rightarrow> (bool \<times> nat \<times> bytes) option" where
  "write_all wr j buf dst =
     (if buf = [] then Some (True, j, dst)
      else
        let w = wr j buf in
        if w < 0 then Some (False, j + 1, dst)
        else write_all wr (j + 1) (drop (nat w) buf) (dst @ take (nat w) buf))"

text \<open>
  The outer loop, from the \<open>i\<close>-th call of \<open>read\<close> on: \<open>Inl\<close> for a failed write, otherwise
  the last result of \<open>read\<close>, which is not positive; in both cases the copy so far.
\<close>

partial_function (option) copy_loop ::
  "(nat \<Rightarrow> bytes \<Rightarrow> int) \<Rightarrow> (nat \<Rightarrow> bytes \<Rightarrow> int) \<Rightarrow> nat \<Rightarrow> nat \<Rightarrow> bytes \<Rightarrow> bytes \<Rightarrow> (bytes + int \<times> bytes) option" where
  "copy_loop rd wr i j src dst =
     (let n = rd i src in
      if n \<le> 0 then Some (Inr (n, dst))
      else
        (case write_all wr j (take (nat n) src) dst of
           None \<Rightarrow> None
         | Some (ok, j', dst') \<Rightarrow>
             if \<not> ok then Some (Inl dst') else copy_loop rd wr (i + 1) j' (drop (nat n) src) dst'))"

section \<open>The programs\<close>

record lab_env =
  lv_argc :: nat
  lv_open :: int
  lv_create :: int
  lv_rd :: "nat \<Rightarrow> bytes \<Rightarrow> int"
  lv_wr :: "nat \<Rightarrow> bytes \<Rightarrow> int"
  lv_reopen :: int
  lv_unlink :: int
  lv_exec :: "bytes \<Rightarrow> bool"

text \<open>A program ends by executing a file's contents or by exiting.\<close>

datatype outcome = Runs bytes | Exits nat

definition memfd_exec :: "lab_env \<Rightarrow> bytes \<Rightarrow> outcome option" where
  "memfd_exec env payload =
     (if lv_argc env < 2 then Some (Exits 2)
      else if lv_open env < 0 then Some (Exits 1)
      else if lv_create env < 0 then Some (Exits 1)
      else
        (case copy_loop (lv_rd env) (lv_wr env) 0 0 payload [] of
           None \<Rightarrow> None
         | Some (Inl part) \<Rightarrow> Some (Exits 1)
         | Some (Inr (n, mfd)) \<Rightarrow>
             if n < 0 then Some (Exits 1) else Some (if lv_exec env mfd then Runs mfd else Exits 1)))"

definition memfd_execveat :: "lab_env \<Rightarrow> bytes \<Rightarrow> outcome option" where
  "memfd_execveat env payload =
     (if lv_argc env < 2 then Some (Exits 2)
      else if lv_open env < 0 then Some (Exits 1)
      else if lv_create env < 0 then Some (Exits 1)
      else
        (case copy_loop (lv_rd env) (lv_wr env) 0 0 payload [] of
           None \<Rightarrow> None
         | Some (Inl part) \<Rightarrow> Some (Exits 1)
         | Some (Inr (n, mfd)) \<Rightarrow>
             if n < 0 then Some (Exits 1) else Some (if lv_exec env mfd then Runs mfd else Exits 1)))"

text \<open>The copy's path; a path too long for the buffer is cut.\<close>

type_synonym names = "string \<Rightarrow> bytes option"

definition PATH_MAX :: nat where "PATH_MAX = 4096"

definition deleted_tmp :: "string \<Rightarrow> nat \<Rightarrow> string" where
  "deleted_tmp path pid = snprintf_str PATH_MAX (path @ ''.deleted_exec.'' @ c_dec pid)"

definition deleted_exec :: "lab_env \<Rightarrow> string \<Rightarrow> nat \<Rightarrow> names \<Rightarrow> (outcome \<times> names) option" where
  "deleted_exec env path pid fs =
     (if lv_argc env < 2 then Some (Exits 2, fs)
      else
        let tmp = deleted_tmp path pid in
        case fs path of
          None \<Rightarrow> Some (Exits 1, fs)
        | Some payload \<Rightarrow>
            if lv_open env < 0 then Some (Exits 1, fs)
            else if lv_create env < 0 \<or> fs tmp \<noteq> None then Some (Exits 1, fs)
            else
              (case copy_loop (lv_rd env) (lv_wr env) 0 0 payload [] of
                 None \<Rightarrow> None
               | Some (Inl part) \<Rightarrow> Some (Exits 1, fs(tmp \<mapsto> part))
               | Some (Inr (n, dst)) \<Rightarrow>
                   if n < 0 then Some (Exits 1, fs(tmp \<mapsto> dst))
                   else if lv_reopen env < 0 then Some (Exits 1, fs(tmp \<mapsto> dst))
                   else if lv_unlink env < 0 then Some (Exits 1, fs(tmp \<mapsto> dst))
                   else Some (if lv_exec env dst then Runs dst else Exits 1, fs(tmp := None))))"

text \<open>\<open>tmpfile_exec\<close> does not look at the last result of \<open>read\<close>.\<close>

definition tmpfile_exec :: "lab_env \<Rightarrow> bytes \<Rightarrow> outcome option" where
  "tmpfile_exec env payload =
     (if lv_argc env < 2 then Some (Exits 2)
      else if lv_open env < 0 then Some (Exits 1)
      else if lv_create env < 0 then Some (Exits 1)
      else
        (case copy_loop (lv_rd env) (lv_wr env) 0 0 payload [] of
           None \<Rightarrow> None
         | Some (Inl part) \<Rightarrow> Some (Exits 1)
         | Some (Inr (n, wfd)) \<Rightarrow>
             if lv_reopen env < 0 then Some (Exits 1)
             else Some (if lv_exec env wfd then Runs wfd else Exits 1)))"

definition memfd_script :: "lab_env \<Rightarrow> bytes \<Rightarrow> outcome" where
  "memfd_script env script =
     (if lv_create env < 0 then Exits 1
      else
        let w = lv_wr env 0 script in
        if w < 0 then Exits 1 else if lv_exec env (take (nat w) script) then Runs (take (nat w) script) else Exits 1)"

section \<open>The first version\<close>

text \<open>
  \<open>memfd_execveat\<close> checks neither descriptor: reading from or writing to a negative one is an error,
  and it cannot be executed.
\<close>

definition memfd_execveat_v11 :: "lab_env \<Rightarrow> bytes \<Rightarrow> outcome option" where
  "memfd_execveat_v11 env payload =
     (if lv_argc env < 2 then Some (Exits 2)
      else
        let rd = (if lv_open env < 0 then (\<lambda>i src. - 1) else lv_rd env);
            wr = (if lv_create env < 0 then (\<lambda>j buf. - 1) else lv_wr env) in
        (case copy_loop rd wr 0 0 payload [] of
           None \<Rightarrow> None
         | Some (Inl part) \<Rightarrow> Some (Exits 1)
         | Some (Inr (n, mfd)) \<Rightarrow> Some (if 0 \<le> lv_create env \<and> lv_exec env mfd then Runs mfd else Exits 1)))"

definition deleted_exec_v11 :: "lab_env \<Rightarrow> string \<Rightarrow> names \<Rightarrow> outcome \<times> names" where
  "deleted_exec_v11 env path fs =
     (if lv_argc env < 2 then (Exits 2, fs)
      else
        case fs path of
          None \<Rightarrow> (Exits 1, fs)
        | Some payload \<Rightarrow>
            if lv_open env < 0 then (Exits 1, fs)
            else
              (if lv_exec env payload then Runs payload else Exits 1,
               if lv_unlink env < 0 then fs else fs(path := None)))"

definition memfd_exec_v11 :: "lab_env \<Rightarrow> bytes \<Rightarrow> outcome option" where
  "memfd_exec_v11 = memfd_exec"

definition tmpfile_exec_v11 :: "lab_env \<Rightarrow> bytes \<Rightarrow> outcome option" where
  "tmpfile_exec_v11 = tmpfile_exec"

definition memfd_script_v11 :: "lab_env \<Rightarrow> bytes \<Rightarrow> outcome" where
  "memfd_script_v11 = memfd_script"

text \<open>The payloads: what \<open>hello\<close> passes to \<open>write\<close>, and its status; \<open>sleeper\<close> ends only if \<open>pause\<close> returns.\<close>

definition hello_main :: "string \<times> nat" where
  "hello_main = (take 30 (''hello from a fileless payload'' @ [CHR 0x0A, CHR 0x00]), 0)"

definition sleeper_main :: "bool \<Rightarrow> nat option" where
  "sleeper_main pause_returns = (if pause_returns then Some 0 else None)"

section \<open>The copy ends and is exact\<close>

text \<open>What \<open>read(2)\<close> and \<open>write(2)\<close> do when nothing fails: at least one byte, at most what is left.\<close>

definition reads_ok :: "(nat \<Rightarrow> bytes \<Rightarrow> int) \<Rightarrow> bool" where
  "reads_ok rd \<longleftrightarrow> (\<forall>i src. rd i src \<le> int (length src) \<and> rd i src \<le> 65536 \<and> (0 < rd i src) = (src \<noteq> []) \<and> 0 \<le> rd i src)"

definition writes_ok :: "(nat \<Rightarrow> bytes \<Rightarrow> int) \<Rightarrow> bool" where
  "writes_ok wr \<longleftrightarrow> (\<forall>j buf. buf \<noteq> [] \<longrightarrow> 0 < wr j buf \<and> wr j buf \<le> int (length buf))"

lemma write_all_ok:
  assumes "writes_ok wr"
  shows "\<exists>j'. write_all wr j buf dst = Some (True, j', dst @ buf)"
proof (induction "length buf" arbitrary: j buf dst rule: less_induct)
  case less
  show ?case
  proof (cases "buf = []")
    case True
    then show ?thesis by (subst write_all.simps) simp
  next
    case False
    with assms have w: "0 < wr j buf" "wr j buf \<le> int (length buf)"
      by (auto simp: writes_ok_def)
    with less [of "drop (nat (wr j buf)) buf" "j + 1" "dst @ take (nat (wr j buf)) buf"] False show ?thesis
      by (subst write_all.simps) (simp add: Let_def)
  qed
qed

lemma copy_loop_ok:
  assumes "reads_ok rd" "writes_ok wr"
  shows "copy_loop rd wr i j src dst = Some (Inr (0, dst @ src))"
proof (induction "length src" arbitrary: i j src dst rule: less_induct)
  case less
  from assms(1) have rd: "0 \<le> rd i src" "rd i src \<le> int (length src)" "(0 < rd i src) = (src \<noteq> [])"
    by (auto simp: reads_ok_def)
  show ?case
  proof (cases "src = []")
    case True
    with rd show ?thesis by (subst copy_loop.simps) (auto simp: Let_def)
  next
    case False
    obtain j' where j': "write_all wr j (take (nat (rd i src)) src) dst = Some (True, j', dst @ take (nat (rd i src)) src)"
      using write_all_ok [OF assms(2)] by blast
    from less [of "drop (nat (rd i src)) src" "i + 1" j' "dst @ take (nat (rd i src)) src"] rd False
    show ?thesis
      by (subst copy_loop.simps) (simp add: Let_def j')
  qed
qed

text \<open>
  C33. With reads and writes that may be short at any call but do not fail, each of the four
  programs, in either version, ends its copy and executes exactly the bytes of the payload; the
  current \<open>deleted_exec\<close> leaves every name as it was.
\<close>

theorem fileless_runs_payload:
  assumes "reads_ok (lv_rd env)" "writes_ok (lv_wr env)" "2 \<le> lv_argc env" "0 \<le> lv_open env" "0 \<le> lv_create env"
    "0 \<le> lv_reopen env" "0 \<le> lv_unlink env" "lv_exec env payload"
    and "fs path = Some payload" "fs (deleted_tmp path pid) = None"
  shows "memfd_exec env payload = Some (Runs payload) \<and> memfd_execveat env payload = Some (Runs payload) \<and>
    deleted_exec env path pid fs = Some (Runs payload, fs) \<and> tmpfile_exec env payload = Some (Runs payload) \<and>
    memfd_exec_v11 env payload = Some (Runs payload) \<and> memfd_execveat_v11 env payload = Some (Runs payload) \<and>
    fst (deleted_exec_v11 env path fs) = Runs payload \<and> tmpfile_exec_v11 env payload = Some (Runs payload)"
proof -
  have "fs(deleted_tmp path pid := None) = fs"
    using assms(10) by (simp add: fun_upd_idem)
  then show ?thesis
    using assms(3-10) copy_loop_ok [OF assms(1,2), of 0 0 payload "[]"]
    by (simp add: memfd_exec_def memfd_execveat_def deleted_exec_def tmpfile_exec_def memfd_exec_v11_def
        memfd_execveat_v11_def deleted_exec_v11_def tmpfile_exec_v11_def Let_def)
qed

text \<open>Reads of at most two bytes and writes of one.\<close>

definition lab_demo :: lab_env where
  "lab_demo =
     \<lparr>lv_argc = 2, lv_open = 3, lv_create = 4, lv_rd = (\<lambda>i src. min 2 (int (length src))), lv_wr = (\<lambda>j buf. 1),
      lv_reopen = 5, lv_unlink = 0, lv_exec = (\<lambda>file. file \<noteq> [])\<rparr>"

definition names_demo :: names where
  "names_demo = [''p'' \<mapsto> [1, 2, 3]]"

lemma demo_io: "reads_ok (lv_rd lab_demo)" "writes_ok (lv_wr lab_demo)"
  by (auto simp: reads_ok_def writes_ok_def lab_demo_def Suc_leI)

lemma demo_tmp: "deleted_tmp ''p'' 42 = ''p.deleted_exec.42''"
  by code_simp

theorem fileless_runs_payload_witness:
  "memfd_exec lab_demo [1, 2, 3] = Some (Runs [1, 2, 3]) \<and>
   deleted_exec lab_demo ''p'' 42 names_demo = Some (Runs [1, 2, 3], names_demo)"
  using fileless_runs_payload [OF demo_io, of "[1, 2, 3]" names_demo "''p''" 42]
  by (simp add: lab_demo_def names_demo_def demo_tmp)

text \<open>
  C32. \<open>deleted_exec\<close> never touches the caller's file, however long its path is and whatever fails:
  when it ends, every name but its scratch path is as before, the scratch path was free before,
  and after an execution it is free again. The first version removes the caller's name whenever
  the file opens and can be unlinked, even when the execution then fails.
\<close>

theorem deleted_exec_keeps_caller:
  assumes "deleted_exec env path pid fs = Some (out, fs')"
  shows "fs' path = fs path \<and> (\<forall>p. p \<noteq> deleted_tmp path pid \<longrightarrow> fs' p = fs p) \<and>
    (fs' \<noteq> fs \<longrightarrow> fs (deleted_tmp path pid) = None \<and> out = Exits 1) \<and> ((\<exists>b. out = Runs b) \<longrightarrow> fs' = fs) \<and>
    (2 \<le> lv_argc env \<and> fs path \<noteq> None \<and> 0 \<le> lv_open env \<and> 0 \<le> lv_unlink env \<longrightarrow>
       snd (deleted_exec_v11 env path fs) = fs(path := None))"
proof (cases "fs path = None \<or> fs (deleted_tmp path pid) \<noteq> None")
  case True
  with assms show ?thesis
    by (auto simp: deleted_exec_def deleted_exec_v11_def Let_def split: if_splits option.splits sum.splits)
next
  case False
  then have "path \<noteq> deleted_tmp path pid" "fs(deleted_tmp path pid := None) = fs"
    by (auto simp: fun_upd_idem)
  with assms show ?thesis
    by (auto simp: deleted_exec_def deleted_exec_v11_def Let_def split: if_splits option.splits sum.splits)
qed

text \<open>A path of 4095 characters fills the buffer: the scratch path is the caller's own.\<close>

theorem deleted_exec_keeps_caller_witness:
  "deleted_tmp (replicate 4095 (CHR ''a'')) 42 = replicate 4095 (CHR ''a'') \<and>
   (\<exists>out fs'. deleted_exec lab_demo (replicate 4095 (CHR ''a'')) 42 [replicate 4095 (CHR ''a'') \<mapsto> [1]] = Some (out, fs') \<and>
      fs' (replicate 4095 (CHR ''a'')) = Some [1])"
proof -
  let ?p = "replicate 4095 (CHR ''a'')"
  have tmp: "deleted_tmp ?p 42 = ?p"
    by (simp add: deleted_tmp_def PATH_MAX_def snprintf_str_def)
  have run: "deleted_exec lab_demo ?p 42 [?p \<mapsto> [1]] = Some (Exits 1, [?p \<mapsto> [1]])"
    by (simp add: deleted_exec_def tmp lab_demo_def)
  from deleted_exec_keeps_caller [OF run] tmp run show ?thesis by simp
qed

text \<open>
  The two versions of \<open>memfd_execveat\<close> on the same descriptors differ exactly when the copy ends
  with a read error: the first one executes what it has.
\<close>

lemma memfd_execveat_versions:
  assumes "0 \<le> lv_open env" "0 \<le> lv_create env" "2 \<le> lv_argc env"
  shows "memfd_execveat_v11 env payload =
    (case copy_loop (lv_rd env) (lv_wr env) 0 0 payload [] of
       Some (Inr (n, mfd)) \<Rightarrow>
         if n < 0 \<and> lv_exec env mfd then Some (Runs mfd) else memfd_execveat env payload
     | _ \<Rightarrow> memfd_execveat env payload)"
  using assms by (simp add: memfd_execveat_v11_def memfd_execveat_def split: option.split sum.split)

text \<open>
  A read error after \<open>k\<close> bytes: \<open>memfd_exec\<close> reports it and exits, \<open>tmpfile_exec\<close> and the first
  version of \<open>memfd_execveat\<close> execute the first \<open>k\<close> bytes of the payload.
\<close>

lemma read_error_outcomes:
  assumes "0 < k" "k \<le> length payload" "writes_ok (lv_wr env)" "2 \<le> lv_argc env" "0 \<le> lv_open env" "0 \<le> lv_create env"
    "0 \<le> lv_reopen env" "lv_exec env (take k payload)" "lv_rd env = (\<lambda>i src. if i = 0 then int k else - 1)"
  shows "memfd_exec env payload = Some (Exits 1) \<and> tmpfile_exec env payload = Some (Runs (take k payload)) \<and>
    memfd_execveat_v11 env payload = Some (Runs (take k payload))"
proof -
  obtain j' where j': "write_all (lv_wr env) 0 (take k payload) [] = Some (True, j', take k payload)"
    using write_all_ok [OF assms(3), of 0 "take k payload" "[]"] by auto
  have "copy_loop (lv_rd env) (lv_wr env) 1 j' src dst = Some (Inr (- 1, dst))" for src dst
    using assms(9) by (subst copy_loop.simps) simp
  then have "copy_loop (lv_rd env) (lv_wr env) 0 0 payload [] = Some (Inr (- 1, take k payload))"
    using assms(1,9) j' by (subst copy_loop.simps) simp
  with assms(4-8) show ?thesis
    by (simp add: memfd_exec_def tmpfile_exec_def memfd_execveat_v11_def)
qed

end
