(* ===== verification/Exec_Gate.thy ===== *)
theory Exec_Gate
  imports Bpf_Maps
begin

text \<open>
  25-fileless-lab, the LSM exec gate (\<open>gate/exec_gate.bpf.c.fragment\<close>): an execution or an
  executable mapping is allowed when the file's fs-verity digest carries a signature that a system
  key accepts. Accepted verdicts are cached per inode with the policy epoch in force, and a hit
  counts only under the same epoch.

  The kernel's verification functions are parameters (\<open>gate_kernel\<close>) that read a world which may
  change at any time; \<open>policy\<close> and \<open>verdict_map\<close>, which the fragment uses and does not define, are
  maps of the interfaces of \<open>Bpf_Maps\<close>. The inode storage gives out pointers: \<open>verdict_map\<close> takes an
  inode to the number of its element and \<open>elems\<close> holds the elements, so that a CPU keeps reading
  and writing the element it was given after the inode's storage is gone (the kernel frees an
  element only after the programs that can have a pointer to it). \<open>MAX_SIG\<close> and \<open>TAG_XATTR\<close> are inside
  the xattr parameter, \<open>DENY_ANON_EXEC\<close> and \<open>task_is_verified_agent\<close> are arguments.

  \<open>exec_gate\<close> and \<open>mmap_gate\<close> are the hooks as written; \<open>gate_micro\<close> is the same code cut at every
  access to something shared, each of the two fields of a verdict included, which any number of
  CPUs run interleaved with changes of policy and world. The theorems show that the cuts are faithful,
  that a hook which allows relies on an acceptance of its own run or of the epoch it began in,
  and that a file that stays signed is never refused.
\<close>

unbundle bit_operations_syntax

definition EPERM :: int where "EPERM = 1"

definition PROT_EXEC :: u64 where "PROT_EXEC = 4"

definition TMPFS_MAGIC :: u64 where "TMPFS_MAGIC = 0x01021994"

definition HUGETLBFS_MAGIC :: u64 where "HUGETLBFS_MAGIC = 0x958458f6"

definition KEYRING_SEL :: u64 where "KEYRING_SEL = 1"

definition FSV_MAGIC :: bytes where
  "FSV_MAGIC = [70, 83, 86, 101, 114, 105, 116, 121]"

record inode =
  i_ino :: u64
  s_magic :: u64
  i_nlink :: u32

record verdict =
  approved :: u8
  epoch :: u32

text \<open>An element of the inode storage: its inode and its data.\<close>

record storage_elem =
  se_owner :: u64
  se_data :: verdict

text \<open>
  \<open>k_digest\<close> is \<open>bpf_get_fsverity_digest\<close>, its result and the 36 bytes it writes; \<open>k_xattr\<close> is
  \<open>bpf_get_file_xattr\<close>, its result and the buffer; \<open>k_key\<close> is \<open>bpf_lookup_system_key\<close> and \<open>k_pkcs7\<close> is
  \<open>bpf_verify_pkcs7_signature\<close>.
\<close>

record ('w, 'key) gate_kernel =
  k_digest :: "'w \<Rightarrow> u64 \<Rightarrow> int \<times> bytes"
  k_xattr :: "'w \<Rightarrow> u64 \<Rightarrow> int \<times> bytes"
  k_key :: "'w \<Rightarrow> u64 \<Rightarrow> 'key option"
  k_pkcs7 :: "'w \<Rightarrow> bytes \<Rightarrow> bytes \<Rightarrow> 'key \<Rightarrow> int"

record ('p, 'm) gate_ops =
  po_ops :: "('p, u32, u32) map_ops"
  ve_ops :: "('m, u64, nat) map_ops"

record ('p, 'm, 'w) gate =
  policy :: 'p
  verdict_map :: 'm
  elems :: "storage_elem list"
  world :: 'w

section \<open>The hooks\<close>

definition current_epoch :: "('p, 'm) gate_ops \<Rightarrow> 'p \<Rightarrow> u32" where
  "current_epoch ops p = (case map_lookup (po_ops ops) p 0 of Some e \<Rightarrow> e | None \<Rightarrow> 0)"

text \<open>
  \<open>bpf_inode_storage_get\<close>: without the create flag the inode's element if there is one; with it the
  element there is or a new one that holds \<open>nv\<close>, or none when it cannot be made.
\<close>

definition storage_get :: "('p, 'm) gate_ops \<Rightarrow> ('p, 'm, 'w) gate \<Rightarrow> u64 \<Rightarrow> nat option" where
  "storage_get ops st i = map_lookup (ve_ops ops) (verdict_map st) i"

definition storage_create ::
  "('p, 'm) gate_ops \<Rightarrow> ('p, 'm, 'w) gate \<Rightarrow> u64 \<Rightarrow> verdict \<Rightarrow> nat option \<times> ('p, 'm, 'w) gate" where
  "storage_create ops st i nv =
     (case storage_get ops st i of
        Some n \<Rightarrow> (Some n, st)
      | None \<Rightarrow>
          (case map_update (ve_ops ops) (verdict_map st) i (length (elems st)) BPF_NOEXIST of
             (r, m) \<Rightarrow>
               if r = 0
               then (Some (length (elems st)),
                     st\<lparr>verdict_map := m, elems := elems st @ [\<lparr>se_owner = i, se_data = nv\<rparr>]\<rparr>)
               else (None, st\<lparr>verdict_map := m\<rparr>)))"

definition elem_at :: "('p, 'm, 'w) gate \<Rightarrow> nat \<Rightarrow> verdict" where
  "elem_at st n = se_data (elems st ! n)"

definition set_elem :: "(verdict \<Rightarrow> verdict) \<Rightarrow> nat \<Rightarrow> ('p, 'm, 'w) gate \<Rightarrow> ('p, 'm, 'w) gate" where
  "set_elem g n st = st\<lparr>elems := (elems st)[n := (elems st ! n)\<lparr>se_data := g (elem_at st n)\<rparr>]\<rparr>"

definition cached :: "('p, 'm) gate_ops \<Rightarrow> ('p, 'm, 'w) gate \<Rightarrow> u64 \<Rightarrow> u32 \<Rightarrow> bool" where
  "cached ops st i e =
     (case storage_get ops st i of
        Some n \<Rightarrow> approved (elem_at st n) \<noteq> 0 \<and> epoch (elem_at st n) = e
      | None \<Rightarrow> False)"

text \<open>The signature the dynptr covers after it has been cut to the length that was read.\<close>

definition file_sig :: "('w, 'key) gate_kernel \<Rightarrow> 'w \<Rightarrow> u64 \<Rightarrow> bytes option" where
  "file_sig k w i =
     (case k_xattr k w i of (slen, sbuf) \<Rightarrow>
        if slen < 0 then None
        else Some (if slen \<le> int (length sbuf) then take (nat slen) sbuf else sbuf))"

definition verifies :: "('w, 'key) gate_kernel \<Rightarrow> 'w \<Rightarrow> bytes \<Rightarrow> bytes \<Rightarrow> bool" where
  "verifies k w buf sig =
     (case k_key k w KEYRING_SEL of None \<Rightarrow> False | Some kr \<Rightarrow> k_pkcs7 k w buf sig kr = 0)"

definition new_verdict :: "u32 \<Rightarrow> verdict" where
  "new_verdict e = \<lparr>approved = 1, epoch = e\<rparr>"

definition store_verdict :: "('p, 'm) gate_ops \<Rightarrow> ('p, 'm, 'w) gate \<Rightarrow> u64 \<Rightarrow> u32 \<Rightarrow> ('p, 'm, 'w) gate" where
  "store_verdict ops st i e =
     (case storage_create ops st i (new_verdict e) of
        (None, st) \<Rightarrow> st
      | (Some n, st) \<Rightarrow> set_elem (epoch_update (\<lambda>_. e)) n (set_elem (approved_update (\<lambda>_. 1)) n st))"

definition verify_file ::
  "('p, 'm) gate_ops \<Rightarrow> ('w, 'key) gate_kernel \<Rightarrow> u64 \<Rightarrow> ('p, 'm, 'w) gate \<Rightarrow> int \<times> ('p, 'm, 'w) gate" where
  "verify_file ops k i st =
     (let e = current_epoch ops (policy st) in
      if cached ops st i e then (0, st)
      else
        case k_digest k (world st) i of (rc, d) \<Rightarrow>
          if rc \<noteq> 0 then (- EPERM, st)
          else
            (case file_sig k (world st) i of
               None \<Rightarrow> (- EPERM, st)
             | Some sig \<Rightarrow>
                 if \<not> verifies k (world st) (FSV_MAGIC @ d) sig then (- EPERM, st)
                 else (0, store_verdict ops st i e)))"

definition is_anon_exec_inode :: "inode \<Rightarrow> bool" where
  "is_anon_exec_inode ino \<longleftrightarrow> i_nlink ino = 0 \<and> (s_magic ino = TMPFS_MAGIC \<or> s_magic ino = HUGETLBFS_MAGIC)"

definition exec_gate ::
  "('p, 'm) gate_ops \<Rightarrow> ('w, 'key) gate_kernel \<Rightarrow> inode \<Rightarrow> ('p, 'm, 'w) gate \<Rightarrow> int \<times> ('p, 'm, 'w) gate" where
  "exec_gate ops k ino st =
     (if is_anon_exec_inode ino then (- EPERM, st) else verify_file ops k (i_ino ino) st)"

definition mmap_gate ::
  "('p, 'm) gate_ops \<Rightarrow> ('w, 'key) gate_kernel \<Rightarrow> bool \<Rightarrow> inode option \<Rightarrow> u64 \<Rightarrow> ('p, 'm, 'w) gate \<Rightarrow>
   int \<times> ('p, 'm, 'w) gate" where
  "mmap_gate ops k deny_anon_exec f prot st =
     (if prot AND PROT_EXEC = 0 then (0, st)
      else
        case f of
          None \<Rightarrow> (if deny_anon_exec then - EPERM else 0, st)
        | Some ino \<Rightarrow> if is_anon_exec_inode ino then (- EPERM, st) else verify_file ops k (i_ino ino) st)"

definition BPF_PROG_LOAD :: int where "BPF_PROG_LOAD = 5"

definition BPF_LINK_UPDATE :: int where "BPF_LINK_UPDATE = 29"

definition BPF_LINK_DETACH :: int where "BPF_LINK_DETACH = 34"

definition BPF_TOKEN_CREATE :: int where "BPF_TOKEN_CREATE = 36"

definition guard_bpf :: "bool \<Rightarrow> int \<Rightarrow> bool \<Rightarrow> int" where
  "guard_bpf verified_agent cmd in_kernel =
     (if in_kernel then 0
      else if \<not> verified_agent \<and>
        (cmd = BPF_LINK_DETACH \<or> cmd = BPF_PROG_LOAD \<or> cmd = BPF_LINK_UPDATE \<or> cmd = BPF_TOKEN_CREATE)
      then - EPERM else 0)"

section \<open>The hooks in steps\<close>

datatype hook = Bprm_check inode | Mmap_file "inode option" u64

text \<open>
  Where a CPU is in a hook: \<open>Cache\<close> asks for the inode's element, \<open>Approved\<close> and \<open>Matches\<close> read its two
  fields, \<open>Create\<close> asks for an element to store in, \<open>Set_approved\<close> and \<open>Set_epoch\<close> write them. Looking up
  the key and verifying with it is one step: the key is only a name for the keyring and the
  lookup reads nothing shared.
\<close>

datatype gate_pc =
    Out
  | In hook
  | Epoch u64
  | Cache u64 u32
  | Approved u64 u32 nat
  | Matches u64 u32 nat
  | Digest u64 u32
  | Xattr u64 u32 bytes
  | Verify u64 u32 bytes bytes
  | Create u64 u32
  | Set_approved u64 u32 nat
  | Set_epoch u64 u32 nat
  | Done int

definition enter_file :: "inode \<Rightarrow> gate_pc" where
  "enter_file ino = (if is_anon_exec_inode ino then Done (- EPERM) else Epoch (i_ino ino))"

fun gate_micro ::
  "('p, 'm) gate_ops \<Rightarrow> ('w, 'key) gate_kernel \<Rightarrow> bool \<Rightarrow> gate_pc \<times> ('p, 'm, 'w) gate \<Rightarrow> gate_pc \<times> ('p, 'm, 'w) gate" where
  "gate_micro ops k deny (Out, st) = (Out, st)"
| "gate_micro ops k deny (In (Bprm_check ino), st) = (enter_file ino, st)"
| "gate_micro ops k deny (In (Mmap_file f prot), st) =
     (if prot AND PROT_EXEC = 0 then Done 0
      else case f of None \<Rightarrow> Done (if deny then - EPERM else 0) | Some ino \<Rightarrow> enter_file ino, st)"
| "gate_micro ops k deny (Epoch i, st) = (Cache i (current_epoch ops (policy st)), st)"
| "gate_micro ops k deny (Cache i e, st) =
     (case storage_get ops st i of None \<Rightarrow> Digest i e | Some n \<Rightarrow> Approved i e n, st)"
| "gate_micro ops k deny (Approved i e n, st) = (if approved (elem_at st n) \<noteq> 0 then Matches i e n else Digest i e, st)"
| "gate_micro ops k deny (Matches i e n, st) = (if epoch (elem_at st n) = e then Done 0 else Digest i e, st)"
| "gate_micro ops k deny (Digest i e, st) =
     (case k_digest k (world st) i of (rc, d) \<Rightarrow> if rc \<noteq> 0 then Done (- EPERM) else Xattr i e (FSV_MAGIC @ d), st)"
| "gate_micro ops k deny (Xattr i e buf, st) =
     (case file_sig k (world st) i of None \<Rightarrow> Done (- EPERM) | Some sig \<Rightarrow> Verify i e buf sig, st)"
| "gate_micro ops k deny (Verify i e buf sig, st) =
     (if verifies k (world st) buf sig then Create i e else Done (- EPERM), st)"
| "gate_micro ops k deny (Create i e, st) =
     (case storage_create ops st i (new_verdict e) of
        (None, st) \<Rightarrow> (Done 0, st) | (Some n, st) \<Rightarrow> (Set_approved i e n, st))"
| "gate_micro ops k deny (Set_approved i e n, st) = (Set_epoch i e n, set_elem (approved_update (\<lambda>_. 1)) n st)"
| "gate_micro ops k deny (Set_epoch i e n, st) = (Done 0, set_elem (epoch_update (\<lambda>_. e)) n st)"
| "gate_micro ops k deny (Done r, st) = (Done r, st)"

definition gate_hook ::
  "('p, 'm) gate_ops \<Rightarrow> ('w, 'key) gate_kernel \<Rightarrow> bool \<Rightarrow> hook \<Rightarrow> ('p, 'm, 'w) gate \<Rightarrow> int \<times> ('p, 'm, 'w) gate" where
  "gate_hook ops k deny h =
     (case h of Bprm_check ino \<Rightarrow> exec_gate ops k ino | Mmap_file f prot \<Rightarrow> mmap_gate ops k deny f prot)"

text \<open>The steps with nothing in between are the hook.\<close>

lemma gate_alone:
  "(gate_micro ops k deny ^^ 11) (In h, st) = (case gate_hook ops k deny h st of (r, st') \<Rightarrow> (Done r, st'))"
  by (cases h)
     (simp_all add: numeral_eq_Suc gate_hook_def exec_gate_def mmap_gate_def verify_file_def enter_file_def Let_def
       cached_def store_verdict_def split: prod.split option.split)

section \<open>Many CPUs, and a world that changes\<close>

record ('p, 'm, 'w) gate_race =
  gr_gate :: "('p, 'm, 'w) gate"
  gr_cpus :: "gate_pc list"

text \<open>\<open>Change\<close> is anything that others do to the policy and to keys and files, \<open>Evict\<close> an inode leaving memory.\<close>

datatype ('p, 'w) gate_label = Begin nat hook | Go nat | Return nat int | Change 'p 'w | Evict u64

inductive gate_step ::
  "('p, 'm) gate_ops \<Rightarrow> ('w, 'key) gate_kernel \<Rightarrow> bool \<Rightarrow>
   ('p, 'm, 'w) gate_race \<Rightarrow> ('p, 'w) gate_label \<Rightarrow> ('p, 'm, 'w) gate_race \<Rightarrow> bool" for ops k deny where
  begin_hook: "c < length (gr_cpus s) \<Longrightarrow> gr_cpus s ! c = Out \<Longrightarrow>
    gate_step ops k deny s (Begin c h) (s\<lparr>gr_cpus := (gr_cpus s)[c := In h]\<rparr>)"
| go: "c < length (gr_cpus s) \<Longrightarrow> gate_micro ops k deny (gr_cpus s ! c, gr_gate s) = (p, st) \<Longrightarrow>
    gate_step ops k deny s (Go c) \<lparr>gr_gate = st, gr_cpus = (gr_cpus s)[c := p]\<rparr>"
| return_hook: "c < length (gr_cpus s) \<Longrightarrow> gr_cpus s ! c = Done r \<Longrightarrow>
    gate_step ops k deny s (Return c r) (s\<lparr>gr_cpus := (gr_cpus s)[c := Out]\<rparr>)"
| change: "gate_step ops k deny s (Change p w) (s\<lparr>gr_gate := (gr_gate s)\<lparr>policy := p, world := w\<rparr>\<rparr>)"
| evict: "gate_step ops k deny s (Evict i)
    (s\<lparr>gr_gate := (gr_gate s)\<lparr>verdict_map := map_delete (ve_ops ops) (verdict_map (gr_gate s)) i\<rparr>\<rparr>)"

inductive_cases gate_stepE:
  "gate_step ops k deny s (Begin c h) s'"
  "gate_step ops k deny s (Go c) s'"
  "gate_step ops k deny s (Return c r) s'"
  "gate_step ops k deny s (Change p w) s'"
  "gate_step ops k deny s (Evict i) s'"

text \<open>An execution of \<open>n\<close> steps: the states, the first one included, and the labels between them.\<close>

definition gate_trace ::
  "('p, 'm) gate_ops \<Rightarrow> ('w, 'key) gate_kernel \<Rightarrow> bool \<Rightarrow>
   (nat \<Rightarrow> ('p, 'm, 'w) gate_race) \<Rightarrow> (nat \<Rightarrow> ('p, 'w) gate_label) \<Rightarrow> nat \<Rightarrow> bool" where
  "gate_trace ops k deny S L n \<longleftrightarrow> (\<forall>j<n. gate_step ops k deny (S j) (L j) (S (Suc j)))"

abbreviation world_at :: "(nat \<Rightarrow> ('p, 'm, 'w) gate_race) \<Rightarrow> nat \<Rightarrow> 'w" where
  "world_at S j \<equiv> world (gr_gate (S j))"

abbreviation epoch_at :: "('p, 'm) gate_ops \<Rightarrow> (nat \<Rightarrow> ('p, 'm, 'w) gate_race) \<Rightarrow> nat \<Rightarrow> u32" where
  "epoch_at ops S j \<equiv> current_epoch ops (policy (gr_gate (S j)))"

text \<open>The step with number \<open>i\<close> enters a hook on a CPU that enters no other before step \<open>j\<close>.\<close>

definition in_hook :: "(nat \<Rightarrow> ('p, 'w) gate_label) \<Rightarrow> nat \<Rightarrow> hook \<Rightarrow> nat \<Rightarrow> nat \<Rightarrow> bool" where
  "in_hook L c h i j \<longleftrightarrow> i < j \<and> L i = Begin c h \<and> (\<forall>l. i < l \<and> l < j \<longrightarrow> (\<forall>h'. L l \<noteq> Begin c h'))"

section \<open>What an allowed execution shows\<close>

text \<open>The keys in force accept the signature for the inode's digest.\<close>

definition accepts :: "('w, 'key) gate_kernel \<Rightarrow> 'w \<Rightarrow> u64 \<Rightarrow> bytes \<Rightarrow> bool" where
  "accepts k w i sig = (case k_digest k w i of (rc, d) \<Rightarrow> rc = 0 \<and> verifies k w (FSV_MAGIC @ d) sig)"

definition vouched ::
  "('w, 'key) gate_kernel \<Rightarrow> (nat \<Rightarrow> ('p, 'm, 'w) gate_race) \<Rightarrow> u64 \<Rightarrow> nat \<Rightarrow> bool" where
  "vouched k S i m \<longleftrightarrow> (\<exists>m'\<le>m. \<exists>sig. file_sig k (world_at S m') i = Some sig \<and> accepts k (world_at S m) i sig)"

text \<open>The inode a hook must vouch for; what asks for none.\<close>

fun hook_file :: "hook \<Rightarrow> inode option" where
  "hook_file (Bprm_check ino) = Some ino"
| "hook_file (Mmap_file f prot) = (if prot AND PROT_EXEC = 0 then None else f)"

fun harmless :: "bool \<Rightarrow> hook \<Rightarrow> bool" where
  "harmless deny (Bprm_check ino) = False"
| "harmless deny (Mmap_file f prot) \<longleftrightarrow> prot AND PROT_EXEC = 0 \<or> (f = None \<and> \<not> deny)"

definition named :: "hook \<Rightarrow> u64 \<Rightarrow> bool" where
  "named h i \<longleftrightarrow> (\<exists>ino. hook_file h = Some ino \<and> \<not> is_anon_exec_inode ino \<and> i_ino ino = i)"

text \<open>
  What the gate relies on. The digest of an inode with fs-verity never changes, and the agent that
  owns the policy only raises the epoch. Nothing is assumed of keys and signatures, which come
  and go at any time: a key may be withdrawn some time before the epoch is raised.
\<close>

definition verity_fixed :: "('w, 'key) gate_kernel \<Rightarrow> (nat \<Rightarrow> ('p, 'm, 'w) gate_race) \<Rightarrow> nat \<Rightarrow> bool" where
  "verity_fixed k S n \<longleftrightarrow>
     (\<forall>a b i d. a \<le> b \<and> b \<le> n \<and> k_digest k (world_at S a) i = (0, d) \<longrightarrow> k_digest k (world_at S b) i = (0, d))"

definition epoch_rises :: "('p, 'm) gate_ops \<Rightarrow> (nat \<Rightarrow> ('p, 'm, 'w) gate_race) \<Rightarrow> nat \<Rightarrow> bool" where
  "epoch_rises ops S n \<longleftrightarrow> (\<forall>a b. a \<le> b \<and> b \<le> n \<longrightarrow> epoch_at ops S a \<le> epoch_at ops S b)"

text \<open>
  The instant \<open>m\<close> counts for a hook that was entered by step \<open>l\<close>: it is in the hook's run, or the
  epoch did not move from it until the hook began.
\<close>

definition counts_at :: "('p, 'm) gate_ops \<Rightarrow> (nat \<Rightarrow> ('p, 'm, 'w) gate_race) \<Rightarrow> nat \<Rightarrow> nat \<Rightarrow> bool" where
  "counts_at ops S l m \<longleftrightarrow> l < m \<or> (\<forall>t. m \<le> t \<and> t \<le> Suc l \<longrightarrow> epoch_at ops S t = epoch_at ops S m)"

section \<open>The invariant\<close>

lemma in_hook_unique: "in_hook L c h i j \<Longrightarrow> in_hook L c h' i' j \<Longrightarrow> h' = h \<and> i' = i"
  unfolding in_hook_def by (metis gate_label.inject(1) linorder_neqE_nat)

lemma in_hook_next: "in_hook L c h i j \<Longrightarrow> (\<And>h'. L j \<noteq> Begin c h') \<Longrightarrow> in_hook L c h i (Suc j)"
  by (auto simp: in_hook_def less_Suc_eq)

lemma in_hook_enter: "L j = Begin c h \<Longrightarrow> in_hook L c h j (Suc j)"
  by (auto simp: in_hook_def)

text \<open>
  The element \<open>n\<close> belongs to the inode \<open>i\<close>. Every element holds an epoch that was read before an
  acceptance of its inode, and the inode storage gives out elements of the inode.
\<close>

definition owns :: "('p, 'm, 'w) gate \<Rightarrow> u64 \<Rightarrow> nat \<Rightarrow> bool" where
  "owns st i n \<longleftrightarrow> n < length (elems st) \<and> se_owner (elems st ! n) = i"

definition epoch_shown ::
  "('p, 'm) gate_ops \<Rightarrow> ('w, 'key) gate_kernel \<Rightarrow> (nat \<Rightarrow> ('p, 'm, 'w) gate_race) \<Rightarrow> nat \<Rightarrow> u64 \<Rightarrow> u32 \<Rightarrow> bool" where
  "epoch_shown ops k S j i e \<longleftrightarrow> (\<exists>a b. a \<le> b \<and> b \<le> j \<and> epoch_at ops S a = e \<and> vouched k S i b)"

definition elems_shown ::
  "('p, 'm) gate_ops \<Rightarrow> ('w, 'key) gate_kernel \<Rightarrow> (nat \<Rightarrow> ('p, 'm, 'w) gate_race) \<Rightarrow> nat \<Rightarrow> ('p, 'm, 'w) gate \<Rightarrow> bool" where
  "elems_shown ops k S j st \<longleftrightarrow> (\<forall>i n. owns st i n \<longrightarrow> epoch_shown ops k S j i (epoch (elem_at st n)))"

definition storage_ok :: "('p, 'm) gate_ops \<Rightarrow> ('p, 'm, 'w) gate \<Rightarrow> bool" where
  "storage_ok ops st \<longleftrightarrow> (\<forall>i n. storage_get ops st i = Some n \<longrightarrow> owns st i n)"

lemma epoch_shown_mono: "epoch_shown ops k S j i e \<Longrightarrow> epoch_shown ops k S (Suc j) i e"
  using le_SucI [of _ j] unfolding epoch_shown_def by blast

lemma owns_set_elem [simp]: "owns (set_elem g n st) i m = owns st i m"
  by (cases "m = n") (auto simp: owns_def set_elem_def)

lemma elem_set_elem: "n < length (elems st) \<Longrightarrow> elem_at (set_elem g n st) m = (if m = n then g (elem_at st n) else elem_at st m)"
  by (simp add: elem_at_def set_elem_def)

lemma get_set_elem [simp]: "storage_get ops (set_elem g n st) = storage_get ops st"
  by (simp add: fun_eq_iff storage_get_def set_elem_def)

text \<open>What a CPU has established since it entered the hook at step \<open>l\<close>.\<close>

definition read_since :: "('p, 'm) gate_ops \<Rightarrow> (nat \<Rightarrow> ('p, 'm, 'w) gate_race) \<Rightarrow> nat \<Rightarrow> nat \<Rightarrow> u32 \<Rightarrow> bool" where
  "read_since ops S l j e \<longleftrightarrow> (\<exists>a. l < a \<and> a \<le> j \<and> epoch_at ops S a = e)"

definition digest_seen ::
  "('w, 'key) gate_kernel \<Rightarrow> (nat \<Rightarrow> ('p, 'm, 'w) gate_race) \<Rightarrow> nat \<Rightarrow> u64 \<Rightarrow> bytes \<Rightarrow> bool" where
  "digest_seen k S j i buf \<longleftrightarrow> (\<exists>b\<le>j. \<exists>d. k_digest k (world_at S b) i = (0, d) \<and> buf = FSV_MAGIC @ d)"

definition accepted_since ::
  "('p, 'm) gate_ops \<Rightarrow> ('w, 'key) gate_kernel \<Rightarrow> (nat \<Rightarrow> ('p, 'm, 'w) gate_race) \<Rightarrow> nat \<Rightarrow> nat \<Rightarrow> u64 \<Rightarrow> u32 \<Rightarrow> bool" where
  "accepted_since ops k S l j i e \<longleftrightarrow> (\<exists>a b. l < a \<and> a \<le> b \<and> b \<le> j \<and> epoch_at ops S a = e \<and> vouched k S i b)"

fun pc_shown ::
  "('p, 'm) gate_ops \<Rightarrow> ('w, 'key) gate_kernel \<Rightarrow> bool \<Rightarrow> (nat \<Rightarrow> ('p, 'm, 'w) gate_race) \<Rightarrow> hook \<Rightarrow> nat \<Rightarrow> nat \<Rightarrow>
   gate_pc \<Rightarrow> bool" where
  "pc_shown ops k deny S h l j Out \<longleftrightarrow> True"
| "pc_shown ops k deny S h l j (In h') \<longleftrightarrow> h' = h"
| "pc_shown ops k deny S h l j (Epoch i) \<longleftrightarrow> named h i"
| "pc_shown ops k deny S h l j (Cache i e) \<longleftrightarrow> named h i \<and> read_since ops S l j e"
| "pc_shown ops k deny S h l j (Approved i e n) \<longleftrightarrow> named h i \<and> read_since ops S l j e \<and> owns (gr_gate (S j)) i n"
| "pc_shown ops k deny S h l j (Matches i e n) \<longleftrightarrow> named h i \<and> read_since ops S l j e \<and> owns (gr_gate (S j)) i n"
| "pc_shown ops k deny S h l j (Digest i e) \<longleftrightarrow> named h i \<and> read_since ops S l j e"
| "pc_shown ops k deny S h l j (Xattr i e buf) \<longleftrightarrow> named h i \<and> read_since ops S l j e \<and> digest_seen k S j i buf"
| "pc_shown ops k deny S h l j (Verify i e buf sig) \<longleftrightarrow>
     named h i \<and> read_since ops S l j e \<and> digest_seen k S j i buf \<and> (\<exists>b\<le>j. file_sig k (world_at S b) i = Some sig)"
| "pc_shown ops k deny S h l j (Create i e) \<longleftrightarrow> named h i \<and> accepted_since ops k S l j i e"
| "pc_shown ops k deny S h l j (Set_approved i e n) \<longleftrightarrow>
     named h i \<and> accepted_since ops k S l j i e \<and> owns (gr_gate (S j)) i n"
| "pc_shown ops k deny S h l j (Set_epoch i e n) \<longleftrightarrow>
     named h i \<and> accepted_since ops k S l j i e \<and> owns (gr_gate (S j)) i n"
| "pc_shown ops k deny S h l j (Done r) \<longleftrightarrow>
     (r = 0 \<longrightarrow> harmless deny h \<or> (\<exists>i m. named h i \<and> m \<le> j \<and> vouched k S i m \<and> counts_at ops S l m))"

lemma read_since_mono: "read_since ops S l j e \<Longrightarrow> read_since ops S l (Suc j) e"
  by (auto simp: read_since_def intro: le_SucI)

lemma digest_seen_mono: "digest_seen k S j i buf \<Longrightarrow> digest_seen k S (Suc j) i buf"
  by (auto simp: digest_seen_def intro: le_SucI)

lemma accepted_since_mono: "accepted_since ops k S l j i e \<Longrightarrow> accepted_since ops k S l (Suc j) i e"
  using le_SucI [of _ j] unfolding accepted_since_def by blast

lemma accepted_epoch: "accepted_since ops k S l j i e \<Longrightarrow> epoch_shown ops k S j i e"
  unfolding accepted_since_def epoch_shown_def by blast

lemma accepted_counts: "accepted_since ops k S l j i e \<Longrightarrow> \<exists>m\<le>j. vouched k S i m \<and> counts_at ops S l m"
  unfolding accepted_since_def counts_at_def by fastforce

lemma pc_shown_mono:
  assumes "pc_shown ops k deny S h l j p" "\<And>i n. owns (gr_gate (S j)) i n \<Longrightarrow> owns (gr_gate (S (Suc j))) i n"
  shows "pc_shown ops k deny S h l (Suc j) p"
  using assms
  by (cases p) (auto intro: le_SucI read_since_mono digest_seen_mono accepted_since_mono)

lemma EPERM_nonzero [simp]: "EPERM \<noteq> 0"
  by (simp add: EPERM_def)

text \<open>A verdict that was reached before the hook began counts when the epoch is the same.\<close>

lemma hit_counts:
  assumes rises: "epoch_rises ops S n" and j: "j \<le> n"
    and shown: "epoch_shown ops k S j i e" "read_since ops S l j e"
  shows "\<exists>m\<le>j. vouched k S i m \<and> counts_at ops S l m"
proof -
  obtain a b where ab: "a \<le> b" "b \<le> j" "epoch_at ops S a = e" "vouched k S i b"
    using shown(1) unfolding epoch_shown_def by blast
  obtain c where c: "l < c" "c \<le> j" "epoch_at ops S c = e"
    using shown(2) by (auto simp: read_since_def)
  have "epoch_at ops S t = e" if "a \<le> t" "t \<le> c" for t
    using rises [unfolded epoch_rises_def, rule_format, of a t] rises [unfolded epoch_rises_def, rule_format, of t c]
      that ab(3) c j by simp
  then have "counts_at ops S l b"
    using ab(1) c(1) by (cases "l < b") (auto simp: counts_at_def)
  with ab show ?thesis by blast
qed

lemma verified_vouched:
  assumes "verity_fixed k S n" "j \<le> n" "digest_seen k S j i buf" "verifies k (world_at S j) buf sig"
    and "\<exists>b\<le>j. file_sig k (world_at S b) i = Some sig"
  shows "vouched k S i j"
proof -
  from assms(3) obtain b d where b: "b \<le> j" "k_digest k (world_at S b) i = (0, d)" "buf = FSV_MAGIC @ d"
    by (auto simp: digest_seen_def)
  with assms(1,2) have "k_digest k (world_at S j) i = (0, d)"
    unfolding verity_fixed_def by blast
  with b(3) assms(4,5) show ?thesis
    by (auto simp: vouched_def accepts_def)
qed

text \<open>One step of a CPU keeps what it has established.\<close>

lemma created_owned:
  assumes "storage_create ops st i nv = (Some n, st')" "storage_ok ops st"
  shows "owns st' i n"
  using assms
  by (auto simp: storage_create_def storage_ok_def owns_def nth_append split: option.splits prod.splits if_splits)

lemma micro_owns:
  assumes "gate_micro ops k deny (p, st) = (p', st')" "owns st i n"
  shows "owns st' i n"
proof (cases p)
  case (In h)
  with assms show ?thesis by (cases h) auto
next
  case (Create i' e)
  with assms show ?thesis
    by (auto simp: storage_create_def owns_def nth_append split: option.splits prod.splits if_splits)
qed (use assms in auto)

lemma micro_shown:
  assumes fixed: "verity_fixed k S n" and rises: "epoch_rises ops S n" and j: "Suc j \<le> n" and l: "l < j"
    and cache: "elems_shown ops k S j (gr_gate (S j))" "storage_ok ops (gr_gate (S j))"
    and pc: "pc_shown ops k deny S h l j p"
    and step: "gate_micro ops k deny (p, gr_gate (S j)) = (p', st')" and nxt: "gr_gate (S (Suc j)) = st'"
  shows "pc_shown ops k deny S h l (Suc j) p'"
proof -
  have mono: "pc_shown ops k deny S h l (Suc j) q" if "pc_shown ops k deny S h l j q" for q
    using pc_shown_mono [where S = S and j = j, OF that] micro_owns [OF step] nxt by blast
  show ?thesis
  proof (cases p)
    case (In h')
    with pc step have "pc_shown ops k deny S h l j p'"
      by (cases h') (auto simp: named_def enter_file_def split: option.splits if_splits)
    then show ?thesis by (rule mono)
  next
    case (Epoch i)
    with pc step l have "pc_shown ops k deny S h l j p'" by (auto simp: read_since_def)
    then show ?thesis by (rule mono)
  next
    case (Cache i e)
    with pc step cache(2) have "pc_shown ops k deny S h l j p'"
      by (auto simp: storage_ok_def split: option.splits)
    then show ?thesis by (rule mono)
  next
    case (Approved i e m)
    with pc step have "pc_shown ops k deny S h l j p'" by (auto split: if_splits)
    then show ?thesis by (rule mono)
  next
    case (Matches i e m)
    with pc cache(1) have "epoch_shown ops k S j i (epoch (elem_at (gr_gate (S j)) m))"
      by (simp add: elems_shown_def)
    with Matches pc step hit_counts [OF rises _ _, of j k i e l] j have "pc_shown ops k deny S h l j p'"
      by (auto split: if_splits)
    then show ?thesis by (rule mono)
  next
    case (Digest i e)
    with pc step have "pc_shown ops k deny S h l j p'"
      by (auto simp: digest_seen_def split: if_splits prod.splits)
    then show ?thesis by (rule mono)
  next
    case (Xattr i e buf)
    with pc step have "pc_shown ops k deny S h l j p'"
      by (auto split: option.splits)
    then show ?thesis by (rule mono)
  next
    case (Verify i e buf sig)
    have "pc_shown ops k deny S h l j p'"
    proof (cases "verifies k (world_at S j) buf sig")
      case True
      from pc Verify verified_vouched [OF fixed _ _ True] j have "named h i" "read_since ops S l j e" "vouched k S i j"
        by auto
      then have "pc_shown ops k deny S h l j (Create i e)"
        unfolding pc_shown.simps read_since_def accepted_since_def by blast
      with Verify step True show ?thesis by auto
    qed (use Verify step in auto)
    then show ?thesis by (rule mono)
  next
    case (Create i e)
    with pc step nxt created_owned [OF _ cache(2), of i "new_verdict e"] accepted_counts [of ops k S l j i e] show ?thesis
      by (auto intro: accepted_since_mono le_SucI split: prod.splits option.splits)
  next
    case (Set_approved i e m)
    with pc step have "pc_shown ops k deny S h l j p'" by auto
    then show ?thesis by (rule mono)
  next
    case (Set_epoch i e m)
    with pc step accepted_counts [of ops k S l j i e] have "pc_shown ops k deny S h l j p'" by auto
    then show ?thesis by (rule mono)
  qed (use pc step mono in auto)
qed

locale gate_cache = bpf_hash "ve_ops ops" for ops :: "('p, 'm) gate_ops"
begin

lemma created_lookup:
  assumes "storage_create ops st i nv = (r, st')" "storage_ok ops st"
  shows "storage_ok ops st'"
proof -
  have "owns st' i' n" if "storage_get ops st' i' = Some n" for i' n
    using assms that hash_update_cases [of "verdict_map st" i "length (elems st)" BPF_NOEXIST]
    by (auto simp: storage_create_def storage_get_def storage_ok_def owns_def nth_append
        split: option.splits prod.splits if_splits) (metis less_Suc_eq)+
  then show ?thesis by (simp add: storage_ok_def)
qed

lemma created_elems:
  assumes "storage_create ops st i nv = (r, st')" "elems_shown ops k S j st" "epoch_shown ops k S j i (epoch nv)"
  shows "elems_shown ops k S j st'"
  using assms
  by (auto simp: storage_create_def elems_shown_def owns_def elem_at_def nth_append less_Suc_eq
      split: option.splits prod.splits if_splits)

lemma micro_cache:
  assumes "gate_micro ops k deny (p, gr_gate (S j)) = (p', st')" "storage_ok ops (gr_gate (S j))"
    and "elems_shown ops k S j (gr_gate (S j))" "pc_shown ops k deny S h l j p"
  shows "storage_ok ops st' \<and> elems_shown ops k S j st'"
proof (cases p)
  case (In h)
  with assms show ?thesis by (cases h) auto
next
  case (Create i e)
  with assms(4) have shown: "epoch_shown ops k S j i (epoch (new_verdict e))"
    by (auto simp: new_verdict_def intro: accepted_epoch)
  obtain r st where made: "storage_create ops (gr_gate (S j)) i (new_verdict e) = (r, st)" by fastforce
  with Create assms(1) have "st' = st" by (auto split: option.splits)
  with created_lookup [OF made assms(2)] created_elems [OF made assms(3) shown] show ?thesis by simp
next
  case (Set_approved i e n)
  with assms(4) have "n < length (elems (gr_gate (S j)))" by (simp add: owns_def)
  with Set_approved assms(1-3) show ?thesis
    by (auto simp: storage_ok_def elems_shown_def elem_set_elem)
next
  case (Set_epoch i e n)
  with assms(4) have "epoch_shown ops k S j i e" "owns (gr_gate (S j)) i n" "n < length (elems (gr_gate (S j)))"
    by (auto simp: owns_def intro: accepted_epoch)
  moreover have "epoch_shown ops k S j i' (epoch (elem_at st' m))" if "owns (gr_gate (S j)) i' m" for i' m
  proof (cases "m = n")
    case True
    with that calculation(2) have "i' = i" by (simp add: owns_def)
    with True calculation Set_epoch assms(1) show ?thesis by (auto simp: elem_set_elem)
  next
    case False
    with that calculation(3) Set_epoch assms(1,3) show ?thesis by (auto simp: elems_shown_def elem_set_elem)
  qed
  ultimately show ?thesis
    using Set_epoch assms(1,2) by (auto simp: storage_ok_def elems_shown_def)
qed (use assms in auto)

lemma set_elem_frame [simp]: "policy (set_elem g n st) = policy st" "world (set_elem g n st) = world st"
  by (simp_all add: set_elem_def)

lemma micro_frame:
  "gate_micro ops k deny (p, st) = (p', st') \<Longrightarrow> policy st' = policy st \<and> world st' = world st"
  by (cases "(ops, k, deny, (p, st))" rule: gate_micro.cases)
     (auto simp: storage_create_def split: option.splits prod.splits if_splits)

text \<open>After \<open>j\<close> steps the cache and every CPU have what they claim.\<close>

definition cpu_shown ::
  "('w, 'key) gate_kernel \<Rightarrow> bool \<Rightarrow> (nat \<Rightarrow> ('p, 'm, 'w) gate_race) \<Rightarrow> (nat \<Rightarrow> ('p, 'w) gate_label) \<Rightarrow> nat \<Rightarrow> nat \<Rightarrow>
   gate_pc \<Rightarrow> bool" where
  "cpu_shown k deny S L j c p \<longleftrightarrow> p = Out \<or> (\<exists>h l. in_hook L c h l j \<and> pc_shown ops k deny S h l j p)"

definition gate_inv ::
  "('w, 'key) gate_kernel \<Rightarrow> bool \<Rightarrow> (nat \<Rightarrow> ('p, 'm, 'w) gate_race) \<Rightarrow> (nat \<Rightarrow> ('p, 'w) gate_label) \<Rightarrow> nat \<Rightarrow> bool" where
  "gate_inv k deny S L j \<longleftrightarrow> storage_ok ops (gr_gate (S j)) \<and> elems_shown ops k S j (gr_gate (S j)) \<and>
     (\<forall>c<length (gr_cpus (S j)). cpu_shown k deny S L j c (gr_cpus (S j) ! c))"

lemma elems_mono: "elems_shown ops k S j st \<Longrightarrow> elems_shown ops k S (Suc j) st"
  by (auto simp: elems_shown_def intro: epoch_shown_mono)

lemma step_owns:
  assumes "gate_step ops k deny s l s'" "owns (gr_gate s) i n"
  shows "owns (gr_gate s') i n"
  using assms(1)
proof cases
  case (go c p st)
  with assms(2) micro_owns [OF go(4)] show ?thesis by simp
qed (use assms(2) in \<open>auto simp: owns_def\<close>)

lemma cpu_stays:
  assumes "cpu_shown k deny S L j c p" "\<And>h. L j \<noteq> Begin c h" "gate_step ops k deny (S j) (L j) (S (Suc j))"
  shows "cpu_shown k deny S L (Suc j) c p"
  using assms(1,2) in_hook_next [of L c _ _ j] pc_shown_mono [where S = S and j = j] step_owns [OF assms(3)]
  unfolding cpu_shown_def by blast

lemma cpu_enters: "L j = Begin c h \<Longrightarrow> cpu_shown k deny S L (Suc j) c (In h)"
  using in_hook_enter [of L j c h] by (auto simp: cpu_shown_def)

lemma cpu_goes:
  assumes "cpu_shown k deny S L j c p" "elems_shown ops k S j (gr_gate (S j))" "storage_ok ops (gr_gate (S j))"
    and "L j = Go c" "verity_fixed k S n" "epoch_rises ops S n" "Suc j \<le> n"
    and mi: "gate_micro ops k deny (p, gr_gate (S j)) = (p', st')" and nxt: "gr_gate (S (Suc j)) = st'"
  shows "cpu_shown k deny S L (Suc j) c p'"
proof (cases "p = Out")
  case True
  with mi show ?thesis by (simp add: cpu_shown_def)
next
  case False
  with assms(1) obtain h l where h: "in_hook L c h l j" "pc_shown ops k deny S h l j p"
    unfolding cpu_shown_def by blast
  have "l < j" using h(1) by (simp add: in_hook_def)
  from micro_shown [OF assms(5-7) this assms(2,3) h(2) mi nxt] in_hook_next [OF h(1)] assms(4) show ?thesis
    by (auto simp: cpu_shown_def)
qed

text \<open>The storage gains an element, and an element an epoch, only from a CPU that has shown it.\<close>

lemma cache_step:
  assumes "gate_inv k deny S L j" "gate_step ops k deny (S j) (L j) (S (Suc j))"
  shows "storage_ok ops (gr_gate (S (Suc j))) \<and> elems_shown ops k S (Suc j) (gr_gate (S (Suc j)))"
proof -
  have ok: "storage_ok ops (gr_gate (S j))" "elems_shown ops k S j (gr_gate (S j))"
    using assms(1) by (auto simp: gate_inv_def)
  from assms(2) have "storage_ok ops (gr_gate (S (Suc j))) \<and> elems_shown ops k S j (gr_gate (S (Suc j)))"
  proof cases
    case (go c p st)
    have "cpu_shown k deny S L j c (gr_cpus (S j) ! c)"
      using assms(1) go(3) by (simp add: gate_inv_def)
    then consider "gr_cpus (S j) ! c = Out" | h l where "pc_shown ops k deny S h l j (gr_cpus (S j) ! c)"
      by (auto simp: cpu_shown_def)
    then show ?thesis
    proof cases
      case 1
      with go ok show ?thesis by simp
    next
      case 2
      from micro_cache [OF go(4) ok 2] go(2) show ?thesis by simp
    qed
  next
    case (evict i)
    with ok show ?thesis
      by (auto simp: storage_ok_def storage_get_def elems_shown_def elem_at_def owns_def hash_delete split: if_splits)
  qed (use ok in \<open>auto simp: storage_ok_def storage_get_def elems_shown_def elem_at_def owns_def\<close>)
  then show ?thesis by (blast intro: elems_mono)
qed

lemma gate_inv_step:
  assumes inv: "gate_inv k deny S L j" and step: "gate_step ops k deny (S j) (L j) (S (Suc j))"
    and n: "verity_fixed k S n" "epoch_rises ops S n" "Suc j \<le> n"
  shows "gate_inv k deny S L (Suc j)"
proof -
  have ok: "elems_shown ops k S j (gr_gate (S j))" "storage_ok ops (gr_gate (S j))"
    and cpus: "\<And>c. c < length (gr_cpus (S j)) \<Longrightarrow> cpu_shown k deny S L j c (gr_cpus (S j) ! c)"
    using inv by (auto simp: gate_inv_def)
  have stays: "cpu_shown k deny S L (Suc j) c p" if "cpu_shown k deny S L j c p" "\<And>h. L j \<noteq> Begin c h" for c p
    using cpu_stays [OF that step] .
  have "\<forall>c < length (gr_cpus (S (Suc j))). cpu_shown k deny S L (Suc j) c (gr_cpus (S (Suc j)) ! c)"
    using step
  proof cases
    case (begin_hook c h)
    with cpus stays cpu_enters [of L j c h k deny S] show ?thesis
      by (auto simp: nth_list_update)
  next
    case (go c p st)
    then have "gr_gate (S (Suc j)) = st" by simp
    from cpu_goes [OF cpus [OF go(3)] ok go(1) n go(4) this] go cpus stays show ?thesis
      by (auto simp: nth_list_update)
  next
    case (return_hook c r)
    with cpus stays show ?thesis
      by (auto simp: nth_list_update cpu_shown_def [of _ _ _ _ _ _ Out])
  qed (use cpus stays in auto)
  with cache_step [OF inv step] show ?thesis by (simp add: gate_inv_def)
qed

lemma gate_inv_reached:
  assumes "gate_trace ops k deny S L n" "verity_fixed k S n" "epoch_rises ops S n"
    and "\<And>i. map_lookup (ve_ops ops) (verdict_map (gr_gate (S 0))) i = None" "elems (gr_gate (S 0)) = []"
    and "set (gr_cpus (S 0)) \<subseteq> {Out}" "j \<le> n"
  shows "gate_inv k deny S L j"
  using assms(7)
proof (induction j)
  case 0
  have "gr_cpus (S 0) ! c = Out" if "c < length (gr_cpus (S 0))" for c
    using nth_mem [OF that] assms(6) by blast
  with assms(4,5) show ?case
    by (simp add: gate_inv_def storage_ok_def storage_get_def elems_shown_def owns_def cpu_shown_def)
next
  case (Suc j)
  then show ?case
    using gate_inv_step [OF _ _ assms(2,3)] assms(1) by (simp add: gate_trace_def)
qed

lemma allowed_vouched:
  assumes "gate_trace ops k deny S L n" "verity_fixed k S n" "epoch_rises ops S n"
    and "\<And>i. map_lookup (ve_ops ops) (verdict_map (gr_gate (S 0))) i = None" "elems (gr_gate (S 0)) = []"
    and "set (gr_cpus (S 0)) \<subseteq> {Out}"
    and "in_hook L c h i j" "j < n" "L j = Return c 0"
  shows "harmless deny h \<or> (\<exists>ino m. hook_file h = Some ino \<and> \<not> is_anon_exec_inode ino \<and>
    m \<le> j \<and> vouched k S (i_ino ino) m \<and> counts_at ops S i m)"
proof -
  have inv: "gate_inv k deny S L j"
    by (rule gate_inv_reached [OF assms(1-6)]) (use assms(8) in simp)
  have "gate_step ops k deny (S j) (Return c 0) (S (Suc j))"
    using assms(1,8,9) by (auto simp: gate_trace_def)
  then have c: "c < length (gr_cpus (S j))" "gr_cpus (S j) ! c = Done 0"
    by (auto elim: gate_stepE)
  with inv obtain h' l where "in_hook L c h' l j" "pc_shown ops k deny S h' l j (Done 0)"
    by (auto simp: gate_inv_def cpu_shown_def)
  with in_hook_unique [OF assms(7)] show ?thesis
    by (auto simp: named_def)
qed

end

interpretation gate_cache_model: gate_cache
  "\<lparr>po_ops = array_ops 1, ve_ops = hash_ops\<rparr> :: (u32 \<Rightarrow> u32, (u64, nat) amap) gate_ops"
  by (simp add: gate_cache_def hash_model.bpf_hash_axioms)

section \<open>The theorems\<close>

text \<open>
  C4. The gate on any number of CPUs, interleaved at every access with each other, with changes of
  policy, keys and files and with evictions, the agent raising the epoch and never lowering it:
  when a hook allows, either it was a mapping that is not executable (or an anonymous one that
  the policy permits), or its file is not an anonymous executable and at some instant the keys in
  force accepted, for the file's digest, a signature the file had carried. That instant is between
  the hook's entry and its return, or before the entry with no raise of the epoch from it until
  the hook began. So once a key has been withdrawn and the epoch raised, in this order, no hook
  that begins later is allowed by what that key accepted; a hook that begins between the two can
  still be, from the cache.
\<close>

theorem gate_allows_vouched:
  assumes "bpf_hash (ve_ops ops)" "gate_trace ops k deny S L n" "verity_fixed k S n" "epoch_rises ops S n"
    and "\<And>i. map_lookup (ve_ops ops) (verdict_map (gr_gate (S 0))) i = None" "elems (gr_gate (S 0)) = []"
    and "set (gr_cpus (S 0)) \<subseteq> {Out}"
    and "in_hook L c h i j" "j < n" "L j = Return c 0"
  shows "harmless deny h \<or> (\<exists>ino m. hook_file h = Some ino \<and> \<not> is_anon_exec_inode ino \<and>
    m \<le> j \<and> vouched k S (i_ino ino) m \<and>
    (i < m \<or> (\<forall>t. m \<le> t \<and> t \<le> Suc i \<longrightarrow> epoch_at ops S t = epoch_at ops S m)))"
  using gate_cache.allowed_vouched [OF gate_cache.intro [OF assms(1)] assms(2-10)]
  unfolding counts_at_def .

text \<open>
  The other direction, over the steps of one hook: which decisions are open at each point while
  the digest \<open>d\<close> and the signature \<open>sig\<close> of the file do not change.
\<close>

fun pc_open :: "bool \<Rightarrow> hook \<Rightarrow> bytes \<Rightarrow> bytes \<Rightarrow> gate_pc \<Rightarrow> bool" where
  "pc_open deny h d sig Out \<longleftrightarrow> False"
| "pc_open deny h d sig (In h') \<longleftrightarrow> h' = h"
| "pc_open deny h d sig (Epoch i) \<longleftrightarrow> named h i"
| "pc_open deny h d sig (Cache i e) \<longleftrightarrow> named h i"
| "pc_open deny h d sig (Approved i e n) \<longleftrightarrow> named h i"
| "pc_open deny h d sig (Matches i e n) \<longleftrightarrow> named h i"
| "pc_open deny h d sig (Digest i e) \<longleftrightarrow> named h i"
| "pc_open deny h d sig (Xattr i e buf) \<longleftrightarrow> named h i \<and> buf = FSV_MAGIC @ d"
| "pc_open deny h d sig (Verify i e buf sig') \<longleftrightarrow> named h i \<and> buf = FSV_MAGIC @ d \<and> sig' = sig"
| "pc_open deny h d sig (Create i e) \<longleftrightarrow> named h i"
| "pc_open deny h d sig (Set_approved i e n) \<longleftrightarrow> named h i"
| "pc_open deny h d sig (Set_epoch i e n) \<longleftrightarrow> named h i"
| "pc_open deny h d sig (Done r) \<longleftrightarrow> (if harmless deny h \<or> (\<exists>i. named h i) then r = 0 else r = - EPERM)"

definition signed_file :: "('w, 'key) gate_kernel \<Rightarrow> hook \<Rightarrow> bytes \<Rightarrow> bytes \<Rightarrow> 'w \<Rightarrow> bool" where
  "signed_file k h d sig w \<longleftrightarrow>
     (\<forall>ino. hook_file h = Some ino \<and> \<not> is_anon_exec_inode ino \<longrightarrow>
        k_digest k w (i_ino ino) = (0, d) \<and> file_sig k w (i_ino ino) = Some sig \<and> verifies k w (FSV_MAGIC @ d) sig)"

lemma named_signed:
  "named h i \<Longrightarrow> signed_file k h d sig w \<Longrightarrow>
   k_digest k w i = (0, d) \<and> file_sig k w i = Some sig \<and> verifies k w (FSV_MAGIC @ d) sig"
  by (auto simp: named_def signed_file_def)

lemma micro_open:
  assumes "pc_open deny h d sig p" "signed_file k h d sig (world st)" "gate_micro ops k deny (p, st) = (p', st')"
  shows "pc_open deny h d sig p'"
proof (cases p)
  case (In h')
  with assms show ?thesis
    by (cases h') (auto simp: enter_file_def named_def split: option.splits if_splits)
qed (use assms named_signed [OF _ assms(2)] in \<open>auto split: option.splits prod.splits\<close>)

lemma step_open:
  assumes "gate_step ops k deny s l s'" "signed_file k h d sig (world (gr_gate s))"
    and "c < length (gr_cpus s)" "pc_open deny h d sig (gr_cpus s ! c)" "\<And>r. l \<noteq> Return c r"
  shows "c < length (gr_cpus s') \<and> pc_open deny h d sig (gr_cpus s' ! c)"
  using assms(1)
proof cases
  case (begin_hook c' h')
  with assms(3,4) show ?thesis by (auto simp: nth_list_update)
next
  case (go c' p st)
  with assms(3,4) micro_open [OF assms(4,2), of ops] show ?thesis by (auto simp: nth_list_update)
next
  case (return_hook c' r)
  with assms(3-5) show ?thesis by (auto simp: nth_list_update)
qed (use assms in auto)

lemma hook_open:
  assumes tr: "gate_trace ops k deny S L n" and hk: "in_hook L c h i j" and j: "j \<le> n"
    and same: "\<And>m. i < m \<Longrightarrow> m < j \<Longrightarrow> signed_file k h d sig (world_at S m)"
    and run: "\<And>m r. i < m \<Longrightarrow> m < j \<Longrightarrow> L m \<noteq> Return c r"
  shows "c < length (gr_cpus (S j)) \<and> pc_open deny h d sig (gr_cpus (S j) ! c)"
proof -
  have "i < m \<Longrightarrow> m \<le> j \<Longrightarrow> c < length (gr_cpus (S m)) \<and> pc_open deny h d sig (gr_cpus (S m) ! c)" for m
  proof (induction m)
    case (Suc m)
    then have step: "gate_step ops k deny (S m) (L m) (S (Suc m))"
      using tr j by (simp add: gate_trace_def)
    show ?case
    proof (cases "i = m")
      case True
      with step hk show ?thesis by (auto simp: in_hook_def elim!: gate_stepE)
    next
      case False
      with Suc have m: "i < m" "m < j" by auto
      with Suc.IH step_open [OF step same [OF m]] run [OF m] show ?thesis by simp
    qed
  qed simp
  with hk show ?thesis by (simp add: in_hook_def)
qed

text \<open>
  C24. What the gate returns, whatever other CPUs, the policy and the cache do: \<open>-EPERM\<close> for an
  anonymous executable and for a denied anonymous mapping, 0 for a mapping that asks for no check,
  and 0 for any other file whose digest, signature and accepting key stay what they are while
  the hook runs. Alone, a hook returns after at most eleven steps.
\<close>

theorem gate_decides:
  assumes "gate_trace ops k deny S L n" "in_hook L c h i j" "j < n" "L j = Return c r"
    and "\<And>m. i < m \<Longrightarrow> m < j \<Longrightarrow> signed_file k h d sig (world_at S m)"
    and "\<And>m r. i < m \<Longrightarrow> m < j \<Longrightarrow> L m \<noteq> Return c r"
  shows "r = (if harmless deny h \<or> (\<exists>ino. hook_file h = Some ino \<and> \<not> is_anon_exec_inode ino) then 0 else - EPERM) \<and>
    (\<forall>st. \<exists>r' st'. (gate_micro ops k deny ^^ 11) (In h, st) = (Done r', st'))"
proof -
  have "gate_step ops k deny (S j) (Return c r) (S (Suc j))"
    using assms(1,3,4) by (auto simp: gate_trace_def)
  then have "gr_cpus (S j) ! c = Done r"
    by (auto elim: gate_stepE)
  with hook_open [OF assms(1,2) _ assms(5,6)] assms(3) have "pc_open deny h d sig (Done r)"
    by simp
  then show ?thesis
    by (auto simp: named_def gate_alone split: if_splits prod.split)
qed

text \<open>The steps as a function.\<close>

fun gate_next ::
  "('p, 'm) gate_ops \<Rightarrow> ('w, 'key) gate_kernel \<Rightarrow> bool \<Rightarrow> ('p, 'w) gate_label \<Rightarrow> ('p, 'm, 'w) gate_race \<Rightarrow>
   ('p, 'm, 'w) gate_race option" where
  "gate_next ops k deny (Begin c h) s =
     (if c < length (gr_cpus s) \<and> gr_cpus s ! c = Out then Some (s\<lparr>gr_cpus := (gr_cpus s)[c := In h]\<rparr>) else None)"
| "gate_next ops k deny (Go c) s =
     (if c < length (gr_cpus s)
      then case gate_micro ops k deny (gr_cpus s ! c, gr_gate s) of
             (p, st) \<Rightarrow> Some \<lparr>gr_gate = st, gr_cpus = (gr_cpus s)[c := p]\<rparr>
      else None)"
| "gate_next ops k deny (Return c r) s =
     (if c < length (gr_cpus s) \<and> gr_cpus s ! c = Done r then Some (s\<lparr>gr_cpus := (gr_cpus s)[c := Out]\<rparr>) else None)"
| "gate_next ops k deny (Change p w) s = Some (s\<lparr>gr_gate := (gr_gate s)\<lparr>policy := p, world := w\<rparr>\<rparr>)"
| "gate_next ops k deny (Evict i) s =
     Some (s\<lparr>gr_gate := (gr_gate s)\<lparr>verdict_map := map_delete (ve_ops ops) (verdict_map (gr_gate s)) i\<rparr>\<rparr>)"

lemma gate_next_iff: "gate_next ops k deny l s = Some s' \<longleftrightarrow> gate_step ops k deny s l s'"
  by (cases l) (auto simp: gate_step.simps split: prod.splits)

fun gate_play ::
  "('p, 'm) gate_ops \<Rightarrow> ('w, 'key) gate_kernel \<Rightarrow> bool \<Rightarrow> ('p, 'w) gate_label list \<Rightarrow> ('p, 'm, 'w) gate_race \<Rightarrow>
   ('p, 'm, 'w) gate_race list" where
  "gate_play ops k deny [] s = [s]"
| "gate_play ops k deny (l # ls) s =
     s # (case gate_next ops k deny l s of None \<Rightarrow> [] | Some s' \<Rightarrow> gate_play ops k deny ls s')"

lemma gate_play_trace:
  "length (gate_play ops k deny ls s) = Suc (length ls) \<Longrightarrow>
   gate_trace ops k deny (nth (gate_play ops k deny ls s)) (nth ls) (length ls) \<and> gate_play ops k deny ls s ! 0 = s"
proof (induction ls arbitrary: s)
  case (Cons l ls)
  then obtain s' where s': "gate_next ops k deny l s = Some s'" "length (gate_play ops k deny ls s') = Suc (length ls)"
    by (auto split: option.splits)
  with Cons.IH [OF s'(2)] show ?case
    by (auto simp: gate_trace_def less_Suc_eq_0_disj simp flip: gate_next_iff)
qed (simp add: gate_trace_def)

text \<open>
  A demonstration: the key accepts the signature of inode 7 while the world is 5. CPU 0 verifies the
  inode. The key is withdrawn, and CPU 1 still hits the cache, since the epoch has not moved; after
  it has, the stale verdict does not count and CPU 0 is refused. A memfd without digest and
  signature is refused as well.
\<close>

definition demo_ops :: "(u32 \<Rightarrow> u32, (u64, nat) amap) gate_ops" where
  "demo_ops = \<lparr>po_ops = array_ops 1, ve_ops = hash_ops\<rparr>"

definition demo_kernel :: "(u8, unit) gate_kernel" where
  "demo_kernel = \<lparr>k_digest = (\<lambda>w i. if i = 7 then (0, replicate 36 9) else (- 61, [])),
     k_xattr = (\<lambda>w i. if i = 7 then (1, [5, 0]) else (- 61, [])),
     k_key = (\<lambda>w sel. if sel = 1 then Some () else None), k_pkcs7 = (\<lambda>w buf sig kr. if sig = [w] then 0 else - 129)\<rparr>"

definition demo_inode :: inode where
  "demo_inode = \<lparr>i_ino = 7, s_magic = 0xEF53, i_nlink = 1\<rparr>"

definition demo_memfd :: inode where
  "demo_memfd = \<lparr>i_ino = 8, s_magic = 0x01021994, i_nlink = 0\<rparr>"

definition demo_start :: "(u32 \<Rightarrow> u32, (u64, nat) amap, u8) gate_race" where
  "demo_start = \<lparr>gr_gate = \<lparr>policy = (\<lambda>_. 1), verdict_map = amap_empty 4, elems = [], world = 5\<rparr>, gr_cpus = [Out, Out]\<rparr>"

definition demo_labels :: "(u32 \<Rightarrow> u32, u8) gate_label list" where
  "demo_labels =
     Begin 0 (Bprm_check demo_inode) # replicate 9 (Go 0) @ [Return 0 0, Change (\<lambda>_. 1) 6] @
     Begin 1 (Mmap_file (Some demo_inode) 5) # replicate 5 (Go 1) @ [Return 1 0, Change (\<lambda>_. 2) 6] @
     Begin 0 (Bprm_check demo_inode) # replicate 8 (Go 0) @ [Return 0 (- 1)] @
     [Begin 1 (Bprm_check demo_memfd), Go 1, Return 1 (- 1)]"

definition demo_states :: "(u32 \<Rightarrow> u32, (u64, nat) amap, u8) gate_race list" where
  "demo_states = gate_play demo_ops demo_kernel True demo_labels demo_start"

lemma demo_length: "length demo_states = Suc (length demo_labels)" "length demo_labels = 33"
  by code_simp+

lemma demo_worlds:
  "j \<le> 33 \<Longrightarrow> world (gr_gate (demo_states ! j)) = (if j \<le> 11 then 5 else 6) \<and>
     current_epoch demo_ops (policy (gr_gate (demo_states ! j))) = (if j \<le> 19 then 1 else 2)"
proof -
  have "\<forall>j\<in>set [0..<34]. world (gr_gate (demo_states ! j)) = (if j \<le> 11 then 5 else 6) \<and>
     current_epoch demo_ops (policy (gr_gate (demo_states ! j))) = (if j \<le> 19 then 1 else 2)"
    by code_simp
  then show "j \<le> 33 \<Longrightarrow> ?thesis" by simp
qed

lemma demo_trace:
  "gate_trace demo_ops demo_kernel True (nth demo_states) (nth demo_labels) 33" "demo_states ! 0 = demo_start"
  using gate_play_trace [of demo_ops demo_kernel True demo_labels demo_start] demo_length
  by (auto simp: demo_states_def)

theorem gate_allows_vouched_witness:
  "demo_labels ! 18 = Return 1 0 \<and>
   (\<exists>m\<le>18. vouched demo_kernel (nth demo_states) 7 m \<and>
      (12 < m \<or> epoch_at demo_ops (nth demo_states) 13 = epoch_at demo_ops (nth demo_states) m))"
proof -
  have "verity_fixed demo_kernel (nth demo_states) 33"
    by (simp add: verity_fixed_def demo_kernel_def)
  moreover have "epoch_rises demo_ops (nth demo_states) 33"
    by (auto simp: epoch_rises_def demo_worlds)
  moreover have last: "in_hook (nth demo_labels) 1 (Mmap_file (Some demo_inode) 5) 12 18" "demo_labels ! 18 = Return 1 0"
    by (auto simp: in_hook_def demo_labels_def nth_Cons' nth_append)
  moreover have "bpf_hash (ve_ops demo_ops)" "map_lookup (ve_ops demo_ops) (verdict_map (gr_gate demo_start)) i = None" for i
    by (simp_all add: demo_ops_def demo_start_def hash_model.bpf_hash_axioms) (simp add: hash_ops_def)
  ultimately obtain m where m: "m \<le> 18" "vouched demo_kernel (nth demo_states) 7 m"
    "12 < m \<or> (\<forall>t. m \<le> t \<and> t \<le> Suc 12 \<longrightarrow> epoch_at demo_ops (nth demo_states) t = epoch_at demo_ops (nth demo_states) m)"
    using gate_allows_vouched [of demo_ops demo_kernel True "nth demo_states" "nth demo_labels" 33 1
        "Mmap_file (Some demo_inode) 5" 12 18] demo_trace
    by (auto simp: demo_start_def PROT_EXEC_def demo_inode_def)
  have "epoch_at demo_ops (nth demo_states) 13 = epoch_at demo_ops (nth demo_states) m" if "\<not> 12 < m"
    using m(3) that by (elim disjE) (simp, drule spec [of _ 13], simp)
  with m(1,2) last show ?thesis by blast
qed

theorem gate_decides_witness:
  "demo_labels ! 10 = Return 0 0 \<and> demo_labels ! 32 = Return 1 (- 1) \<and>
   (\<exists>d. signed_file demo_kernel (Bprm_check demo_inode) d [5] 5)"
proof -
  have signed: "signed_file demo_kernel (Bprm_check demo_inode) (replicate 36 9) [5] 5"
    by (simp add: signed_file_def demo_kernel_def file_sig_def verifies_def KEYRING_SEL_def demo_inode_def)
  have labels: "demo_labels ! 10 = Return 0 0" "demo_labels ! 30 = Begin 1 (Bprm_check demo_memfd)" "demo_labels ! 31 = Go 1"
    "\<exists>r. demo_labels ! 32 = Return 1 r"
    by (auto simp: demo_labels_def nth_Cons' nth_append)
  have go: "demo_labels ! m = Go 0" if "0 < m" "m < 10" for m
    using that by (auto simp: demo_labels_def nth_Cons' nth_append)
  have hk: "in_hook (nth demo_labels) 0 (Bprm_check demo_inode) 0 10"
    using go by (auto simp: in_hook_def demo_labels_def)
  have hk': "in_hook (nth demo_labels) 1 (Bprm_check demo_memfd) 30 32"
    using labels by (auto simp: in_hook_def less_Suc_eq numeral_eq_Suc)
  obtain r r' where r: "demo_labels ! 10 = Return 0 r" "demo_labels ! 32 = Return 1 r'" using labels by blast
  have "r = 0"
    using gate_decides [OF demo_trace(1) hk _ r(1), of "replicate 36 9" "[5]"] go signed
    by (auto simp: demo_worlds demo_inode_def is_anon_exec_inode_def TMPFS_MAGIC_def HUGETLBFS_MAGIC_def)
  moreover have go': "demo_labels ! m \<noteq> Return 1 x" if "30 < m" "m < 32" for m x
  proof -
    have "m = 31" using that by simp
    with labels(3) show ?thesis by simp
  qed
  have "r' = - 1"
    using gate_decides [OF demo_trace(1) hk' _ r(2) _ go', of "[]" "[]"]
    by (auto simp: signed_file_def demo_memfd_def is_anon_exec_inode_def TMPFS_MAGIC_def EPERM_def)
  ultimately show ?thesis using r signed by blast
qed

end
