(* ===== verification/Spec2Isabelle.thy ===== *)
theory Spec2Isabelle
  imports Bcc_Counts Bcc_Exec Nettop_Sample Nettop_Race Ids_Wire Stash_Trace Keyring Open_Count Tail_Call
    Iterator Verifier Fileless Exec_Gate
begin

text \<open>
  A verification of ebpf101, a course of small eBPF tools.

  \<^bold>\<open>The program.\<close> Each chapter from 7 on, but 24, is a tool in C: one or more programs that the
  kernel runs at a hook (\<open>*.bpf.c\<close>), a loader in user space (\<open>*.c\<close>) that attaches them, reads
  what they send and prints it, and a header with the record they share. Kernel and user side
  meet in BPF maps (counters, rules, stashes) and in a ring buffer (records in order, dropped
  when it is full). The development follows that shape: a kernel program is a function from its
  context and the maps to the maps; a callback is a function from a record and the loader's
  tables to the tables and the lines it prints; \<open>main\<close> is a function from what the kernel and
  libbpf answer to the actions of the run and its exit status. Several theorems run across the
  boundary, from the packet or system call to the printed line.

  \<^bold>\<open>Foundations.\<close>
  \<^item> \<open>Bpf_Prelude\<close>: machine words and their bytes, byte order, C strings and arrays, \<open>atoi\<close>
    and decimal output, scan loops.
  \<^item> \<open>Bpf_Maps\<close>: the map operations as a record, with what \<open>bpf(2)\<close> documents of each map type as
    a locale: \<open>bpf_map\<close>, \<open>bpf_hash\<close>, \<open>bpf_bounded\<close> (a hash map with its \<open>max_entries\<close>), \<open>bpf_lru\<close>,
    \<open>bpf_lru_insert\<close>, \<open>bpf_array\<close>, \<open>bpf_iter\<close>. Programs take the operations as an argument; each locale is interpreted
    on an executable map.
  \<^item> \<open>Bpf_Helpers\<close>: the current task, the ring buffer (\<open>bpf_ringbuf\<close>) and the reads of user
    memory (\<open>bpf_probe\<close>, and \<open>bpf_probe_faults\<close> where they fail), in the same way. A reserved ring slot keeps its old bytes.
  \<^item> \<open>Packet\<close>: frames, header offsets and bounds checks. A read outside the frame is \<open>None\<close>, so
    that a program's result says whether the checks of the source suffice.
  \<^item> \<open>Doubles\<close>: the floating-point operations the loaders use, as a record; theorems that
    do not depend on rounding hold for every such record, the others for every rounding of each
    result with the error bounds of IEEE binary64 (locale \<open>rounding\<close>, interpreted on \<open>binary64\<close>).
  \<^item> \<open>Slot_Table\<close>: the fixed tables of \<open>ids.c\<close>, and in-place compaction.
  \<^item> \<open>Loader\<close>: the actions of a \<open>main\<close> and the poll loop that the ring-buffer tools share.

  \<^bold>\<open>The tools.\<close>
  \<^item> \<open>Bcc_Counts\<close>, \<open>Bcc_Exec\<close>: chapters 1 to 6 and 24, where a Python program holds the kernel program
    as a string or as decorated functions. The counters of 2 and 24 are not atomic: a step relation shows
    that they are exact if and only if no two calls of a key overlap, and that an overlap can cost any number of
    counts. The argument tracer of 5 is followed from the system calls through per-CPU buffers,
    drained in any order, to the lines; that of 6 is compared with its port to C in 8.
  \<^item> \<open>Exec_Snoop\<close>: 07-libbpf and 08-argv-libbpf (\<open>trace_execve\<close>, the pending table). The table
    refines a dictionary keyed by process and stays well-typed for every sequence of records,
    clashing processes included; arguments survive the whole pipeline.
  \<^item> \<open>Stash\<close>: 10-openat-ret and 11-connect. The locale \<open>entry_exit\<close> states the pairing of an
    entry and an exit hook once; both chapters are instances.
  \<^item> \<open>Stash_Trace\<close>: the same two chapters from the system calls of all processes to the printed
    lines. Map and ring refine an unbounded dictionary of calls in flight as long as the stash has
    an entry for each.
  \<^item> \<open>Snoop_Lines\<close>: 09-openat, 15-bashreadline, and the hook of 20-lsm.
  \<^item> \<open>Tcp_States\<close>, \<open>Tcp_Life\<close>: 12-tcpstates and 13-tcplife, the kprobe on \<open>tcp_set_state\<close> with
    its LRU maps. The time that is reported is of the same life of the same socket whatever is evicted.
    The owner of a connection can be one left over from a former life at the same address; the
    theorems say exactly when.
  \<^item> \<open>Open_Count\<close>: 16-bpftool, with a step relation for its interleaving on several CPUs: what is lost
    exactly, and that on \<open>n\<close> CPUs it is less than \<open>n\<close> calls of a user.
  \<^item> \<open>Xdp_Count\<close>, \<open>Tc_Stat\<close>, \<open>Xdp_Firewall\<close>: 17-xdp, 18-tc, 21-firewall. Classification, verdicts
    and the printed totals, for the firewall from its command line on (\<open>Net_Loaders\<close>).
  \<^item> \<open>Ids_Tap\<close>, \<open>Ids_Flow\<close>, \<open>Ids_Scan\<close>, \<open>Ids_Engine\<close>: 23-ids, the tap and the three rules over
    any history of packets. \<open>Ids_Wire\<close> composes them with \<open>main\<close>: from the frames on the wire to the
    alerts on the terminal.
  \<^item> \<open>Nettop_Kernel\<close>, \<open>Nettop_Sample\<close>: 27-nettop, the seven hooks, the sampling of the map while
    it is walked and reaped, rates and display. \<open>Nettop_Race\<close>: \<open>account\<close> cut at every access to
    shared memory, on several CPUs and with rows reaped at any moment. No byte is lost to a race
    between CPUs; a row that is reaped while a CPU holds a pointer to it costs that CPU's additions,
    or moves them to another row, and the theorem is the exact balance.
  \<^item> \<open>Tail_Call\<close>, \<open>Iterator\<close>, \<open>Verifier\<close>, \<open>Keyring\<close>, \<open>Fileless\<close>: chapters 19, 22, 14, 26 (with its
    stimulus \<open>stage-key.c\<close>) and the payload runners of 25, in the current and the first version.
  \<^item> \<open>Exec_Gate\<close>: the LSM exec gate of 25 (\<open>exec_gate.bpf.c.fragment\<close>) with its cache of verdicts, on
    several CPUs and under keys, files and a policy that change while hooks run, in any order: a key
    withdrawn before the epoch is raised is one of the cases.
  \<^item> \<open>Loaders\<close>, \<open>Net_Loaders\<close>: the \<open>main\<close> functions of chapters 7 to 13, 15, 20 and of
    17, 18, 21, 23; the others are in the theories of their tools.

  \<^bold>\<open>Bounds and loops.\<close> \<open>sample\<close> walks a map that its own deletions change, so its loop has fuel;
  \<open>n * (n + 1) + 1\<close> steps are shown to be enough for a map of \<open>n\<close> entries, and the theorems
  state that it returns. The copy loops of \<open>Fileless\<close> are partial functions, where not returning is
  \<open>None\<close>. The unbounded loop of \<open>Verifier\<close> ends when its \<open>int\<close> counter overflows, a fault. Loops that end when a signal arrives run
  over the list of what they are given until then. Counters are words of their C width and the
  theorems say where they wrap; the theorems on histories of packets in \<open>Ids_Engine\<close> are for up to
  \<open>2 ^ 31\<close> records, beyond which the code's gap counter can overflow.

  \<^bold>\<open>Not modelled.\<close> The kernel's verifier, maps and ring buffer and libbpf are parameters with
  their documented behaviour. Text is modelled as the fields of a line, not its padding;
  \<open>inet_ntop\<close> and the formatting of doubles are parameters or left out. Concurrency between CPUs
  is explicit in \<open>Open_Count\<close>, \<open>Bcc_Counts\<close>, \<open>Nettop_Race\<close> and \<open>Exec_Gate\<close>, with the accesses to
  shared memory as steps of their own, but for these: in \<open>Bcc_Counts\<close> a read through a pointer
  goes with its lookup, in \<open>Nettop_Race\<close> the retransmission and close hooks are one step each,
  and in \<open>Exec_Gate\<close> a verification goes with the lookup of its key. In \<open>Bcc_Exec\<close> concurrency is the
  order of delivery; elsewhere it is per-CPU maps and sequences of events.
  Map sizes are those of the declarations where a theorem needs room (\<open>open_stash_map\<close>, \<open>proc_stats_map_decl\<close> and others); the
  sizes of rings are hypotheses. BCC, Python-BPF and its compiler are third-party code; of the Python
  chapters the kernel programs, the callbacks and what is printed are modelled, and decoding bytes as
  UTF-8 is a parameter. Shell scripts, tests and documents have no part in the tools.
\<close>

end
